(* ===== verification/Ngx_Prelude.thy ===== *)
theory Ngx_Prelude
  imports Main "HOL-Library.Word" "HOL-Library.Monad_Syntax"
begin

text \<open>
  What the components share.  An \<open>u_char\<close> is an 8-bit word, a buffer is the list of its
  bytes, and an \<open>ngx_str_t\<close> (a pointer and a length) is the byte list it denotes.  The build is
  the 64-bit one of the README: \<open>ngx_int_t\<close>, \<open>ssize_t\<close>, \<open>off_t\<close> and \<open>time_t\<close> are signed 64-bit.
  A signed C value is an \<open>int\<close>; every signed operation that could overflow goes through
  \<open>s64\<close>, whose \<open>None\<close> is the undefined behaviour of C, so that a theorem with a \<open>Some\<close>
  on its right says that the overflow guards of the code work.

  The theory also holds the facts about bytes that let a proof run through all 256 of them; the loop
  that the HTTP parsers share is in theory \<open>Ngx_Loop\<close>.
\<close>

unbundle bit_operations_syntax

named_theorems ngx_eval \<open>definitions to unfold when the model is run on a concrete input\<close>
named_theorems ngx_len \<open>lengths of the buffers the operations write\<close>

subsection \<open>Types and constants\<close>

type_synonym u8 = "8 word"
type_synonym u32 = "32 word"
type_synonym u64 = "64 word"
type_synonym bytes = "8 word list"

definition NGX_OK :: int where "NGX_OK = 0"
definition NGX_ERROR :: int where "NGX_ERROR = -1"
definition NGX_AGAIN :: int where "NGX_AGAIN = -2"
definition NGX_DONE :: int where "NGX_DONE = -4"
definition NGX_DECLINED :: int where "NGX_DECLINED = -5"

definition NGX_MAX_INT_T_VALUE :: int where
  "NGX_MAX_INT_T_VALUE = 9223372036854775807"

lemmas ngx_codes = NGX_OK_def NGX_ERROR_def NGX_AGAIN_def NGX_DONE_def NGX_DECLINED_def
lemmas ngx_codes_eval [ngx_eval] = ngx_codes NGX_MAX_INT_T_VALUE_def

text \<open>The bytes the parsers test for, under readable names.\<close>

abbreviation c_TAB :: u8 where "c_TAB \<equiv> 0x09"
abbreviation c_LF :: u8 where "c_LF \<equiv> 0x0A"
abbreviation c_CR :: u8 where "c_CR \<equiv> 0x0D"
abbreviation c_SP :: u8 where "c_SP \<equiv> 0x20"
abbreviation c_quot :: u8 where "c_quot \<equiv> 0x22"
abbreviation c_hash :: u8 where "c_hash \<equiv> 0x23"
abbreviation c_pct :: u8 where "c_pct \<equiv> 0x25"
abbreviation c_amp :: u8 where "c_amp \<equiv> 0x26"
abbreviation c_star :: u8 where "c_star \<equiv> 0x2A"
abbreviation c_plus :: u8 where "c_plus \<equiv> 0x2B"
abbreviation c_comma :: u8 where "c_comma \<equiv> 0x2C"
abbreviation c_minus :: u8 where "c_minus \<equiv> 0x2D"
abbreviation c_dot :: u8 where "c_dot \<equiv> 0x2E"
abbreviation c_slash :: u8 where "c_slash \<equiv> 0x2F"
abbreviation c_0 :: u8 where "c_0 \<equiv> 0x30"
abbreviation c_9 :: u8 where "c_9 \<equiv> 0x39"
abbreviation c_colon :: u8 where "c_colon \<equiv> 0x3A"
abbreviation c_semi :: u8 where "c_semi \<equiv> 0x3B"
abbreviation c_lt :: u8 where "c_lt \<equiv> 0x3C"
abbreviation c_eq :: u8 where "c_eq \<equiv> 0x3D"
abbreviation c_gt :: u8 where "c_gt \<equiv> 0x3E"
abbreviation c_quest :: u8 where "c_quest \<equiv> 0x3F"
abbreviation c_bslash :: u8 where "c_bslash \<equiv> 0x5C"
abbreviation c_uscore :: u8 where "c_uscore \<equiv> 0x5F"

text \<open>A string literal of the source as bytes.\<close>

definition asc :: "string \<Rightarrow> bytes" where
  [ngx_eval]: "asc s = map of_char s"

lemma asc_Nil [simp]: "asc [] = []"
  and asc_Cons [simp]: "asc (c # s) = of_char c # asc s"
  by (simp_all add: asc_def)

text \<open>
  The tests \<open>ch >= '0' && ch <= '9'\<close> and \<open>c = ch | 0x20; c >= 'a' && c <= 'f'\<close>, which the
  source writes out at every use, and the macros \<open>ngx_tolower\<close> and \<open>ngx_toupper\<close>.
\<close>

definition is_digit :: "u8 \<Rightarrow> bool" where
  [ngx_eval]: "is_digit c \<longleftrightarrow> c_0 \<le> c \<and> c \<le> c_9"

definition is_hex_letter :: "u8 \<Rightarrow> bool" where
  [ngx_eval]: "is_hex_letter c \<longleftrightarrow> 0x61 \<le> c OR 0x20 \<and> c OR 0x20 \<le> 0x66"

definition digit_val :: "u8 \<Rightarrow> nat" where
  [ngx_eval]: "digit_val c = unat c - 48"

definition ngx_tolower :: "u8 \<Rightarrow> u8" where
  [ngx_eval]: "ngx_tolower c = (if 0x41 \<le> c \<and> c \<le> 0x5A then c OR 0x20 else c)"

definition ngx_toupper :: "u8 \<Rightarrow> u8" where
  [ngx_eval]: "ngx_toupper c = (if 0x61 \<le> c \<and> c \<le> 0x7A then c AND NOT 0x20 else c)"

text \<open>\<open>map[ch >> 5] & (1 << (ch & 0x1f))\<close> on a table of eight 32-bit words.\<close>

definition bitmap_get :: "u32 list \<Rightarrow> u8 \<Rightarrow> bool" where
  "bitmap_get m ch \<longleftrightarrow>
     m ! unat (drop_bit 5 ch) AND push_bit (unat (ch AND 0x1f)) 1 \<noteq> 0"

subsection \<open>Signed 64-bit arithmetic\<close>

definition s64 :: "int \<Rightarrow> int option" where
  [ngx_eval]: "s64 x = (if - 9223372036854775808 \<le> x \<and> x \<le> 9223372036854775807 then Some x else None)"

lemma s64_Some [simp]: "- 9223372036854775808 \<le> x \<Longrightarrow> x \<le> 9223372036854775807 \<Longrightarrow> s64 x = Some x"
  by (simp add: s64_def)

lemma int_le_div_iff: "0 < k \<Longrightarrow> x \<le> m div k \<longleftrightarrow> x * k \<le> (m :: int)"
proof
  assume k: "0 < k"
  show "x * k \<le> m" if "x \<le> m div k"
  proof -
    have "x * k \<le> m div k * k" using that k by (simp add: mult_right_mono)
    also have "\<dots> \<le> m" using k by (simp add: minus_mod_eq_div_mult [symmetric])
    finally show ?thesis .
  qed
  show "x \<le> m div k" if "x * k \<le> m"
    using zdiv_mono1 [OF that k] k by simp
qed

subsection \<open>All bytes\<close>

lemma u8_less: "unat (c :: u8) < 256"
  using unsigned_less [of c] by simp

lemma u8_unat_of_nat: "n < 256 \<Longrightarrow> unat (of_nat n :: u8) = n"
  by (simp add: unsigned_of_nat take_bit_nat_eq_self)

lemma u8_forall_nat:
  assumes "\<And>n. n < 256 \<Longrightarrow> P (of_nat n :: u8)"
  shows "P c"
  using assms [of "unat c"] u8_less [of c] by simp

definition u8_all :: bytes where
  "u8_all =
   [0x00, 0x01, 0x02, 0x03, 0x04, 0x05, 0x06, 0x07, 0x08, 0x09, 0x0A, 0x0B, 0x0C, 0x0D, 0x0E, 0x0F,
    0x10, 0x11, 0x12, 0x13, 0x14, 0x15, 0x16, 0x17, 0x18, 0x19, 0x1A, 0x1B, 0x1C, 0x1D, 0x1E, 0x1F,
    0x20, 0x21, 0x22, 0x23, 0x24, 0x25, 0x26, 0x27, 0x28, 0x29, 0x2A, 0x2B, 0x2C, 0x2D, 0x2E, 0x2F,
    0x30, 0x31, 0x32, 0x33, 0x34, 0x35, 0x36, 0x37, 0x38, 0x39, 0x3A, 0x3B, 0x3C, 0x3D, 0x3E, 0x3F,
    0x40, 0x41, 0x42, 0x43, 0x44, 0x45, 0x46, 0x47, 0x48, 0x49, 0x4A, 0x4B, 0x4C, 0x4D, 0x4E, 0x4F,
    0x50, 0x51, 0x52, 0x53, 0x54, 0x55, 0x56, 0x57, 0x58, 0x59, 0x5A, 0x5B, 0x5C, 0x5D, 0x5E, 0x5F,
    0x60, 0x61, 0x62, 0x63, 0x64, 0x65, 0x66, 0x67, 0x68, 0x69, 0x6A, 0x6B, 0x6C, 0x6D, 0x6E, 0x6F,
    0x70, 0x71, 0x72, 0x73, 0x74, 0x75, 0x76, 0x77, 0x78, 0x79, 0x7A, 0x7B, 0x7C, 0x7D, 0x7E, 0x7F,
    0x80, 0x81, 0x82, 0x83, 0x84, 0x85, 0x86, 0x87, 0x88, 0x89, 0x8A, 0x8B, 0x8C, 0x8D, 0x8E, 0x8F,
    0x90, 0x91, 0x92, 0x93, 0x94, 0x95, 0x96, 0x97, 0x98, 0x99, 0x9A, 0x9B, 0x9C, 0x9D, 0x9E, 0x9F,
    0xA0, 0xA1, 0xA2, 0xA3, 0xA4, 0xA5, 0xA6, 0xA7, 0xA8, 0xA9, 0xAA, 0xAB, 0xAC, 0xAD, 0xAE, 0xAF,
    0xB0, 0xB1, 0xB2, 0xB3, 0xB4, 0xB5, 0xB6, 0xB7, 0xB8, 0xB9, 0xBA, 0xBB, 0xBC, 0xBD, 0xBE, 0xBF,
    0xC0, 0xC1, 0xC2, 0xC3, 0xC4, 0xC5, 0xC6, 0xC7, 0xC8, 0xC9, 0xCA, 0xCB, 0xCC, 0xCD, 0xCE, 0xCF,
    0xD0, 0xD1, 0xD2, 0xD3, 0xD4, 0xD5, 0xD6, 0xD7, 0xD8, 0xD9, 0xDA, 0xDB, 0xDC, 0xDD, 0xDE, 0xDF,
    0xE0, 0xE1, 0xE2, 0xE3, 0xE4, 0xE5, 0xE6, 0xE7, 0xE8, 0xE9, 0xEA, 0xEB, 0xEC, 0xED, 0xEE, 0xEF,
    0xF0, 0xF1, 0xF2, 0xF3, 0xF4, 0xF5, 0xF6, 0xF7, 0xF8, 0xF9, 0xFA, 0xFB, 0xFC, 0xFD, 0xFE, 0xFF]"

lemma u8_all_upt: "u8_all = map of_nat [0..<256]"
  by (simp add: u8_all_def upt_conv_Cons)

lemma set_u8_all: "set u8_all = UNIV"
proof -
  have "c \<in> set u8_all" for c :: u8
    by (rule u8_forall_nat) (simp add: u8_all_upt)
  then show ?thesis by auto
qed

lemma u8_allI: "list_all P u8_all \<Longrightarrow> P c"
  using set_u8_all by (auto simp: list_all_iff)

lemma u8_below_allI:
  assumes "list_all P (take n u8_all)" "unat c < n"
  shows "P c"
proof -
  have "take n u8_all ! unat c = c" and "unat c < length (take n u8_all)"
    using assms(2) u8_less [of c] by (simp_all add: u8_all_upt)
  with assms(1) show ?thesis by (metis list_all_length)
qed

text \<open>Two bytes are equal when their eight bits are.\<close>

lemma u8_bits_eqI: "(\<And>n. n < 8 \<Longrightarrow> bit (a :: u8) n = bit b n) \<Longrightarrow> a = b"
  by (rule bit_word_eqI) simp

lemma u8_bit_beyond [simp]: "8 \<le> n \<Longrightarrow> bit (b :: u8) n \<longleftrightarrow> False"
  by (simp add: impossible_bit)

lemma less8_cases:
  "(n::nat) < 8 \<longleftrightarrow> n = 0 \<or> n = 1 \<or> n = 2 \<or> n = 3 \<or> n = 4 \<or> n = 5 \<or> n = 6 \<or> n = 7"
  by auto

lemma is_digit_unat: "is_digit c \<longleftrightarrow> 48 \<le> unat c \<and> unat c \<le> 57"
  by (simp add: is_digit_def word_le_nat_alt)

lemma digit_val_le: "is_digit c \<Longrightarrow> digit_val c \<le> 9"
  by (auto simp: digit_val_def is_digit_unat)

lemma digit_val_int: "is_digit c \<Longrightarrow> uint c - 48 = int (digit_val c)"
  by (auto simp: digit_val_def is_digit_unat)

subsection \<open>Counting the elements of a list\<close>

lemma length_filter_update:
  "i < length xs \<Longrightarrow> length (filter P (xs[i := y])) + (if P (xs ! i) then 1 else 0) = length (filter P xs) + (if P y then 1 else 0)"
proof (induction xs arbitrary: i)
  case (Cons x xs)
  then show ?case
  proof (cases i)
    case (Suc j)
    then show ?thesis using Cons.IH [of j] Cons.prems by simp
  qed simp
qed simp

lemma length_filter_pos: "i < length xs \<Longrightarrow> P (xs ! i) \<Longrightarrow> 0 < length (filter P xs)"
  by (metis filter_empty_conv length_greater_0_conv nth_mem)

text \<open>Two places that satisfy \<open>P\<close> make the count at least two.\<close>

lemma length_filter_two:
  assumes "i < length xs" "j < length xs" "i \<noteq> j" "P (xs ! i)" "P (xs ! j)"
  shows "2 \<le> length (filter P xs)"
proof -
  have "card {i, j} \<le> card {k. k < length xs \<and> P (xs ! k)}" using assms by (intro card_mono) auto
  then show ?thesis using assms(3) by (simp add: length_filter_conv_card)
qed

end
