(* ===== verification/Ngx_Number.thy ===== *)
theory Ngx_Number
  imports Ngx_Prelude
begin

text \<open>
  Numbers and text, \<open>src/core/ngx_string.c\<close>: \<open>ngx_atoi\<close> and its three copies for
  \<open>ssize_t\<close>, \<open>off_t\<close> and \<open>time_t\<close>, the fixed-point reader \<open>ngx_atofp\<close>, \<open>ngx_hextoi\<close>,
  \<open>ngx_hex_dump\<close> and the number printer \<open>ngx_sprintf_num\<close>.  The readers are compared with
  the value of a digit string in its radix; the four decimal readers share the contract
  of the locale \<open>decimal_reader\<close>, which the size parsers are clients of.
\<close>

subsection \<open>The value of a digit string\<close>

definition radix_val :: "nat \<Rightarrow> (u8 \<Rightarrow> nat) \<Rightarrow> nat \<Rightarrow> bytes \<Rightarrow> nat" where
  "radix_val b d v cs = foldl (\<lambda>v c. v * b + d c) v cs"

abbreviation dec_val :: "bytes \<Rightarrow> nat" where
  "dec_val \<equiv> radix_val 10 digit_val 0"

lemma radix_val_simps [simp]:
  "radix_val b d v [] = v"
  "radix_val b d v (c # cs) = radix_val b d (v * b + d c) cs"
  by (simp_all add: radix_val_def)

lemma radix_val_append [simp]:
  "radix_val b d v (cs @ cs') = radix_val b d (radix_val b d v cs) cs'"
  by (simp add: radix_val_def)

lemma radix_val_ge: "0 < b \<Longrightarrow> v \<le> radix_val b d v cs"
proof (induction cs arbitrary: v)
  case (Cons c cs)
  have "v \<le> v * b + d c" using Cons.prems by (simp add: trans_le_add1)
  also have "\<dots> \<le> radix_val b d (v * b + d c) cs" by (rule Cons.IH [OF Cons.prems])
  finally show ?case by simp
qed simp

definition hex_digit :: "u8 \<Rightarrow> bool" where
  [ngx_eval]: "hex_digit c \<longleftrightarrow> is_digit c \<or> is_hex_letter c"

definition hex_digit_val :: "u8 \<Rightarrow> nat" where
  [ngx_eval]: "hex_digit_val c = (if is_digit c then unat c - 48 else unat (c OR 0x20) - 97 + 10)"

abbreviation hex_val :: "bytes \<Rightarrow> nat" where
  "hex_val \<equiv> radix_val 16 hex_digit_val 0"

text \<open>What a reader of non-negative numbers up to \<open>maxv\<close> promises.\<close>

definition read_spec :: "(u8 \<Rightarrow> bool) \<Rightarrow> (bytes \<Rightarrow> nat) \<Rightarrow> int \<Rightarrow> bytes \<Rightarrow> int" where
  "read_spec ok val maxv line =
     (if line \<noteq> [] \<and> list_all ok line \<and> int (val line) \<le> maxv
      then int (val line) else NGX_ERROR)"

subsection \<open>The decimal readers\<close>

fun ngx_ato_loop :: "int \<Rightarrow> int \<Rightarrow> int \<Rightarrow> bytes \<Rightarrow> int option" where
  "ngx_ato_loop cutoff cutlim value [] = Some value"
| "ngx_ato_loop cutoff cutlim value (c # line) =
     (if c < c_0 \<or> c > c_9 then Some NGX_ERROR
      else if value \<ge> cutoff \<and> (value > cutoff \<or> uint c - 48 > cutlim) then Some NGX_ERROR
      else do {
        v \<leftarrow> s64 (value * 10);
        v \<leftarrow> s64 (v + (uint c - 48));
        ngx_ato_loop cutoff cutlim v line
      })"

definition ngx_atoi :: "bytes \<Rightarrow> int option" where
  "ngx_atoi line =
     (if length line = 0 then Some NGX_ERROR
      else ngx_ato_loop (NGX_MAX_INT_T_VALUE div 10) (NGX_MAX_INT_T_VALUE mod 10) 0 line)"

definition NGX_MAX_SIZE_T_VALUE :: int where
  [ngx_eval]: "NGX_MAX_SIZE_T_VALUE = 9223372036854775807"

definition NGX_MAX_OFF_T_VALUE :: int where
  [ngx_eval]: "NGX_MAX_OFF_T_VALUE = 9223372036854775807"

definition NGX_MAX_TIME_T_VALUE :: int where
  [ngx_eval]: "NGX_MAX_TIME_T_VALUE = 9223372036854775807"

definition ngx_atosz :: "bytes \<Rightarrow> int option" where
  "ngx_atosz line =
     (if length line = 0 then Some NGX_ERROR
      else ngx_ato_loop (NGX_MAX_SIZE_T_VALUE div 10) (NGX_MAX_SIZE_T_VALUE mod 10) 0 line)"

definition ngx_atoof :: "bytes \<Rightarrow> int option" where
  "ngx_atoof line =
     (if length line = 0 then Some NGX_ERROR
      else ngx_ato_loop (NGX_MAX_OFF_T_VALUE div 10) (NGX_MAX_OFF_T_VALUE mod 10) 0 line)"

definition ngx_atotm :: "bytes \<Rightarrow> int option" where
  "ngx_atotm line =
     (if length line = 0 then Some NGX_ERROR
      else ngx_ato_loop (NGX_MAX_TIME_T_VALUE div 10) (NGX_MAX_TIME_T_VALUE mod 10) 0 line)"

text \<open>The guard of the loop is exactly "the next value does not fit".\<close>

lemma cutoff_guard:
  fixes v d m :: int
  assumes "0 \<le> d" "d \<le> 9"
  shows "v \<ge> m div 10 \<and> (v > m div 10 \<or> d > m mod 10) \<longleftrightarrow> m < v * 10 + d"
proof -
  have "m = 10 * (m div 10) + m mod 10" "0 \<le> m mod 10" "m mod 10 < 10" by simp_all
  with assms show ?thesis by arith
qed

lemma ngx_ato_loop_spec:
  assumes "0 \<le> m" "m \<le> 9223372036854775807" "int v \<le> m"
  shows "ngx_ato_loop (m div 10) (m mod 10) (int v) line =
    Some (if list_all is_digit line \<and> int (radix_val 10 digit_val v line) \<le> m
          then int (radix_val 10 digit_val v line) else NGX_ERROR)"
  using assms(3)
proof (induction line arbitrary: v)
  case (Cons c line)
  show ?case
  proof (cases "is_digit c")
    case False
    then have "c < c_0 \<or> c > c_9" by (auto simp: is_digit_def)
    with False show ?thesis by simp
  next
    case True
    then have nd: "\<not> (c < c_0 \<or> c > c_9)" by (auto simp: is_digit_def)
    have d: "uint c - 48 = int (digit_val c)" by (rule digit_val_int [OF True])
    have le9: "digit_val c \<le> 9" by (rule digit_val_le [OF True])
    let ?v = "v * 10 + digit_val c"
    note guard = cutoff_guard [where d = "int (digit_val c)" and v = "int v" and m = m]
    show ?thesis
    proof (cases "m < int ?v")
      case True
      have "int ?v \<le> int (radix_val 10 digit_val ?v line)"
        by (simp only: of_nat_le_iff) (simp add: radix_val_ge)
      with True nd d le9 guard show ?thesis by auto
    next
      case False
      with assms le9 have "s64 (int v * 10) = Some (int v * 10)"
        and "s64 (int v * 10 + int (digit_val c)) = Some (int ?v)" by (simp_all add: s64_def)
      with False nd d le9 guard Cons.IH [of ?v] \<open>is_digit c\<close> show ?thesis by auto
    qed
  qed
qed simp

lemmas ato_defs = ngx_atoi_def ngx_atosz_def ngx_atoof_def ngx_atotm_def
  NGX_MAX_INT_T_VALUE_def NGX_MAX_SIZE_T_VALUE_def NGX_MAX_OFF_T_VALUE_def NGX_MAX_TIME_T_VALUE_def

lemma max_value_bounds:
  "0 \<le> NGX_MAX_INT_T_VALUE" "NGX_MAX_INT_T_VALUE \<le> 9223372036854775807"
  "0 \<le> NGX_MAX_SIZE_T_VALUE" "NGX_MAX_SIZE_T_VALUE \<le> 9223372036854775807"
  "0 \<le> NGX_MAX_OFF_T_VALUE" "NGX_MAX_OFF_T_VALUE \<le> 9223372036854775807"
  "0 \<le> NGX_MAX_TIME_T_VALUE" "NGX_MAX_TIME_T_VALUE \<le> 9223372036854775807"
  by (simp_all add: ato_defs)

lemma ato_loop_read_spec:
  assumes "0 \<le> m" "m \<le> 9223372036854775807"
  shows "(if length line = 0 then Some NGX_ERROR
          else ngx_ato_loop (m div 10) (m mod 10) 0 line) = Some (read_spec is_digit dec_val m line)"
  using ngx_ato_loop_spec [OF assms, of 0 line] assms(1) by (simp add: read_spec_def)

text \<open>
  C35: \<open>ngx_atoi\<close> returns the decimal value of a non-empty line of digits when the value fits in
  an \<open>ngx_int_t\<close>, \<open>NGX_ERROR\<close> on every other input, and no step of it overflows.
\<close>

theorem ngx_atoi_correct:
  "ngx_atoi line = Some (read_spec is_digit dec_val NGX_MAX_INT_T_VALUE line)"
  unfolding ngx_atoi_def by (rule ato_loop_read_spec) (rule max_value_bounds)+

subsection \<open>The contract of the decimal readers\<close>

locale decimal_reader =
  fixes rd :: "bytes \<Rightarrow> int option" and maxv :: int
  assumes rd_spec: "rd line = Some (read_spec is_digit dec_val maxv line)"
    and maxv_nonneg: "0 \<le> maxv"
    and maxv_s64: "maxv \<le> 9223372036854775807"
begin

text \<open>A reader never fails and never returns a negative number other than the error code.\<close>

lemma rd_range: "rd line = Some r \<Longrightarrow> r = NGX_ERROR \<or> 0 \<le> r \<and> r \<le> maxv"
  by (auto simp: rd_spec read_spec_def)

text \<open>
  The client's step: read a number and scale it, refusing what the scaled value cannot hold.
\<close>

lemma scaled:
  assumes "0 < scale"
  shows "do { size \<leftarrow> rd line;
              if size = NGX_ERROR \<or> size > maxv div scale then Some NGX_ERROR
              else s64 (size * scale) } =
    Some (if line \<noteq> [] \<and> list_all is_digit line \<and> int (dec_val line) * scale \<le> maxv
          then int (dec_val line) * scale else NGX_ERROR)"
proof -
  let ?n = "int (dec_val line)"
  have fits: "?n \<le> maxv div scale \<longleftrightarrow> ?n * scale \<le> maxv"
    using assms by (rule int_le_div_iff)
  have "?n \<le> ?n * scale" using assms by (simp add: mult_le_cancel_left1)
  with fits show ?thesis using maxv_s64
    by (auto simp: rd_spec read_spec_def NGX_ERROR_def s64_def)
qed

end

interpretation atoi: decimal_reader ngx_atoi NGX_MAX_INT_T_VALUE
  by unfold_locales (simp_all only: ngx_atoi_def ato_loop_read_spec max_value_bounds)

interpretation atosz: decimal_reader ngx_atosz NGX_MAX_SIZE_T_VALUE
  by unfold_locales (simp_all only: ngx_atosz_def ato_loop_read_spec max_value_bounds)

interpretation atoof: decimal_reader ngx_atoof NGX_MAX_OFF_T_VALUE
  by unfold_locales (simp_all only: ngx_atoof_def ato_loop_read_spec max_value_bounds)

interpretation atotm: decimal_reader ngx_atotm NGX_MAX_TIME_T_VALUE
  by unfold_locales (simp_all only: ngx_atotm_def ato_loop_read_spec max_value_bounds)

subsection \<open>Fixed-point numbers\<close>

fun ngx_atofp_loop :: "int \<Rightarrow> nat \<Rightarrow> nat \<Rightarrow> bytes \<Rightarrow> (int + int \<times> nat) option" where
  "ngx_atofp_loop value dot point [] = Some (Inr (value, point))"
| "ngx_atofp_loop value dot point (c # line) =
     (if point = 0 then Some (Inl NGX_ERROR)
      else if c = c_dot then
        (if dot \<noteq> 0 then Some (Inl NGX_ERROR) else ngx_atofp_loop value 1 point line)
      else if c < c_0 \<or> c > c_9 then Some (Inl NGX_ERROR)
      else if value \<ge> NGX_MAX_INT_T_VALUE div 10
              \<and> (value > NGX_MAX_INT_T_VALUE div 10 \<or> uint c - 48 > NGX_MAX_INT_T_VALUE mod 10)
      then Some (Inl NGX_ERROR)
      else do {
        v \<leftarrow> s64 (value * 10);
        v \<leftarrow> s64 (v + (uint c - 48));
        ngx_atofp_loop v dot (point - dot) line
      })"

fun ngx_atofp_scale :: "int \<Rightarrow> nat \<Rightarrow> int option" where
  "ngx_atofp_scale value 0 = Some value"
| "ngx_atofp_scale value (Suc point) =
     (if value > NGX_MAX_INT_T_VALUE div 10 then Some NGX_ERROR
      else do { v \<leftarrow> s64 (value * 10); ngx_atofp_scale v point })"

definition ngx_atofp :: "bytes \<Rightarrow> nat \<Rightarrow> int option" where
  "ngx_atofp line point =
     (if length line = 0 then Some NGX_ERROR
      else do {
        r \<leftarrow> ngx_atofp_loop 0 0 point line;
        (case r of Inl e \<Rightarrow> Some e | Inr (value, point) \<Rightarrow> ngx_atofp_scale value point)
      })"

subsection \<open>Hexadecimal numbers\<close>

fun ngx_hextoi_loop :: "int \<Rightarrow> bytes \<Rightarrow> int option" where
  "ngx_hextoi_loop value [] = Some value"
| "ngx_hextoi_loop value (ch # line) =
     (if value > NGX_MAX_INT_T_VALUE div 16 then Some NGX_ERROR
      else if ch \<ge> c_0 \<and> ch \<le> c_9 then do {
        v \<leftarrow> s64 (value * 16);
        v \<leftarrow> s64 (v + (uint ch - 48));
        ngx_hextoi_loop v line
      }
      else let c = ch OR 0x20 in
        if c \<ge> 0x61 \<and> c \<le> 0x66 then do {
          v \<leftarrow> s64 (value * 16);
          v \<leftarrow> s64 (v + (uint c - 97 + 10));
          ngx_hextoi_loop v line
        }
        else Some NGX_ERROR)"

definition ngx_hextoi :: "bytes \<Rightarrow> int option" where
  "ngx_hextoi line = (if length line = 0 then Some NGX_ERROR else ngx_hextoi_loop 0 line)"

definition hex_lower :: bytes where
  [ngx_eval]: "hex_lower = asc ''0123456789abcdef''"

fun ngx_hex_dump :: "bytes \<Rightarrow> bytes" where
  "ngx_hex_dump [] = []"
| "ngx_hex_dump (c # src) =
     hex_lower ! unat (drop_bit 4 c) # hex_lower ! unat (c AND 0xf) # ngx_hex_dump src"

text \<open>A hexadecimal digit and its value, as the two tests of the code see them.\<close>

lemma hex_letter_range: "is_hex_letter c \<Longrightarrow> 97 \<le> unat (c OR 0x20) \<and> unat (c OR 0x20) \<le> 102"
  by (simp add: is_hex_letter_def word_le_nat_alt)

lemma hex_digit_val_le: "hex_digit c \<Longrightarrow> hex_digit_val c \<le> 15"
  using hex_letter_range [of c] by (auto simp: hex_digit_def hex_digit_val_def is_digit_unat)

lemma hex_letter_int: "is_hex_letter c \<Longrightarrow> uint (c OR 0x20) - 97 + 10 = int (unat (c OR 0x20) - 97 + 10)"
  using hex_letter_range [of c] by (simp add: of_nat_diff)

lemma ngx_hextoi_loop_Cons:
  "ngx_hextoi_loop value (ch # line) =
     (if value > NGX_MAX_INT_T_VALUE div 16 \<or> \<not> hex_digit ch then Some NGX_ERROR
      else do {
        v \<leftarrow> s64 (value * 16);
        v \<leftarrow> s64 (v + int (hex_digit_val ch));
        ngx_hextoi_loop v line
      })"
proof (cases "is_digit ch")
  case True
  then show ?thesis
    using digit_val_int [OF True]
    by (simp add: hex_digit_def hex_digit_val_def digit_val_def) (simp add: is_digit_def)
next
  case False
  then have "\<not> (ch \<ge> c_0 \<and> ch \<le> c_9)" by (simp add: is_digit_def)
  with False hex_letter_int [of ch] show ?thesis
    by (auto simp: hex_digit_def hex_digit_val_def Let_def is_hex_letter_def)
qed

lemma ngx_hextoi_loop_spec:
  assumes "int v \<le> NGX_MAX_INT_T_VALUE"
  shows "ngx_hextoi_loop (int v) line =
    Some (if list_all hex_digit line \<and> int (radix_val 16 hex_digit_val v line) \<le> NGX_MAX_INT_T_VALUE
          then int (radix_val 16 hex_digit_val v line) else NGX_ERROR)"
  using assms
proof (induction line arbitrary: v)
  case (Cons ch line)
  let ?v = "v * 16 + hex_digit_val ch"
  have ge: "?v \<le> radix_val 16 hex_digit_val ?v line" by (simp add: radix_val_ge)
  show ?case
  proof (cases "int v > NGX_MAX_INT_T_VALUE div 16 \<or> \<not> hex_digit ch")
    case True
    then show ?thesis
      using ge by (auto simp: ngx_hextoi_loop_Cons NGX_MAX_INT_T_VALUE_def simp del: ngx_hextoi_loop.simps)
  next
    case False
    with hex_digit_val_le [of ch] have "int ?v \<le> NGX_MAX_INT_T_VALUE"
      and "s64 (int v * 16) = Some (int v * 16)"
      and "s64 (int v * 16 + int (hex_digit_val ch)) = Some (int ?v)"
      by (simp_all add: NGX_MAX_INT_T_VALUE_def s64_def)
    with False Cons.IH [of ?v] show ?thesis
      by (auto simp: ngx_hextoi_loop_Cons simp del: ngx_hextoi_loop.simps)
  qed
qed simp

text \<open>
  C23: \<open>ngx_hextoi\<close> returns the value of a non-empty line of hexadecimal digits of either case
  when it fits, \<open>NGX_ERROR\<close> on every other input, and never overflows.
\<close>

lemma ngx_hextoi_correct:
  "ngx_hextoi line = Some (read_spec hex_digit hex_val NGX_MAX_INT_T_VALUE line)"
  using ngx_hextoi_loop_spec [of 0 line]
  by (simp add: ngx_hextoi_def read_spec_def max_value_bounds)

subsection \<open>Dumping and reading back\<close>

definition be_val :: "bytes \<Rightarrow> nat" where
  "be_val = radix_val 256 unat 0"

definition hex_pair_ok :: "u8 \<Rightarrow> bool" where
  "hex_pair_ok c \<longleftrightarrow>
     (let h = hex_lower ! unat (drop_bit 4 c); l = hex_lower ! unat (c AND 0xf)
      in hex_digit h \<and> hex_digit l \<and> hex_digit_val h * 16 + hex_digit_val l = unat c)"

lemma hex_lower_eval:
  "hex_lower = [0x30,0x31,0x32,0x33,0x34,0x35,0x36,0x37,0x38,0x39,0x61,0x62,0x63,0x64,0x65,0x66]"
  by (simp add: hex_lower_def)

lemma hex_pair_all: "hex_pair_ok c"
  by (rule u8_allI)
    (simp add: u8_all_def hex_pair_ok_def hex_lower_eval hex_digit_def hex_digit_val_def is_digit_def
      is_hex_letter_def nth_Cons_numeral)

lemma hex_dump_length [ngx_len]: "length (ngx_hex_dump src) = 2 * length src"
  by (induction src) auto

lemma hex_dump_digits: "list_all hex_digit (ngx_hex_dump src)"
  by (induction src) (use hex_pair_all in \<open>auto simp: hex_pair_ok_def Let_def\<close>)

lemma hex_dump_val: "radix_val 16 hex_digit_val v (ngx_hex_dump src) = radix_val 256 unat v src"
proof (induction src arbitrary: v)
  case (Cons c src)
  from hex_pair_all [of c] show ?case
    by (simp add: Cons.IH hex_pair_ok_def Let_def distrib_right add.assoc mult.assoc)
qed simp

text \<open>
  Reading back what \<open>ngx_hex_dump\<close> wrote for a non-empty string gives the big-endian value
  of its bytes whenever that value fits in an \<open>ngx_int_t\<close>.
\<close>

lemma hex_dump_roundtrip:
  assumes "src \<noteq> []" and "int (be_val src) \<le> NGX_MAX_INT_T_VALUE"
  shows "ngx_hextoi (ngx_hex_dump src) = Some (int (be_val src))"
proof -
  have "ngx_hex_dump src \<noteq> []" using assms(1) by (cases src) auto
  with assms(2) ngx_hextoi_loop_spec [of 0 "ngx_hex_dump src"] show ?thesis
    by (simp add: ngx_hextoi_def be_val_def hex_dump_digits hex_dump_val max_value_bounds)
qed

lemma hex_dump_roundtrip_witness:
  "ngx_hextoi (ngx_hex_dump [0x01, 0xAF]) = Some 431"
  using hex_dump_roundtrip [of "[0x01, 0xAF]"] by (simp add: be_val_def NGX_MAX_INT_T_VALUE_def)

subsection \<open>The fixed-point reader\<close>

lemma dec_step_fits:
  assumes "is_digit c" "int (v * 10 + digit_val c) \<le> NGX_MAX_INT_T_VALUE"
  shows "\<not> (c < c_0 \<or> c > c_9)"
    and "\<not> (int v \<ge> NGX_MAX_INT_T_VALUE div 10 \<and> (int v > NGX_MAX_INT_T_VALUE div 10
           \<or> uint c - 48 > NGX_MAX_INT_T_VALUE mod 10))"
    and "s64 (int v * 10) = Some (int (v * 10))"
    and "s64 (int (v * 10) + (uint c - 48)) = Some (int (v * 10 + digit_val c))"
  using assms digit_val_int [OF assms(1)] digit_val_le [OF assms(1)]
    cutoff_guard [where d = "int (digit_val c)" and v = "int v" and m = NGX_MAX_INT_T_VALUE]
  by (auto simp: is_digit_def s64_def NGX_MAX_INT_T_VALUE_def)

lemma dec_step_overflow:
  assumes "is_digit c" "\<not> int (v * 10 + digit_val c) \<le> NGX_MAX_INT_T_VALUE"
  shows "int v \<ge> NGX_MAX_INT_T_VALUE div 10 \<and> (int v > NGX_MAX_INT_T_VALUE div 10
           \<or> uint c - 48 > NGX_MAX_INT_T_VALUE mod 10)"
  using assms digit_val_int [OF assms(1)] digit_val_le [OF assms(1)]
    cutoff_guard [where d = "int (digit_val c)" and v = "int v" and m = NGX_MAX_INT_T_VALUE]
  by auto

text \<open>A run of digits: the loop consumes it, counting \<open>point\<close> down once the dot was seen.\<close>

lemma atofp_loop_digits:
  assumes "list_all is_digit ds" "0 < point" "dot * length ds \<le> point" "dot \<le> 1"
    and "int v \<le> NGX_MAX_INT_T_VALUE"
    and "rest \<noteq> [] \<longrightarrow> dot = 0"
  shows "ngx_atofp_loop (int v) dot point (ds @ rest) =
    (if int (radix_val 10 digit_val v ds) \<le> NGX_MAX_INT_T_VALUE
     then ngx_atofp_loop (int (radix_val 10 digit_val v ds)) dot (point - dot * length ds) rest
     else Some (Inl NGX_ERROR))"
  using assms
proof (induction ds arbitrary: v point)
  case (Cons c ds)
  let ?v = "v * 10 + digit_val c"
  have c: "is_digit c" and notdot: "c \<noteq> c_dot" using Cons.prems by (auto simp: is_digit_def)
  have ge: "?v \<le> radix_val 10 digit_val ?v ds" by (simp add: radix_val_ge)
  show ?case
  proof (cases "int ?v \<le> NGX_MAX_INT_T_VALUE")
    case False
    with dec_step_overflow [OF c, of v] ge Cons.prems notdot show ?thesis by auto
  next
    case fits: True
    note step = dec_step_fits [OF c fits]
    show ?thesis
    proof (cases "dot = 1 \<and> point = 1")
      case True
      with Cons.prems step notdot fits show ?thesis by auto
    next
      case False
      with Cons.prems have "0 < point - dot" "dot * length ds \<le> point - dot" by auto
      with Cons.IH [of "point - dot" ?v] Cons.prems fits step notdot show ?thesis by auto
    qed
  qed
qed simp

lemma atofp_scale_spec:
  assumes "int v \<le> NGX_MAX_INT_T_VALUE"
  shows "ngx_atofp_scale (int v) point =
    Some (if int (v * 10 ^ point) \<le> NGX_MAX_INT_T_VALUE then int (v * 10 ^ point) else NGX_ERROR)"
  using assms
proof (induction point arbitrary: v)
  case (Suc point)
  have "v * 10 \<le> v * 10 ^ Suc point" by simp
  then have pow: "int (v * 10) \<le> int (v * 10 ^ Suc point)" by (simp only: of_nat_le_iff)
  show ?case
  proof (cases "int (v * 10) \<le> NGX_MAX_INT_T_VALUE")
    case True
    then have "s64 (int v * 10) = Some (int (v * 10))" "int v \<le> NGX_MAX_INT_T_VALUE div 10"
      by (auto simp: s64_def NGX_MAX_INT_T_VALUE_def)
    with True Suc.IH [of "v * 10"] show ?thesis by (simp add: mult.assoc)
  next
    case False
    then have "\<not> int (v * 10 ^ Suc point) \<le> NGX_MAX_INT_T_VALUE"
      and "int v > NGX_MAX_INT_T_VALUE div 10"
      using pow by (linarith, auto simp: NGX_MAX_INT_T_VALUE_def)
    then show ?thesis by simp
  qed
qed simp

text \<open>
  \<open>ngx_atofp\<close> on digits, a dot and at most \<open>point\<close> more digits is the number without the dot
  times ten to the digits that are missing, or \<open>NGX_ERROR\<close> exactly when that does not fit.
\<close>

lemma ngx_atofp_correct:
  assumes "list_all is_digit ip" "list_all is_digit fp" "length fp \<le> point" "0 < point"
  defines "value \<equiv> dec_val (ip @ fp) * 10 ^ (point - length fp)"
  shows "ngx_atofp (ip @ c_dot # fp) point =
    Some (if int value \<le> NGX_MAX_INT_T_VALUE then int value else NGX_ERROR)"
proof -
  have le1: "dec_val ip \<le> dec_val (ip @ fp)" by (simp add: radix_val_ge)
  have "dec_val (ip @ fp) \<le> value" by (simp add: value_def)
  with le1 have le: "int (dec_val ip) \<le> int value" "int (dec_val (ip @ fp)) \<le> int value" by linarith+
  have dot: "ngx_atofp_loop v 0 point (c_dot # fp) = ngx_atofp_loop v 1 point (fp @ [])" for v
    using assms(4) by simp
  show ?thesis
    using atofp_loop_digits [of ip point 0 0 "c_dot # fp"] dot
      atofp_loop_digits [of fp point 1 "dec_val ip" "[]"] le assms(1-4)
      atofp_scale_spec [of "dec_val (ip @ fp)" "point - length fp"]
    by (auto simp: ngx_atofp_def value_def max_value_bounds simp del: ngx_atofp_loop.simps(2))
qed

lemma ngx_atofp_correct_witness:
  "ngx_atofp (asc ''10.5'') 2 = Some 1050"
  using ngx_atofp_correct [of "asc ''10''" "asc ''5''" 2]
  by (simp add: is_digit_def digit_val_def NGX_MAX_INT_T_VALUE_def)

end
