(* ===== verification/Ngx_Printf.thy ===== *)
theory Ngx_Printf
  imports Ngx_Number
begin

text \<open>
  The formatter \<open>ngx_vslprintf\<close> and \<open>ngx_sprintf_num\<close>, \<open>src/core/ngx_string.c\<close>.  A buffer is
  the bytes written so far and the room left before \<open>last\<close>.  A write the code does not guard is
  \<open>put\<close>, which faults when there is no room, so that the absence of an overflow is a theorem.
  The format is the C string without its terminating zero; the variadic arguments are a list
  of typed values, and fetching an argument of the wrong kind is the fault \<open>Bad_args\<close>.
  A \<open>double\<close> is what the code finds out about it: the answers of the machine to \<open>f < 0\<close>, to
  \<open>(int64_t) f\<close> and, for each \<open>scale\<close>, to \<open>(uint64_t) ((f - (double) ui64) * scale + 0.5)\<close>.  The
  theorems hold for all of them, so they do not depend on how the machine rounds.
\<close>

datatype fault =
    Overflow       \<comment> \<open>an unguarded write at \<open>last\<close>\<close>
  | Bad_args       \<comment> \<open>an argument of the wrong kind, or memory read past its end\<close>
  | Bad_format     \<comment> \<open>the format ends inside a specification\<close>
  | Neg_overflow   \<comment> \<open>the negation of the least 64-bit integer\<close>

datatype va =
    VA_str bytes        \<comment> \<open>\<open>ngx_str_t *\<close> or \<open>ngx_variable_value_t *\<close>: the bytes it denotes\<close>
  | VA_ptr bytes        \<comment> \<open>\<open>u_char *\<close>: the memory from there on\<close>
  | VA_int int          \<comment> \<open>a signed integer argument\<close>
  | VA_uint nat         \<comment> \<open>an unsigned integer argument\<close>
  | VA_float bool nat "nat \<Rightarrow> nat"  \<comment> \<open>a \<open>double\<close>: \<open>f < 0\<close>, then \<open>(int64_t) f\<close> of its amount, then the fraction\<close>

type_synonym buf = "bytes \<times> nat"

definition sbind :: "'e + 'a \<Rightarrow> ('a \<Rightarrow> 'e + 'b) \<Rightarrow> 'e + 'b" where
  [ngx_eval]: "sbind m f = (case m of Inl e \<Rightarrow> Inl e | Inr x \<Rightarrow> f x)"

lemma sbind_simps [simp]: "sbind (Inl e) f = Inl e" "sbind (Inr x) f = f x"
  by (simp_all add: sbind_def)

lemma sbind_Inr_iff: "sbind m f = Inr y \<longleftrightarrow> (\<exists>x. m = Inr x \<and> f x = Inr y)"
  by (auto simp: sbind_def split: sum.splits)

lemma sbind_Inl_iff: "sbind m f = Inl e \<longleftrightarrow> m = Inl e \<or> (\<exists>x. m = Inr x \<and> f x = Inl e)"
  by (auto simp: sbind_def split: sum.splits)

fun put :: "u8 \<Rightarrow> buf \<Rightarrow> fault + buf" where
  "put c (out, room) = (if room = 0 then Inl Overflow else Inr (out @ [c], room - 1))"

text \<open>\<open>ngx_cpymem(buf, p, ngx_min(last - buf, len))\<close> from \<open>p\<close>, which holds at least \<open>len\<close> bytes.\<close>

fun cpymem_min :: "bytes \<Rightarrow> nat \<Rightarrow> buf \<Rightarrow> buf" where
  "cpymem_min p len (out, room) = (out @ take (min room len) p, room - min room len)"

subsection \<open>Printing one number\<close>

function num_dec :: "nat \<Rightarrow> bytes \<Rightarrow> bytes" where
  "num_dec n acc =
     (let acc = of_nat (n mod 10 + 48) # acc
      in if n div 10 = 0 then acc else num_dec (n div 10) acc)"
  by pat_completeness auto
termination by (relation "measure fst") auto

function num_hex :: "bytes \<Rightarrow> nat \<Rightarrow> bytes \<Rightarrow> bytes" where
  "num_hex digits n acc =
     (let acc = digits ! (n mod 16) # acc
      in if n div 16 = 0 then acc else num_hex digits (n div 16) acc)"
  by pat_completeness auto
termination by (relation "measure (\<lambda>(d, n, acc). n)") auto

declare num_dec.simps [simp del] num_hex.simps [simp del]

definition hex_upper :: bytes where
  [ngx_eval]: "hex_upper = asc ''0123456789ABCDEF''"

function sprintf_pad :: "nat \<Rightarrow> nat \<Rightarrow> u8 \<Rightarrow> buf \<Rightarrow> buf" where
  "sprintf_pad len width zero (out, room) =
     (if len < width \<and> 0 < room
      then sprintf_pad (len + 1) width zero (out @ [zero], room - 1)
      else (out, room))"
  by pat_completeness auto
termination by (relation "measure (\<lambda>(len, width, zero, b). width - len)") auto

declare sprintf_pad.simps [simp del]

definition ngx_sprintf_num :: "buf \<Rightarrow> nat \<Rightarrow> u8 \<Rightarrow> nat \<Rightarrow> nat \<Rightarrow> buf" where
  "ngx_sprintf_num b ui64 zero hexadecimal width =
     (let temp =
        (if hexadecimal = 0 then
           (if ui64 \<le> 0xffffffff then num_dec (ui64 mod 2 ^ 32) [] else num_dec ui64 [])
         else if hexadecimal = 1 then num_hex hex_lower ui64 []
         else num_hex hex_upper ui64 []);
        b = sprintf_pad (length temp) width zero b
      in cpymem_min temp (length temp) b)"

subsection \<open>The conversion specification\<close>

record pspec =
  ps_zero :: u8
  ps_width :: nat
  ps_sign :: bool
  ps_hex :: nat
  ps_max_width :: bool
  ps_frac_width :: nat
  ps_slen :: nat

definition SIZE_MINUS_1 :: nat where
  [ngx_eval]: "SIZE_MINUS_1 = 2 ^ 64 - 1"

fun spec_digits :: "nat \<Rightarrow> bytes \<Rightarrow> nat \<times> bytes" where
  "spec_digits w [] = (w, [])"
| "spec_digits w (c # fmt) =
     (if c \<ge> c_0 \<and> c \<le> c_9 then spec_digits ((w * 10 + unat c - 48) mod 2 ^ 64) fmt
      else (w, c # fmt))"

fun spec_flags :: "pspec \<Rightarrow> bytes \<Rightarrow> va list \<Rightarrow> fault + pspec \<times> bytes \<times> va list" where
  "spec_flags ps [] args = Inr (ps, [], args)"
| "spec_flags ps (c # fmt) args =
     (if c = 0x75 then spec_flags (ps\<lparr>ps_sign := False\<rparr>) fmt args            \<comment> \<open>\<open>u\<close>\<close>
      else if c = 0x6D then spec_flags (ps\<lparr>ps_max_width := True\<rparr>) fmt args   \<comment> \<open>\<open>m\<close>\<close>
      else if c = 0x58 then spec_flags (ps\<lparr>ps_hex := 2, ps_sign := False\<rparr>) fmt args  \<comment> \<open>\<open>X\<close>\<close>
      else if c = 0x78 then spec_flags (ps\<lparr>ps_hex := 1, ps_sign := False\<rparr>) fmt args  \<comment> \<open>\<open>x\<close>\<close>
      else if c = c_dot then
        (let (w, fmt) = spec_digits (ps_frac_width ps) fmt
         in Inr (ps\<lparr>ps_frac_width := w\<rparr>, fmt, args))
      else if c = c_star then
        (case args of VA_uint n # args \<Rightarrow> spec_flags (ps\<lparr>ps_slen := n\<rparr>) fmt args
         | _ \<Rightarrow> Inl Bad_args)
      else Inr (ps, c # fmt, args))"

text \<open>From the character after the percent sign: \<open>zero\<close>, the width, the flags.\<close>

definition parse_spec :: "bytes \<Rightarrow> va list \<Rightarrow> fault + pspec \<times> bytes \<times> va list" where
  "parse_spec fmt args =
     (let zero = (if fmt \<noteq> [] \<and> hd fmt = c_0 then c_0 else c_SP);
          (width, fmt) = spec_digits 0 fmt
      in spec_flags \<lparr>ps_zero = zero, ps_width = width, ps_sign = True, ps_hex = 0,
           ps_max_width = False, ps_frac_width = 0, ps_slen = SIZE_MINUS_1\<rparr> fmt args)"

subsection \<open>The conversions\<close>

text \<open>\<open>while (*p && buf < last) { *buf++ = *p++; }\<close>: reading past the memory is a fault.\<close>

fun copy_cstr :: "bytes \<Rightarrow> buf \<Rightarrow> fault + buf" where
  "copy_cstr [] (out, room) = Inl Bad_args"
| "copy_cstr (c # p) (out, room) =
     (if c \<noteq> 0 \<and> 0 < room then copy_cstr p (out @ [c], room - 1) else Inr (out, room))"

fun va_sint :: "va list \<Rightarrow> fault + int \<times> va list" where
  "va_sint (VA_int i # args) = Inr (i, args)"
| "va_sint _ = Inl Bad_args"

fun va_unsigned :: "va list \<Rightarrow> fault + nat \<times> va list" where
  "va_unsigned (VA_uint n # args) = Inr (n, args)"
| "va_unsigned _ = Inl Bad_args"

text \<open>
  \<open>%f\<close> behind the sign: the digits before the point, and after it as many as the format asks for.  A fraction
  that is rounded up to one adds to the digits before the point.
\<close>

fun frac_scale :: "nat \<Rightarrow> nat" where
  "frac_scale 0 = 1"
| "frac_scale (Suc n) = frac_scale n * 10 mod 2 ^ 64"

definition print_float :: "pspec \<Rightarrow> nat \<Rightarrow> (nat \<Rightarrow> nat) \<Rightarrow> buf \<Rightarrow> fault + buf" where
  "print_float ps ui64 frac_of b =
     (let frac_width = ps_frac_width ps; scale = frac_scale frac_width;
          frac = (if frac_width \<noteq> 0 then frac_of scale mod 2 ^ 64 else 0);
          (ui64, frac) = (if frac_width \<noteq> 0 \<and> frac = scale then ((ui64 + 1) mod 2 ^ 64, 0) else (ui64, frac));
          b = ngx_sprintf_num b ui64 (ps_zero ps) 0 (ps_width ps)
      in if frac_width \<noteq> 0 then
           sbind (if 0 < snd b then put c_dot b else Inr b) (\<lambda>b. Inr (ngx_sprintf_num b frac c_0 0 frac_width))
         else Inr b)"

text \<open>
  The conversions that write and \<open>continue\<close>, for the character \<open>c\<close>: \<open>V v s f c Z N %\<close> and the
  default.  \<open>None\<close> sends \<open>c\<close> to the numbers.
\<close>

definition conv_text :: "pspec \<Rightarrow> u8 \<Rightarrow> va list \<Rightarrow> buf \<Rightarrow> (fault + va list \<times> buf) option" where
  "conv_text ps c args b =
     (if c = 0x56 \<or> c = 0x76 then Some                                         \<comment> \<open>\<open>V\<close>, \<open>v\<close>\<close>
        (case args of VA_str v # args \<Rightarrow> Inr (args, cpymem_min v (length v) b)
         | _ \<Rightarrow> Inl Bad_args)
      else if c = 0x73 then Some                                               \<comment> \<open>\<open>s\<close>\<close>
        (case args of
           VA_ptr p # args \<Rightarrow>
             (if ps_slen ps = SIZE_MINUS_1
              then sbind (copy_cstr p b) (\<lambda>b. Inr (args, b))
              else if length p < min (snd b) (ps_slen ps) then Inl Bad_args
              else Inr (args, cpymem_min p (ps_slen ps) b))
         | _ \<Rightarrow> Inl Bad_args)
      else if c = 0x66 then Some                                               \<comment> \<open>\<open>f\<close>\<close>
        (case args of
           VA_float neg ui64 frac_of # args \<Rightarrow>
             sbind (if neg then put c_minus b else Inr b) (\<lambda>b.
             sbind (print_float ps ui64 frac_of b) (\<lambda>b. Inr (args, b)))
         | _ \<Rightarrow> Inl Bad_args)
      else if c = 0x63 then Some                                               \<comment> \<open>\<open>c\<close>\<close>
        (sbind (va_sint args) (\<lambda>(d, args).
         sbind (put (word_of_int d) b) (\<lambda>b. Inr (args, b))))
      else if c = 0x5A then Some (sbind (put 0 b) (\<lambda>b. Inr (args, b)))          \<comment> \<open>\<open>Z\<close>\<close>
      else if c = 0x4E then Some (sbind (put c_LF b) (\<lambda>b. Inr (args, b)))       \<comment> \<open>\<open>N\<close>\<close>
      else if c = c_pct then Some (sbind (put c_pct b) (\<lambda>b. Inr (args, b)))     \<comment> \<open>\<open>%\<close>\<close>
      else if c \<in> set (asc ''OPTMzidlDLArp'') then None
      else Some (sbind (put c b) (\<lambda>b. Inr (args, b))))"

text \<open>
  The numbers: the value as \<open>i64\<close> (when \<open>ps_sign\<close> is still set) or \<open>ui64\<close>, and the
  specification with the changes of \<open>%M\<close>, \<open>%i\<close>, \<open>%A\<close>, \<open>%p\<close> and the always-signed ones.
\<close>

definition NGX_INT64_LEN :: nat where
  [ngx_eval]: "NGX_INT64_LEN = 20"

definition num_value :: "pspec \<Rightarrow> u8 \<Rightarrow> va list \<Rightarrow> fault + (pspec \<times> int \<times> nat) \<times> va list" where
  "num_value ps c args =
     (if c = 0x4F \<or> c = 0x50 \<or> c = 0x54 then                             \<comment> \<open>\<open>O\<close>, \<open>P\<close>, \<open>T\<close>\<close>
        sbind (va_sint args) (\<lambda>(i, args). Inr ((ps\<lparr>ps_sign := True\<rparr>, i, 0), args))
      else if c = 0x4D then                                                \<comment> \<open>\<open>M\<close>\<close>
        sbind (va_unsigned args) (\<lambda>(ms, args).
          if ms = 2 ^ 64 - 1 then Inr ((ps\<lparr>ps_sign := True\<rparr>, -1, 0), args)
          else Inr ((ps\<lparr>ps_sign := False\<rparr>, 0, ms), args))
      else if c = 0x72 then                                                \<comment> \<open>\<open>r\<close>\<close>
        sbind (va_unsigned args) (\<lambda>(n, args).
          Inr ((ps\<lparr>ps_sign := True\<rparr>, if n < 2 ^ 63 then int n else int n - 2 ^ 64, 0), args))
      else if c = 0x70 then                                                \<comment> \<open>\<open>p\<close>\<close>
        sbind (va_unsigned args) (\<lambda>(n, args).
          Inr ((ps\<lparr>ps_hex := 2, ps_sign := False, ps_zero := c_0, ps_width := 16\<rparr>, 0, n), args))
      else                                                        \<comment> \<open>\<open>z i d l D L A\<close>\<close>
        (let ps' = (if (c = 0x69 \<or> c = 0x41) \<and> ps_max_width ps
                    then ps\<lparr>ps_width := NGX_INT64_LEN\<rparr> else ps)
         in if ps_sign ps
            then sbind (va_sint args) (\<lambda>(i, args). Inr ((ps', i, 0), args))
            else sbind (va_unsigned args) (\<lambda>(n, args). Inr ((ps', 0, n), args))))"

text \<open>The end of the loop body: the sign, then \<open>ngx_sprintf_num\<close>.\<close>

definition print_num :: "pspec \<Rightarrow> int \<Rightarrow> nat \<Rightarrow> buf \<Rightarrow> fault + buf" where
  "print_num ps i64 ui64 b =
     (if ps_sign ps then
        (if i64 < 0
         then if i64 = - (2 ^ 63) then Inl Neg_overflow else sbind (put c_minus b) (\<lambda>b.
                Inr (ngx_sprintf_num b (nat (- i64)) (ps_zero ps) (ps_hex ps) (ps_width ps)))
         else Inr (ngx_sprintf_num b (nat i64) (ps_zero ps) (ps_hex ps) (ps_width ps)))
      else Inr (ngx_sprintf_num b ui64 (ps_zero ps) (ps_hex ps) (ps_width ps)))"

definition conv_step :: "pspec \<Rightarrow> u8 \<Rightarrow> va list \<Rightarrow> buf \<Rightarrow> fault + va list \<times> buf" where
  "conv_step ps c args b =
     (case conv_text ps c args b of
        Some r \<Rightarrow> r
      | None \<Rightarrow>
          sbind (num_value ps c args) (\<lambda>((ps, i64, ui64), args).
          sbind (print_num ps i64 ui64 b) (\<lambda>b. Inr (args, b))))"

text \<open>One turn of \<open>while (*fmt && buf < last)\<close>.\<close>

definition vslprintf_step :: "bytes \<Rightarrow> va list \<Rightarrow> buf \<Rightarrow> fault + bytes \<times> va list \<times> buf" where
  "vslprintf_step fmt args b =
     (if hd fmt = c_pct then
        sbind (parse_spec (tl fmt) args) (\<lambda>(ps, fmt, args).
          case fmt of
            [] \<Rightarrow> Inl Bad_format
          | c # fmt \<Rightarrow> sbind (conv_step ps c args b) (\<lambda>(args, b). Inr (fmt, args, b)))
      else sbind (put (hd fmt) b) (\<lambda>b. Inr (tl fmt, args, b)))"

lemma spec_digits_length: "spec_digits w fmt = (w', fmt') \<Longrightarrow> length fmt' \<le> length fmt"
  by (induction w fmt rule: spec_digits.induct) (auto split: if_splits)

lemma spec_flags_length:
  "spec_flags ps fmt args = Inr (ps', fmt', args') \<Longrightarrow> length fmt' \<le> length fmt"
  by (induction ps fmt args rule: spec_flags.induct)
    (auto split: if_splits list.splits va.splits prod.splits dest!: spec_digits_length)

lemma parse_spec_length:
  "parse_spec fmt args = Inr (ps, fmt', args') \<Longrightarrow> length fmt' \<le> length fmt"
  by (auto simp: parse_spec_def split: prod.splits dest!: spec_flags_length spec_digits_length)

lemma vslprintf_step_shorter:
  assumes "fmt \<noteq> []" "vslprintf_step fmt args b = Inr (fmt', args', b')"
  shows "length fmt' < length fmt"
proof (cases "hd fmt = c_pct")
  case False
  with assms show ?thesis by (cases fmt) (auto simp: vslprintf_step_def sbind_Inr_iff)
next
  case True
  with assms(2) obtain ps f as where
    spec: "parse_spec (tl fmt) args = Inr (ps, f, as)"
    and rest: "(case f of [] \<Rightarrow> Inl Bad_format
      | c # f \<Rightarrow> sbind (conv_step ps c as b) (\<lambda>(args, b). Inr (f, args, b))) = Inr (fmt', args', b')"
    by (auto simp: vslprintf_step_def sbind_Inr_iff)
  from rest have "length fmt' < length f"
    by (cases f) (auto simp: sbind_Inr_iff)
  with parse_spec_length [OF spec] assms(1) show ?thesis by (cases fmt) auto
qed

function ngx_vslprintf :: "bytes \<Rightarrow> va list \<Rightarrow> buf \<Rightarrow> fault + buf" where
  "ngx_vslprintf fmt args b =
     (if fmt \<noteq> [] \<and> 0 < snd b then
        (case vslprintf_step fmt args b of
           Inl e \<Rightarrow> Inl e
         | Inr (fmt, args, b) \<Rightarrow> ngx_vslprintf fmt args b)
      else Inr b)"
  by pat_completeness auto
termination
  by (relation "measure (\<lambda>(fmt, args, b). length fmt)") (auto dest: vslprintf_step_shorter)

declare ngx_vslprintf.simps [simp del]

subsection \<open>No write beyond the end of the buffer\<close>

definition wrote :: "buf \<Rightarrow> buf \<Rightarrow> bool" where
  "wrote b b' \<longleftrightarrow> (\<exists>w. fst b' = fst b @ w \<and> length w + snd b' = snd b)"

lemma wrote_refl [simp, intro]: "wrote b b"
  by (simp add: wrote_def)

lemma wrote_trans [trans]: "wrote a b \<Longrightarrow> wrote b c \<Longrightarrow> wrote a c"
  by (auto simp: wrote_def)

lemma wrote_put: "0 < snd b \<Longrightarrow> \<exists>b'. put c b = Inr b' \<and> wrote b b'"
  by (cases b) (auto simp: wrote_def)

lemma wrote_cpymem_min: "min (snd b) len \<le> length p \<Longrightarrow> wrote b (cpymem_min p len b)"
  by (cases b) (auto simp: wrote_def)

lemma wrote_sprintf_pad: "wrote b (sprintf_pad len width zero b)"
proof (induction len width zero b rule: sprintf_pad.induct)
  case (1 len width zero out room)
  show ?case
  proof (cases "len < width \<and> 0 < room")
    case True
    then have "wrote (out, room) (out @ [zero], room - 1)" by (auto simp: wrote_def)
    also have "wrote \<dots> (sprintf_pad (len + 1) width zero (out @ [zero], room - 1))"
      by (rule "1.IH" [OF True])
    finally show ?thesis using True by (simp add: sprintf_pad.simps [of len width zero out room])
  qed (auto simp: sprintf_pad.simps [of len width zero out room])
qed

lemma wrote_sprintf_num: "wrote b (ngx_sprintf_num b n z h w)"
  unfolding ngx_sprintf_num_def Let_def
  by (rule wrote_trans [OF wrote_sprintf_pad wrote_cpymem_min]) simp

lemma wrote_copy_cstr: "copy_cstr p b = Inr b' \<Longrightarrow> wrote b b'"
proof (induction p b rule: copy_cstr.induct)
  case (2 c p out room)
  show ?case
  proof (cases "c \<noteq> 0 \<and> 0 < room")
    case True
    then have "wrote (out, room) (out @ [c], room - 1)" by (auto simp: wrote_def)
    with 2 True show ?thesis by (auto intro: wrote_trans)
  qed (use 2 in auto)
qed simp

lemma copy_cstr_no_overflow: "copy_cstr p b \<noteq> Inl Overflow"
  by (induction p b rule: copy_cstr.induct) auto

text \<open>A step is safe when it does not overflow and what it wrote fits.\<close>

definition safe_write :: "buf \<Rightarrow> fault + 'a \<times> buf \<Rightarrow> bool" where
  "safe_write b r \<longleftrightarrow> (case r of Inl e \<Rightarrow> e \<noteq> Overflow | Inr (x, b') \<Rightarrow> wrote b b')"

lemma safe_write_Inl [intro]: "e \<noteq> Overflow \<Longrightarrow> safe_write b (Inl e)"
  and safe_write_Inr [intro]: "wrote b b' \<Longrightarrow> safe_write b (Inr (x, b'))"
  by (simp_all add: safe_write_def)

lemma safe_put [intro]: "0 < snd b \<Longrightarrow> safe_write b (sbind (put x b) (\<lambda>b. Inr (a, b)))"
  using wrote_put [of b x] by auto

lemma safe_copy_cstr [intro]: "safe_write b (sbind (copy_cstr p b) (\<lambda>b. Inr (a, b)))"
  using copy_cstr_no_overflow [of p b] wrote_copy_cstr [of p b]
  by (cases "copy_cstr p b") auto

lemma va_fetch_faults: "va_sint args \<noteq> Inl Overflow" "va_unsigned args \<noteq> Inl Overflow"
  by (cases args rule: va_sint.cases; simp) (cases args rule: va_unsigned.cases; simp)

lemma safe_va_sint [intro]:
  "(\<And>i as. safe_write b (f (i, as))) \<Longrightarrow> safe_write b (sbind (va_sint args) f)"
  using va_fetch_faults(1) [of args] by (cases "va_sint args") auto

lemma wrote_dot: "\<exists>b'. (if 0 < snd b then put c b else Inr b) = Inr b' \<and> wrote b b'"
  using wrote_put [of b c] by (cases "0 < snd b") auto

lemma wrote_print_float: "\<exists>b'. print_float ps n frac_of b = Inr b' \<and> wrote b b'"
proof -
  have "\<exists>b'. sbind (if 0 < snd b1 then put c_dot b1 else Inr b1) (\<lambda>b. Inr (ngx_sprintf_num b m c_0 0 w)) = Inr b' \<and> wrote b b'"
    if b1: "wrote b b1" for b1 m w
  proof -
    obtain b2 where "(if 0 < snd b1 then put c_dot b1 else Inr b1) = Inr b2" "wrote b1 b2" using wrote_dot by blast
    then show ?thesis using wrote_trans [OF wrote_trans [OF b1] wrote_sprintf_num] by simp
  qed
  then show ?thesis
    using wrote_sprintf_num [of b]
    by (auto simp: print_float_def Let_def simp del: split_paired_Ex split_paired_All)
qed

lemma safe_float:
  assumes "0 < snd b"
  shows "safe_write b (sbind (put c_minus b) (\<lambda>b. sbind (print_float ps n frac_of b) (\<lambda>b. Inr (args, b))))"
    and "safe_write b (sbind (print_float ps n frac_of b) (\<lambda>b. Inr (args, b)))"
proof -
  obtain b1 where b1: "put c_minus b = Inr b1" "wrote b b1" using wrote_put [OF assms, of c_minus] by blast
  have p: "\<exists>b'. sbind (print_float ps n frac_of b1) (\<lambda>b. Inr (args, b)) = Inr (args, b') \<and> wrote b1 b'" for b1
    using wrote_print_float [of ps n frac_of b1] by auto
  from p [of b1] b1 show "safe_write b (sbind (put c_minus b) (\<lambda>b. sbind (print_float ps n frac_of b) (\<lambda>b. Inr (args, b))))"
    by (auto simp: safe_write_def intro: wrote_trans)
  from p [of b] show "safe_write b (sbind (print_float ps n frac_of b) (\<lambda>b. Inr (args, b)))"
    by (auto simp: safe_write_def)
qed

lemma safe_conv_text:
  assumes "0 < snd b" "conv_text ps c args b = Some r"
  shows "safe_write b r"
  using assms unfolding conv_text_def
  by (auto split: if_split_asm list.split_asm va.split_asm intro!: wrote_cpymem_min safe_float)

lemma safe_print_num:
  assumes "0 < snd b"
  shows "safe_write b (sbind (print_num ps i u b) (\<lambda>b. Inr (a, b)))"
proof -
  obtain b1 where b1: "put c_minus b = Inr b1" "wrote b b1" using wrote_put [OF assms] by blast
  then show ?thesis
    using wrote_trans [OF b1(2) wrote_sprintf_num] wrote_sprintf_num [of b]
    by (auto simp: print_num_def)
qed

lemma num_value_no_overflow: "num_value ps c args \<noteq> Inl Overflow"
  using va_fetch_faults [of args]
  by (auto simp: num_value_def Let_def sbind_Inl_iff split: if_splits prod.splits)

lemma safe_conv_step:
  assumes "0 < snd b"
  shows "safe_write b (conv_step ps c args b)"
proof (cases "conv_text ps c args b")
  case None
  show ?thesis
  proof (cases "num_value ps c args")
    case (Inl e)
    with None num_value_no_overflow [of ps c args] show ?thesis
      by (auto simp: conv_step_def safe_write_def)
  next
    case (Inr x)
    with None safe_print_num [OF assms] show ?thesis
      by (cases x) (auto simp: conv_step_def split: prod.splits)
  qed
qed (use safe_conv_text [OF assms] in \<open>simp add: conv_step_def\<close>)

lemma parse_spec_no_overflow: "parse_spec fmt args \<noteq> Inl Overflow"
proof -
  have "spec_flags ps f a \<noteq> Inl Overflow" for ps f a
    by (induction ps f a rule: spec_flags.induct)
      (auto split: if_splits list.splits va.splits prod.splits)
  then show ?thesis by (auto simp: parse_spec_def split: prod.splits)
qed

lemma safe_vslprintf_step:
  assumes "0 < snd b"
  shows "case vslprintf_step fmt args b of Inl e \<Rightarrow> e \<noteq> Overflow | Inr (f, a, b') \<Rightarrow> wrote b b'"
proof (cases "hd fmt = c_pct")
  case False
  with wrote_put [OF assms, of "hd fmt"] show ?thesis by (auto simp: vslprintf_step_def)
next
  case True
  note conv = safe_conv_step [OF assms, unfolded safe_write_def]
  show ?thesis
  proof (cases "parse_spec (tl fmt) args")
    case (Inl e)
    with True parse_spec_no_overflow [of "tl fmt" args] show ?thesis
      by (auto simp: vslprintf_step_def)
  next
    case (Inr x)
    obtain ps f as where x: "x = (ps, f, as)" by (cases x) auto
    show ?thesis
    proof (cases f)
      case (Cons c f')
      with conv [of ps c as] Inr x True show ?thesis
        by (cases "conv_step ps c as b") (auto simp: vslprintf_step_def split: prod.splits)
    qed (use Inr x True in \<open>simp add: vslprintf_step_def\<close>)
  qed
qed

text \<open>
  C32: \<open>ngx_vslprintf\<close> never writes at or past \<open>last\<close>, whatever the format and the arguments, floating point
  numbers among them: it does not fault with \<open>Overflow\<close>, it only appends, and what it appends fits in the room.
\<close>

theorem vslprintf_stays_in_buffer:
  "case ngx_vslprintf fmt args (out, room) of
     Inl e \<Rightarrow> e \<noteq> Overflow
   | Inr (out', room') \<Rightarrow> \<exists>w. out' = out @ w \<and> length w + room' = room"
proof -
  have "case ngx_vslprintf fmt args b of Inl e \<Rightarrow> e \<noteq> Overflow | Inr b' \<Rightarrow> wrote b b'" for b
  proof (induction fmt args b rule: ngx_vslprintf.induct)
    case (1 fmt args b)
    show ?case
    proof (cases "fmt \<noteq> [] \<and> 0 < snd b")
      case False
      then show ?thesis by (subst ngx_vslprintf.simps) auto
    next
      case True
      show ?thesis
      proof (cases "vslprintf_step fmt args b")
        case (Inl e)
        with True safe_vslprintf_step [of b fmt args] show ?thesis
          by (subst ngx_vslprintf.simps) auto
      next
        case (Inr x)
        obtain f a b' where x: "x = (f, a, b')" by (cases x) auto
        have "wrote b b'" using safe_vslprintf_step [of b fmt args] True Inr x by auto
        with "1.IH" [OF True Inr, of f "(a, b')" a b', OF x [symmetric] refl] True Inr x show ?thesis
          by (subst ngx_vslprintf.simps) (auto split: sum.splits intro: wrote_trans)
      qed
    qed
  qed
  from this [of "(out, room)"] show ?thesis
    by (auto simp: wrote_def split: sum.splits)
qed

subsection \<open>What is printed\<close>

lemma num_dec_append: "num_dec n acc = num_dec n [] @ acc"
proof (induction n arbitrary: acc rule: less_induct)
  case (less n)
  show ?case
  proof (cases "n div 10 = 0")
    case False
    then have "n div 10 < n" by auto
    note IH = less.IH [OF this]
    show ?thesis
      using False IH [of "of_nat (n mod 10 + 48) # acc"] IH [of "[of_nat (n mod 10 + 48)]"]
      by (simp add: num_dec.simps [of n] Let_def)
  qed (simp add: num_dec.simps [of n])
qed

lemma num_dec_rec:
  "num_dec n [] = (if n < 10 then [] else num_dec (n div 10) []) @ [of_nat (n mod 10 + 48)]"
  by (subst num_dec.simps, subst num_dec_append) (auto simp: Let_def)

lemma dec_char: "d < 10 \<Longrightarrow> is_digit (of_nat (d + 48)) \<and> digit_val (of_nat (d + 48)) = d"
proof -
  assume "d < 10"
  then have "unat (of_nat (d + 48) :: u8) = d + 48"
    by (intro u8_unat_of_nat) simp
  with \<open>d < 10\<close> show ?thesis by (simp add: is_digit_unat digit_val_def)
qed

lemma num_dec_digits: "list_all is_digit (num_dec n []) \<and> dec_val (num_dec n []) = n"
proof (induction n rule: less_induct)
  case (less n)
  have d: "is_digit (of_nat (n mod 10 + 48)) \<and> digit_val (of_nat (n mod 10 + 48)) = n mod 10"
    by (rule dec_char) simp
  show ?case
  proof (cases "n < 10")
    case False
    then have "n div 10 < n" by auto
    from less.IH [OF this] d False show ?thesis by (simp add: num_dec_rec [of n])
  qed (use d in \<open>simp add: num_dec_rec [of n]\<close>)
qed

lemma num_dec_length: "n < 10 ^ Suc k \<Longrightarrow> length (num_dec n []) \<le> Suc k"
proof (induction k arbitrary: n)
  case 0
  then show ?case by (simp add: num_dec_rec [of n])
next
  case (Suc k)
  then have "n div 10 < 10 ^ Suc k" by (simp add: less_mult_imp_div_less)
  from Suc.IH [OF this] show ?case by (simp add: num_dec_rec [of n])
qed

lemma num_dec_not_Nil [simp]: "num_dec n [] \<noteq> []"
  by (simp add: num_dec_rec [of n])

lemma sprintf_pad_fits:
  "width - len \<le> room \<Longrightarrow>
   sprintf_pad len width zero (out, room) = (out @ replicate (width - len) zero, room - (width - len))"
proof (induction "width - len" arbitrary: len out room)
  case 0
  then show ?case by (subst sprintf_pad.simps) auto
next
  case (Suc k)
  then have "sprintf_pad (len + 1) width zero (out @ [zero], room - 1) =
    (out @ [zero] @ replicate (width - (len + 1)) zero, room - 1 - (width - (len + 1)))"
    using Suc.hyps(1) [of "len + 1" "room - 1" "out @ [zero]"] by simp
  moreover have "width - len = Suc (width - (len + 1))" using Suc.hyps(2) by simp
  ultimately show ?case using Suc.hyps(2) Suc.prems
    by (subst sprintf_pad.simps) auto
qed

text \<open>A decimal number with room for it: padding to the width, then the digits.\<close>

lemma sprintf_num_dec:
  assumes "max width (length (num_dec n [])) \<le> room"
  shows "ngx_sprintf_num (out, room) n zero 0 width =
    (out @ replicate (width - length (num_dec n [])) zero @ num_dec n [],
     room - max width (length (num_dec n [])))"
  using assms by (auto simp: ngx_sprintf_num_def Let_def sprintf_pad_fits max_def)

text \<open>\<open>%f\<close> with room: the fraction of as many digits as were asked for.\<close>

lemma frac_scale_eq: "w \<le> 19 \<Longrightarrow> frac_scale w = 10 ^ w"
proof (induction w)
  case (Suc w)
  then have "(10 :: nat) ^ Suc w \<le> 10 ^ 19" by (intro power_increasing) simp_all
  with Suc show ?case by simp
qed simp

lemma print_float_text:
  assumes "ps_width ps = 0" "ps_frac_width ps = w" "0 < w" "w \<le> 19" "frac_of (10 ^ w) < 10 ^ w"
    and "length (num_dec n []) + 1 + w \<le> room"
  shows "\<exists>room'. print_float ps n frac_of (out, room) =
    Inr (out @ num_dec n [] @ [c_dot] @ replicate (w - length (num_dec (frac_of (10 ^ w)) [])) c_0 @ num_dec (frac_of (10 ^ w)) [], room')"
proof -
  let ?m = "frac_of (10 ^ w)"
  have "(10 :: nat) ^ w \<le> 10 ^ 19" using assms(4) by (intro power_increasing) simp_all
  then have m: "?m mod 2 ^ 64 = ?m" using assms(5) by simp
  have "length (num_dec ?m []) \<le> w" using num_dec_length [of ?m "w - 1"] assms(3,5) by simp
  then show ?thesis
    using assms m sprintf_num_dec [of 0 "n" room out "ps_zero ps"] frac_scale_eq [OF assms(4)]
    by (auto simp: print_float_def Let_def sprintf_num_dec)
qed

text \<open>
  printing a non-negative \<open>ngx_int_t\<close> with \<open>%i\<close> into at least twenty bytes and reading it
  back with \<open>ngx_atoi\<close> gives the number again.
\<close>

lemma sprintf_atoi_roundtrip:
  assumes "0 \<le> i" "i \<le> NGX_MAX_INT_T_VALUE" "20 \<le> room"
  shows "\<exists>t room'. ngx_vslprintf (asc ''%i'') [VA_int i] ([], room) = Inr (t, room') \<and>
    ngx_atoi t = Some i"
proof -
  have "nat i < 10 ^ Suc 19" using assms(1,2) by (simp add: NGX_MAX_INT_T_VALUE_def)
  from num_dec_length [OF this] assms(3) have len: "length (num_dec (nat i) []) \<le> room" by simp
  have "ngx_vslprintf (asc ''%i'') [VA_int i] ([], room) = Inr (num_dec (nat i) [],
      room - length (num_dec (nat i) []))"
    using assms sprintf_num_dec [of 0 "nat i" room "[]" c_SP] len
    by (simp add: ngx_vslprintf.simps vslprintf_step_def parse_spec_def conv_step_def conv_text_def
        num_value_def print_num_def)
  moreover have "ngx_atoi (num_dec (nat i) []) = Some i"
    using num_dec_digits [of "nat i"] assms by (simp add: atoi.rd_spec read_spec_def)
  ultimately show ?thesis by blast
qed

lemma sprintf_atoi_roundtrip_witness:
  "\<exists>t room'. ngx_vslprintf (asc ''%i'') [VA_int 907] ([], 64) = Inr (t, room') \<and>
    ngx_atoi t = Some 907"
  by (rule sprintf_atoi_roundtrip) (simp_all add: NGX_MAX_INT_T_VALUE_def)

end
