(* ===== verification/Ngx_Base64.thy ===== *)
theory Ngx_Base64
  imports Ngx_Prelude
begin

text \<open>
  Base64, \<open>src/core/ngx_string.c\<close>: the encoder and the decoder, each with its two alphabets
  (standard with padding, URL-safe without).  The decoder's \<open>NGX_ERROR\<close> is \<open>None\<close>.  What the
  two directions need of an alphabet and its inverse table is the locale \<open>base64_alphabet\<close>;
  both alphabets of the code are interpretations of it.
\<close>

subsection \<open>The encoder\<close>

definition b64_std :: bytes where
  "b64_std = asc ''ABCDEFGHIJKLMNOPQRSTUVWXYZabcdefghijklmnopqrstuvwxyz0123456789+/''"

definition b64_url :: bytes where
  "b64_url = asc ''ABCDEFGHIJKLMNOPQRSTUVWXYZabcdefghijklmnopqrstuvwxyz0123456789-_''"

fun ngx_encode_base64_internal :: "bytes \<Rightarrow> bool \<Rightarrow> bytes \<Rightarrow> bytes" where
  "ngx_encode_base64_internal basis padding (s0 # s1 # s2 # s) =
     basis ! unat (drop_bit 2 s0 AND 0x3f)
     # basis ! unat (push_bit 4 (s0 AND 3) OR drop_bit 4 s1)
     # basis ! unat (push_bit 2 (s1 AND 0x0f) OR drop_bit 6 s2)
     # basis ! unat (s2 AND 0x3f)
     # ngx_encode_base64_internal basis padding s"
| "ngx_encode_base64_internal basis padding [s0] =
     basis ! unat (drop_bit 2 s0 AND 0x3f)
     # basis ! unat (push_bit 4 (s0 AND 3))
     # (if padding then [c_eq, c_eq] else [])"
| "ngx_encode_base64_internal basis padding [s0, s1] =
     basis ! unat (drop_bit 2 s0 AND 0x3f)
     # basis ! unat (push_bit 4 (s0 AND 3) OR drop_bit 4 s1)
     # basis ! unat (push_bit 2 (s1 AND 0x0f))
     # (if padding then [c_eq] else [])"
| "ngx_encode_base64_internal basis padding [] = []"

definition ngx_encode_base64 :: "bytes \<Rightarrow> bytes" where
  "ngx_encode_base64 src = ngx_encode_base64_internal b64_std True src"

definition ngx_encode_base64url :: "bytes \<Rightarrow> bytes" where
  "ngx_encode_base64url src = ngx_encode_base64_internal b64_url False src"

definition ngx_base64_encoded_length :: "nat \<Rightarrow> nat" where
  [ngx_eval]: "ngx_base64_encoded_length len = (len + 2) div 3 * 4"

definition ngx_base64_decoded_length :: "nat \<Rightarrow> nat" where
  [ngx_eval]: "ngx_base64_decoded_length len = (len + 3) div 4 * 3"

subsection \<open>The decoder\<close>

definition b64_std_table :: bytes where
  "b64_std_table = [
    77, 77, 77, 77, 77, 77, 77, 77, 77, 77, 77, 77, 77, 77, 77, 77,
    77, 77, 77, 77, 77, 77, 77, 77, 77, 77, 77, 77, 77, 77, 77, 77,
    77, 77, 77, 77, 77, 77, 77, 77, 77, 77, 77, 62, 77, 77, 77, 63,
    52, 53, 54, 55, 56, 57, 58, 59, 60, 61, 77, 77, 77, 77, 77, 77,
    77,  0,  1,  2,  3,  4,  5,  6,  7,  8,  9, 10, 11, 12, 13, 14,
    15, 16, 17, 18, 19, 20, 21, 22, 23, 24, 25, 77, 77, 77, 77, 77,
    77, 26, 27, 28, 29, 30, 31, 32, 33, 34, 35, 36, 37, 38, 39, 40,
    41, 42, 43, 44, 45, 46, 47, 48, 49, 50, 51, 77, 77, 77, 77, 77,
    77, 77, 77, 77, 77, 77, 77, 77, 77, 77, 77, 77, 77, 77, 77, 77,
    77, 77, 77, 77, 77, 77, 77, 77, 77, 77, 77, 77, 77, 77, 77, 77,
    77, 77, 77, 77, 77, 77, 77, 77, 77, 77, 77, 77, 77, 77, 77, 77,
    77, 77, 77, 77, 77, 77, 77, 77, 77, 77, 77, 77, 77, 77, 77, 77,
    77, 77, 77, 77, 77, 77, 77, 77, 77, 77, 77, 77, 77, 77, 77, 77,
    77, 77, 77, 77, 77, 77, 77, 77, 77, 77, 77, 77, 77, 77, 77, 77,
    77, 77, 77, 77, 77, 77, 77, 77, 77, 77, 77, 77, 77, 77, 77, 77,
    77, 77, 77, 77, 77, 77, 77, 77, 77, 77, 77, 77, 77, 77, 77, 77]"

definition b64_url_table :: bytes where
  "b64_url_table = [
    77, 77, 77, 77, 77, 77, 77, 77, 77, 77, 77, 77, 77, 77, 77, 77,
    77, 77, 77, 77, 77, 77, 77, 77, 77, 77, 77, 77, 77, 77, 77, 77,
    77, 77, 77, 77, 77, 77, 77, 77, 77, 77, 77, 77, 77, 62, 77, 77,
    52, 53, 54, 55, 56, 57, 58, 59, 60, 61, 77, 77, 77, 77, 77, 77,
    77,  0,  1,  2,  3,  4,  5,  6,  7,  8,  9, 10, 11, 12, 13, 14,
    15, 16, 17, 18, 19, 20, 21, 22, 23, 24, 25, 77, 77, 77, 77, 63,
    77, 26, 27, 28, 29, 30, 31, 32, 33, 34, 35, 36, 37, 38, 39, 40,
    41, 42, 43, 44, 45, 46, 47, 48, 49, 50, 51, 77, 77, 77, 77, 77,
    77, 77, 77, 77, 77, 77, 77, 77, 77, 77, 77, 77, 77, 77, 77, 77,
    77, 77, 77, 77, 77, 77, 77, 77, 77, 77, 77, 77, 77, 77, 77, 77,
    77, 77, 77, 77, 77, 77, 77, 77, 77, 77, 77, 77, 77, 77, 77, 77,
    77, 77, 77, 77, 77, 77, 77, 77, 77, 77, 77, 77, 77, 77, 77, 77,
    77, 77, 77, 77, 77, 77, 77, 77, 77, 77, 77, 77, 77, 77, 77, 77,
    77, 77, 77, 77, 77, 77, 77, 77, 77, 77, 77, 77, 77, 77, 77, 77,
    77, 77, 77, 77, 77, 77, 77, 77, 77, 77, 77, 77, 77, 77, 77, 77,
    77, 77, 77, 77, 77, 77, 77, 77, 77, 77, 77, 77, 77, 77, 77, 77]"

text \<open>The scan up to the first \<open>'='\<close>; an invalid character is an error.\<close>

fun b64_scan :: "bytes \<Rightarrow> bytes \<Rightarrow> nat option" where
  "b64_scan basis [] = Some 0"
| "b64_scan basis (c # src) =
     (if c = c_eq then Some 0
      else if basis ! unat c = 77 then None
      else map_option Suc (b64_scan basis src))"

text \<open>The loop over groups of four and the two tests after it.\<close>

fun b64_decode_loop :: "bytes \<Rightarrow> bytes \<Rightarrow> bytes" where
  "b64_decode_loop basis (s0 # s1 # s2 # s3 # s) =
     (push_bit 2 (basis ! unat s0) OR drop_bit 4 (basis ! unat s1))
     # (push_bit 4 (basis ! unat s1) OR drop_bit 2 (basis ! unat s2))
     # (push_bit 6 (basis ! unat s2) OR basis ! unat s3)
     # b64_decode_loop basis s"
| "b64_decode_loop basis (s0 # s1 # s) =
     (push_bit 2 (basis ! unat s0) OR drop_bit 4 (basis ! unat s1))
     # (case s of [] \<Rightarrow> []
        | s2 # _ \<Rightarrow> [push_bit 4 (basis ! unat s1) OR drop_bit 2 (basis ! unat s2)])"
| "b64_decode_loop basis _ = []"

definition ngx_decode_base64_internal :: "bytes \<Rightarrow> bytes \<Rightarrow> bytes option" where
  "ngx_decode_base64_internal basis src =
     (case b64_scan basis src of
        None \<Rightarrow> None
      | Some len \<Rightarrow>
          if len mod 4 = 1 then None
          else Some (b64_decode_loop basis (take len src)))"

definition ngx_decode_base64 :: "bytes \<Rightarrow> bytes option" where
  "ngx_decode_base64 src = ngx_decode_base64_internal b64_std_table src"

definition ngx_decode_base64url :: "bytes \<Rightarrow> bytes option" where
  "ngx_decode_base64url src = ngx_decode_base64_internal b64_url_table src"

lemma list_induct_by3 [case_names three one two none]:
  assumes "\<And>a b c s. P s \<Longrightarrow> P (a # b # c # s)" "\<And>a. P [a]" "\<And>a b. P [a, b]" "P []"
  shows "P (s :: bytes)"
  by (rule ngx_encode_base64_internal.induct [of "\<lambda>_ _. P"]) (simp_all add: assms)

subsection \<open>Six-bit groups\<close>

lemma six_bits:
  "drop_bit 2 a AND 0x3f < (64 :: u8)"
  "push_bit 4 (a AND 3) OR drop_bit 4 b < (64 :: u8)"
  "push_bit 2 (b AND 0x0f) OR drop_bit 6 c < (64 :: u8)"
  "c AND 0x3f < (64 :: u8)"
  "push_bit 4 (a AND 3) < (64 :: u8)"
  "push_bit 2 (b AND 0x0f) < (64 :: u8)"
proof -
  have lt64: "x < 64" if "\<not> bit x 6" "\<not> bit x 7" for x :: u8
  proof -
    have "x = x AND 0x3f"
      by (rule u8_bits_eqI) (unfold less8_cases, elim disjE; use that in \<open>simp add: bit_simps\<close>)
    moreover have "x AND 0x3f \<le> 0x3f" by (rule word_and_le1)
    moreover have "(0x3f :: u8) < 64" by simp
    ultimately show ?thesis by (metis order_le_less_trans)
  qed
  show "drop_bit 2 a AND 0x3f < (64 :: u8)" "push_bit 4 (a AND 3) OR drop_bit 4 b < (64 :: u8)"
    "push_bit 2 (b AND 0x0f) OR drop_bit 6 c < (64 :: u8)" "c AND 0x3f < (64 :: u8)"
    "push_bit 4 (a AND 3) < (64 :: u8)" "push_bit 2 (b AND 0x0f) < (64 :: u8)"
    by (rule lt64; simp add: bit_simps)+
qed

lemma below_64: "(v :: u8) < 64 \<Longrightarrow> v \<noteq> 77"
  by auto

lemmas six_bits_not_77 = six_bits [THEN below_64]

text \<open>What the decoder shifts together is what the encoder took apart.\<close>

lemma six_bits_join:
  fixes a b c :: u8
  shows "push_bit 2 (drop_bit 2 a AND 0x3f) OR drop_bit 4 (push_bit 4 (a AND 3) OR drop_bit 4 b) = a"
    and "push_bit 4 (push_bit 4 (a AND 3) OR drop_bit 4 b)
         OR drop_bit 2 (push_bit 2 (b AND 0x0f) OR drop_bit 6 c) = b"
    and "push_bit 6 (push_bit 2 (b AND 0x0f) OR drop_bit 6 c) OR (c AND 0x3f) = c"
    and "push_bit 2 (drop_bit 2 a AND 0x3f) OR drop_bit 4 (push_bit 4 (a AND 3)) = a"
    and "push_bit 4 (push_bit 4 (a AND 3) OR drop_bit 4 b) OR drop_bit 2 (push_bit 2 (b AND 0x0f)) = b"
    and "push_bit 4 (drop_bit 4 b) OR drop_bit 2 (push_bit 2 (b AND 0x0f)) = b"
    and "push_bit 6 (drop_bit 6 c) OR (c AND 0x3f) = c"
  by (rule u8_bits_eqI, unfold less8_cases, elim disjE; simp add: bit_simps)+

subsection \<open>An alphabet and its table\<close>

locale base64_alphabet =
  fixes basis :: bytes and tbl :: bytes and padding :: bool
  assumes tbl_basis: "(v :: u8) < 64 \<Longrightarrow> tbl ! unat (basis ! unat v) = v"
    and basis_not_eq: "(v :: u8) < 64 \<Longrightarrow> basis ! unat v \<noteq> c_eq"
begin

lemmas at_group = tbl_basis [OF six_bits(1)] tbl_basis [OF six_bits(2)] tbl_basis [OF six_bits(3)]
  tbl_basis [OF six_bits(4)] tbl_basis [OF six_bits(5)] tbl_basis [OF six_bits(6)]
  basis_not_eq [OF six_bits(1)] basis_not_eq [OF six_bits(2)] basis_not_eq [OF six_bits(3)]
  basis_not_eq [OF six_bits(4)] basis_not_eq [OF six_bits(5)] basis_not_eq [OF six_bits(6)]
  six_bits_not_77

text \<open>The scan of an encoding finds all of it but the padding; the loop restores the input.\<close>

lemma scan_encode:
  "\<exists>len. b64_scan tbl (ngx_encode_base64_internal basis padding src) = Some len \<and> len mod 4 \<noteq> 1 \<and>
     b64_decode_loop tbl (take len (ngx_encode_base64_internal basis padding src)) = src"
proof (induction src rule: list_induct_by3)
  case (three s0 s1 s2 s)
  then obtain len where len: "b64_scan tbl (ngx_encode_base64_internal basis padding s) = Some len"
    "len mod 4 \<noteq> 1"
    "b64_decode_loop tbl (take len (ngx_encode_base64_internal basis padding s)) = s"
    by blast
  have "Suc (Suc (Suc (Suc len))) mod 4 \<noteq> 1" using len(2) by presburger
  with len show ?case by (auto simp: at_group six_bits_join simp del: push_bit_and drop_bit_and)
qed (auto simp: at_group six_bits_join simp del: push_bit_and drop_bit_and)

lemma b64_decode_encode: "ngx_decode_base64_internal tbl (ngx_encode_base64_internal basis padding src) = Some src"
  using scan_encode [of src] by (auto simp: ngx_decode_base64_internal_def)

end

interpretation b64: base64_alphabet b64_std b64_std_table True
proof
  have "list_all (\<lambda>v :: u8.
      b64_std_table ! unat (b64_std ! unat v) = v \<and> b64_std ! unat v \<noteq> c_eq) (take 64 u8_all)"
    by (simp add: u8_all_def b64_std_def b64_std_table_def take_Cons_numeral nth_Cons_numeral)
  then show "b64_std_table ! unat (b64_std ! unat v) = v" "b64_std ! unat v \<noteq> c_eq"
    if "v < 64" for v :: u8
    using u8_below_allI [of _ 64 v] that by (force simp: word_less_nat_alt)+
qed

interpretation b64url: base64_alphabet b64_url b64_url_table False
proof
  have "list_all (\<lambda>v :: u8.
      b64_url_table ! unat (b64_url ! unat v) = v \<and> b64_url ! unat v \<noteq> c_eq) (take 64 u8_all)"
    by (simp add: u8_all_def b64_url_def b64_url_table_def take_Cons_numeral nth_Cons_numeral)
  then show "b64_url_table ! unat (b64_url ! unat v) = v" "b64_url ! unat v \<noteq> c_eq"
    if "v < 64" for v :: u8
    using u8_below_allI [of _ 64 v] that by (force simp: word_less_nat_alt)+
qed

text \<open>
  C34: decoding an encoding gives the bytes back, in both alphabets, for every input.
\<close>

theorem base64_roundtrip:
  "ngx_decode_base64 (ngx_encode_base64 src) = Some src \<and>
   ngx_decode_base64url (ngx_encode_base64url src) = Some src"
  unfolding ngx_decode_base64_def ngx_encode_base64_def ngx_decode_base64url_def ngx_encode_base64url_def
  using b64.b64_decode_encode b64url.b64_decode_encode by simp

subsection \<open>Buffer sizes\<close>

lemma encode_length_padded [ngx_len]:
  "length (ngx_encode_base64_internal basis True src) = ngx_base64_encoded_length (length src)"
proof (induction src rule: list_induct_by3)
  case (three a b c s)
  have "Suc (Suc (Suc (Suc (Suc n)))) div 3 = Suc (Suc (Suc n) div 3)" for n by arith
  with three show ?case by (simp add: ngx_base64_encoded_length_def)
qed (simp_all add: ngx_base64_encoded_length_def)

lemma encode_length_unpadded:
  "length (ngx_encode_base64_internal basis False src) \<le> ngx_base64_encoded_length (length src)"
proof (induction src rule: list_induct_by3)
  case (three a b c s)
  have "Suc (Suc (Suc (Suc (Suc n)))) div 3 = Suc (Suc (Suc n) div 3)" for n by arith
  with three show ?case by (simp add: ngx_base64_encoded_length_def)
qed (simp_all add: ngx_base64_encoded_length_def)

lemma decode_loop_length: "length (b64_decode_loop tbl s) \<le> ngx_base64_decoded_length (length s)"
proof (induction tbl s rule: b64_decode_loop.induct)
  case (1 basis s0 s1 s2 s3 s)
  have "(7 + n) div 4 = Suc ((n + 3) div 4)" for n :: nat by arith
  with 1 show ?case by (simp add: ngx_base64_decoded_length_def)
qed (auto simp: ngx_base64_decoded_length_def split: list.split)

lemma scan_le: "b64_scan tbl src = Some len \<Longrightarrow> len \<le> length src"
  by (induction tbl src arbitrary: len rule: b64_scan.induct) (auto split: if_splits)

lemma decode_length:
  assumes "ngx_decode_base64_internal tbl src = Some dst"
  shows "length dst \<le> ngx_base64_decoded_length (length src)"
proof -
  from assms obtain len where "b64_scan tbl src = Some len" "dst = b64_decode_loop tbl (take len src)"
    by (auto simp: ngx_decode_base64_internal_def split: option.splits if_splits)
  moreover have "ngx_base64_decoded_length len \<le> ngx_base64_decoded_length (length src)"
    using scan_le [OF calculation(1)] by (simp add: ngx_base64_decoded_length_def div_le_mono)
  ultimately show ?thesis
    using scan_le [of tbl src len] decode_loop_length [of tbl "take len src"]
    by (simp add: min_absorb2)
qed

text \<open>
  The buffers that callers size with \<open>ngx_base64_encoded_length\<close> and
  \<open>ngx_base64_decoded_length\<close> are large enough: padded encodings fill theirs exactly, and no other
  encoding or successful decoding exceeds it.
\<close>

lemma base64_buffer_sizes:
  "length (ngx_encode_base64 src) = ngx_base64_encoded_length (length src) \<and>
   length (ngx_encode_base64url src) \<le> ngx_base64_encoded_length (length src) \<and>
   (case ngx_decode_base64 src of None \<Rightarrow> True
      | Some dst \<Rightarrow> length dst \<le> ngx_base64_decoded_length (length src)) \<and>
   (case ngx_decode_base64url src of None \<Rightarrow> True
      | Some dst \<Rightarrow> length dst \<le> ngx_base64_decoded_length (length src))"
  using decode_length encode_length_padded encode_length_unpadded
  by (simp add: ngx_encode_base64_def ngx_encode_base64url_def ngx_decode_base64_def
      ngx_decode_base64url_def split: option.split)

end
