(* ===== verification/Ngx_Escape.thy ===== *)
theory Ngx_Escape
  imports Ngx_Number
begin

text \<open>
  Escaping, \<open>src/core/ngx_string.c\<close>: \<open>ngx_escape_uri\<close> with its seven bitmaps,
  \<open>ngx_unescape_uri\<close>, \<open>ngx_escape_html\<close> and \<open>ngx_escape_json\<close>.  The escaping functions have two
  modes: called with \<open>dst == NULL\<close> they count, and the caller allocates from the count; called
  with a buffer they write.  That the two modes agree, whatever the characters, is the
  contract of the locale \<open>two_pass\<close>; \<open>escaper\<close> extends it with a decoder.
\<close>

subsection \<open>Counting and writing\<close>

locale two_pass =
  fixes count :: "bytes \<Rightarrow> nat" and wr :: "bytes \<Rightarrow> bytes"
    and need :: "u8 \<Rightarrow> nat" and emit :: "u8 \<Rightarrow> bytes" and factor :: nat
  assumes count_Nil: "count [] = 0"
    and count_Cons: "count (c # src) = need c + count src"
    and wr_Nil: "wr [] = []"
    and wr_Cons: "wr (c # src) = emit c @ wr src"
    and emit_length: "length (emit c) = 1 + factor * need c"
begin

lemma wr_length: "length (wr src) = length src + factor * count src"
  by (induction src) (simp_all add: count_Nil count_Cons wr_Nil wr_Cons emit_length algebra_simps)

lemma wr_append: "wr (xs @ ys) = wr xs @ wr ys"
  by (induction xs) (simp_all add: wr_Nil wr_Cons)

lemma wr_all: "(\<And>c. list_all P (emit c)) \<Longrightarrow> list_all P (wr src)"
  by (induction src) (simp_all add: wr_Nil wr_Cons)

end

locale escaper = two_pass +
  fixes dec :: "bytes \<Rightarrow> bytes"
  assumes dec_Nil: "dec [] = []"
    and dec_emit: "dec (emit c @ rest) = c # dec rest"
begin

lemma dec_wr: "dec (wr src @ rest) = src @ dec rest"
  by (induction src) (simp_all add: wr_Nil wr_Cons dec_emit)

lemma dec_wr_all: "dec (wr src) = src"
  using dec_wr [of src "[]"] by (simp add: dec_Nil)

end

subsection \<open>The bitmaps of \<open>ngx_escape_uri\<close>\<close>

definition esc_uri :: "u32 list" where
  "esc_uri = [0xffffffff, 0x80000029, 0x00000000, 0x80000000,
              0xffffffff, 0xffffffff, 0xffffffff, 0xffffffff]"

definition esc_args :: "u32 list" where
  "esc_args = [0xffffffff, 0x88000869, 0x00000000, 0x80000000,
               0xffffffff, 0xffffffff, 0xffffffff, 0xffffffff]"

definition esc_uri_component :: "u32 list" where
  "esc_uri_component = [0xffffffff, 0xfc009fff, 0x78000001, 0xb8000001,
                        0xffffffff, 0xffffffff, 0xffffffff, 0xffffffff]"

definition esc_html :: "u32 list" where
  "esc_html = [0xffffffff, 0x000000ad, 0x00000000, 0x80000000,
               0xffffffff, 0xffffffff, 0xffffffff, 0xffffffff]"

definition esc_refresh :: "u32 list" where
  "esc_refresh = [0xffffffff, 0x00000085, 0x00000000, 0x80000000,
                  0xffffffff, 0xffffffff, 0xffffffff, 0xffffffff]"

definition esc_memcached :: "u32 list" where
  "esc_memcached = [0xffffffff, 0x00000021, 0x00000000, 0x00000000,
                    0x00000000, 0x00000000, 0x00000000, 0x00000000]"

text \<open>\<open>map[type]\<close>; \<open>NGX_ESCAPE_URI\<close> is 0, \<open>NGX_ESCAPE_MAIL_AUTH\<close> 6.\<close>

definition esc_map :: "u32 list list" where
  "esc_map = [esc_uri, esc_args, esc_uri_component, esc_html, esc_refresh,
              esc_memcached, esc_memcached]"

definition HEX :: bytes where
  "HEX = asc ''0123456789ABCDEF''"

fun escape_uri_count :: "u32 list \<Rightarrow> bytes \<Rightarrow> nat" where
  "escape_uri_count escape [] = 0"
| "escape_uri_count escape (c # src) =
     (if bitmap_get escape c then 1 else 0) + escape_uri_count escape src"

fun escape_uri_write :: "u32 list \<Rightarrow> bytes \<Rightarrow> bytes" where
  "escape_uri_write escape [] = []"
| "escape_uri_write escape (c # src) =
     (if bitmap_get escape c
      then c_pct # HEX ! unat (drop_bit 4 c) # HEX ! unat (c AND 0xf) # escape_uri_write escape src
      else c # escape_uri_write escape src)"

definition ngx_escape_uri_count :: "nat \<Rightarrow> bytes \<Rightarrow> nat" where
  "ngx_escape_uri_count type src = escape_uri_count (esc_map ! type) src"

definition ngx_escape_uri :: "nat \<Rightarrow> bytes \<Rightarrow> bytes" where
  "ngx_escape_uri type src = escape_uri_write (esc_map ! type) src"

subsection \<open>\<open>ngx_unescape_uri\<close>\<close>

datatype unescape_state = sw_usual | sw_quoted | sw_quoted_second

definition NGX_UNESCAPE_URI :: nat where "NGX_UNESCAPE_URI = 1"
definition NGX_UNESCAPE_REDIRECT :: nat where "NGX_UNESCAPE_REDIRECT = 2"

definition has_flag :: "nat \<Rightarrow> nat \<Rightarrow> bool" where
  "has_flag type f \<longleftrightarrow> type AND f \<noteq> 0"

fun emits :: "bytes \<Rightarrow> bytes \<times> bytes \<Rightarrow> bytes \<times> bytes" where
  "emits w (out, rest) = (w @ out, rest)"

text \<open>
  The loop: \<open>decoded\<close> is the first digit's value, \<open>prev\<close> the byte \<open>*(s - 2)\<close>.  The result is
  what was written and what is left of the source, which is not empty only after \<open>goto done\<close>.
\<close>

fun unescape_loop ::
  "nat \<Rightarrow> unescape_state \<Rightarrow> u8 \<Rightarrow> u8 \<Rightarrow> bytes \<Rightarrow> bytes \<times> bytes" where
  "unescape_loop type state decoded prev [] = ([], [])"
| "unescape_loop type sw_usual decoded prev (ch # s) =
     (if ch = c_quest \<and> has_flag type (NGX_UNESCAPE_URI OR NGX_UNESCAPE_REDIRECT)
      then ([ch], s)
      else if ch = c_pct then unescape_loop type sw_quoted decoded ch s
      else emits [ch] (unescape_loop type sw_usual decoded ch s))"
| "unescape_loop type sw_quoted decoded prev (ch # s) =
     (if ch \<ge> c_0 \<and> ch \<le> c_9
      then unescape_loop type sw_quoted_second (ch - c_0) ch s
      else let c = ch OR 0x20 in
        if c \<ge> 0x61 \<and> c \<le> 0x66
        then unescape_loop type sw_quoted_second (c - 0x61 + 10) ch s
        else emits [ch] (unescape_loop type sw_usual decoded ch s))"
| "unescape_loop type sw_quoted_second decoded prev (ch # s) =
     (if ch \<ge> c_0 \<and> ch \<le> c_9
      then let b = push_bit 4 decoded + ch - c_0 in
        if has_flag type NGX_UNESCAPE_REDIRECT
        then (if b > c_pct \<and> b < 0x7f then emits [b] (unescape_loop type sw_usual decoded ch s)
              else emits [c_pct, prev, ch] (unescape_loop type sw_usual decoded ch s))
        else emits [b] (unescape_loop type sw_usual decoded ch s)
      else let c = ch OR 0x20 in
        if c \<ge> 0x61 \<and> c \<le> 0x66
        then let b = push_bit 4 decoded + c - 0x61 + 10 in
          if has_flag type NGX_UNESCAPE_URI
          then (if b = c_quest then ([b], s)
                else emits [b] (unescape_loop type sw_usual decoded ch s))
          else if has_flag type NGX_UNESCAPE_REDIRECT
          then (if b = c_quest then ([b], s)
                else if b > c_pct \<and> b < 0x7f
                then emits [b] (unescape_loop type sw_usual decoded ch s)
                else emits [c_pct, prev, ch] (unescape_loop type sw_usual decoded ch s))
          else emits [b] (unescape_loop type sw_usual decoded ch s)
        else unescape_loop type sw_usual decoded ch s)"

definition ngx_unescape_uri :: "nat \<Rightarrow> bytes \<Rightarrow> bytes \<times> bytes" where
  "ngx_unescape_uri type src = unescape_loop type sw_usual 0 0 src"

text \<open>The decoder without flags runs to the end of its input.\<close>

definition unescape :: "bytes \<Rightarrow> bytes" where
  "unescape src = fst (ngx_unescape_uri 0 src)"

lemma has_flag_0 [simp]: "\<not> has_flag 0 f"
  by (simp add: has_flag_def)

lemma fst_emits [simp]: "fst (emits w p) = w @ fst p"
  and snd_emits [simp]: "snd (emits w p) = snd p"
  by (cases p; simp)+

text \<open>\<open>decoded\<close> and \<open>prev\<close> do not matter before the second digit of a quoted pair.\<close>

lemma unescape_indep:
  "unescape_loop type sw_usual d p s = unescape_loop type sw_usual d' p' s \<and>
   unescape_loop type sw_quoted d p s = unescape_loop type sw_quoted d' p' s"
proof (induction s arbitrary: d p d' p')
  case (Cons ch s)
  have u: "unescape_loop type sw_usual d c s = unescape_loop type sw_usual d' c s"
    and q: "unescape_loop type sw_quoted d c s = unescape_loop type sw_quoted d' c s" for c
    using Cons.IH by blast+
  show ?case by (simp add: Let_def u q)
qed simp

lemma unescape_usual: "fst (unescape_loop 0 sw_usual d p s) = unescape s"
  unfolding unescape_def ngx_unescape_uri_def using unescape_indep by metis

lemma unescape_Nil [simp]: "unescape [] = []"
  by (simp add: unescape_def ngx_unescape_uri_def)

lemma unescape_plain: "c \<noteq> c_pct \<Longrightarrow> unescape (c # s) = c # unescape s"
  by (simp add: unescape_def ngx_unescape_uri_def) (simp add: unescape_usual)

text \<open>The two digits written for a byte are read back as that byte.\<close>

lemma HEX_eval:
  "HEX = [0x30,0x31,0x32,0x33,0x34,0x35,0x36,0x37,0x38,0x39,0x41,0x42,0x43,0x44,0x45,0x46]"
  by (simp add: HEX_def)

lemma HEX_nibble:
  assumes "unat (v :: u8) < 16"
  shows "if HEX ! unat v \<ge> c_0 \<and> HEX ! unat v \<le> c_9 then HEX ! unat v = v + c_0
    else HEX ! unat v OR 0x20 \<ge> 0x61 \<and> HEX ! unat v OR 0x20 \<le> 0x66
      \<and> (HEX ! unat v OR 0x20) = v + 0x57"
  using u8_below_allI [OF _ assms, of "\<lambda>v. if HEX ! unat v \<ge> c_0 \<and> HEX ! unat v \<le> c_9
      then HEX ! unat v = v + c_0
      else HEX ! unat v OR 0x20 \<ge> 0x61 \<and> HEX ! unat v OR 0x20 \<le> 0x66
        \<and> (HEX ! unat v OR 0x20) = v + 0x57"]
  by (simp add: u8_all_def HEX_eval take_Cons_numeral nth_Cons_numeral)

lemma nibbles:
  "unat (drop_bit 4 (c :: u8)) < 16" "unat (c AND 0xf) < 16"
  "push_bit 4 (drop_bit 4 c) + (c AND 0xf) = c"
proof -
  have "unat (drop_bit 4 c) = unat c div 16"
    by (simp add: drop_bit_eq_div unat_div)
  then show "unat (drop_bit 4 c) < 16" using u8_less [of c] by simp
  have "c AND 0xf \<le> 0xf" by (rule word_and_le1)
  then show "unat (c AND 0xf) < 16" by (simp add: word_le_nat_alt)
  have "push_bit 4 (drop_bit 4 c) + (c AND 0xf) = push_bit 4 (drop_bit 4 c) OR (c AND 0xf)"
  proof (rule disjunctive_add)
    show "\<not> bit (push_bit 4 (drop_bit 4 c)) n \<or> \<not> bit (c AND 15) n" for n
    proof (cases "n < 8")
      case True
      then show ?thesis unfolding less8_cases by (elim disjE; simp add: bit_simps)
    qed simp
  qed
  also have "\<dots> = c"
    by (rule u8_bits_eqI) (unfold less8_cases, elim disjE; simp add: bit_simps)
  finally show "push_bit 4 (drop_bit 4 c) + (c AND 0xf) = c" .
qed

lemma unescape_pair:
  "unescape (c_pct # HEX ! unat (drop_bit 4 c) # HEX ! unat (c AND 0xf) # s) = c # unescape s"
proof -
  have first: "fst (unescape_loop 0 sw_quoted d p (HEX ! unat v # s)) =
      fst (unescape_loop 0 sw_quoted_second v (HEX ! unat v) s)" if "unat v < 16" for v d p s
    using HEX_nibble [OF that] by (auto simp: Let_def split: if_splits)
  have second: "fst (unescape_loop 0 sw_quoted_second d p (HEX ! unat v # s)) =
      (push_bit 4 d + v) # unescape s" if "unat v < 16" for v d p s
    using HEX_nibble [OF that] by (auto simp: Let_def unescape_usual add.assoc split: if_splits)
  show ?thesis
    using first [OF nibbles(1)] second [OF nibbles(2), of "drop_bit 4 c"] nibbles(3)
    by (simp add: unescape_def ngx_unescape_uri_def del: unescape_loop.simps(3,4))
qed

definition emit_uri :: "u32 list \<Rightarrow> u8 \<Rightarrow> bytes" where
  "emit_uri escape c =
     (if bitmap_get escape c
      then [c_pct, HEX ! unat (drop_bit 4 c), HEX ! unat (c AND 0xf)] else [c])"

lemma escape_uri_two_pass:
  "two_pass (escape_uri_count escape) (escape_uri_write escape)
     (\<lambda>c. if bitmap_get escape c then 1 else 0) (emit_uri escape) 2"
  by unfold_locales (simp_all add: emit_uri_def)

lemma unescape_emit:
  "bitmap_get escape c_pct \<Longrightarrow> unescape (emit_uri escape c @ rest) = c # unescape rest"
  by (auto simp: emit_uri_def unescape_pair intro: unescape_plain)

lemma escape_uri_escaper:
  "bitmap_get escape c_pct \<Longrightarrow> escaper (escape_uri_count escape) (escape_uri_write escape)
     (\<lambda>c. if bitmap_get escape c then 1 else 0) (emit_uri escape) 2 unescape"
  by (intro escaper.intro escape_uri_two_pass escaper_axioms.intro) (simp_all add: unescape_emit)

lemmas esc_map_eval = esc_map_def esc_uri_def esc_args_def esc_uri_component_def esc_html_def
  esc_refresh_def esc_memcached_def

text \<open>The tables that mark the percent sign: all but \<open>refresh\<close>.\<close>

lemma pct_marked:
  "bitmap_get esc_uri c_pct" "bitmap_get esc_args c_pct" "bitmap_get esc_uri_component c_pct"
  "bitmap_get esc_html c_pct" "\<not> bitmap_get esc_refresh c_pct" "bitmap_get esc_memcached c_pct"
  by (simp_all add: bitmap_get_def esc_map_eval)

interpretation uri: escaper "escape_uri_count esc_uri" "escape_uri_write esc_uri"
    "\<lambda>c. if bitmap_get esc_uri c then 1 else 0" "emit_uri esc_uri" 2 unescape
  by (rule escape_uri_escaper) (rule pct_marked)

interpretation args: escaper "escape_uri_count esc_args" "escape_uri_write esc_args"
    "\<lambda>c. if bitmap_get esc_args c then 1 else 0" "emit_uri esc_args" 2 unescape
  by (rule escape_uri_escaper) (rule pct_marked)

interpretation uri_component: escaper "escape_uri_count esc_uri_component"
    "escape_uri_write esc_uri_component" "\<lambda>c. if bitmap_get esc_uri_component c then 1 else 0"
    "emit_uri esc_uri_component" 2 unescape
  by (rule escape_uri_escaper) (rule pct_marked)

interpretation html_uri: escaper "escape_uri_count esc_html" "escape_uri_write esc_html"
    "\<lambda>c. if bitmap_get esc_html c then 1 else 0" "emit_uri esc_html" 2 unescape
  by (rule escape_uri_escaper) (rule pct_marked)

interpretation memcached: escaper "escape_uri_count esc_memcached" "escape_uri_write esc_memcached"
    "\<lambda>c. if bitmap_get esc_memcached c then 1 else 0" "emit_uri esc_memcached" 2 unescape
  by (rule escape_uri_escaper) (rule pct_marked)

interpretation refresh: two_pass "escape_uri_count esc_refresh" "escape_uri_write esc_refresh"
    "\<lambda>c. if bitmap_get esc_refresh c then 1 else 0" "emit_uri esc_refresh" 2
  by (rule escape_uri_two_pass)

lemma type_cases:
  assumes "(type :: nat) < 7"
  shows "type = 0 \<or> type = 1 \<or> type = 2 \<or> type = 3 \<or> type = 4 \<or> type = 5 \<or> type = 6"
  using assms by auto

lemma esc_map_nth:
  "esc_map ! 0 = esc_uri" "esc_map ! Suc 0 = esc_args" "esc_map ! 2 = esc_uri_component"
  "esc_map ! 3 = esc_html" "esc_map ! 4 = esc_refresh" "esc_map ! 5 = esc_memcached"
  "esc_map ! 6 = esc_memcached"
  by (simp_all add: esc_map_def)

text \<open>
  C33: unescaping an escaped URI gives it back, for every table of the code but \<open>refresh\<close>, which
  leaves the percent sign alone.
\<close>

theorem escape_uri_roundtrip:
  assumes "type < 7" "type \<noteq> 4"
  shows "ngx_unescape_uri 0 (ngx_escape_uri type src) = (src, [])"
proof -
  have rest: "snd (unescape_loop 0 st d p s) = []" for st d p s
    by (induction "0::nat" st d p s rule: unescape_loop.induct) (simp_all add: Let_def)
  have "unescape (ngx_escape_uri type src) = src"
    using type_cases [OF assms(1)] assms(2) uri.dec_wr_all args.dec_wr_all uri_component.dec_wr_all
      html_uri.dec_wr_all memcached.dec_wr_all
    by (auto simp: ngx_escape_uri_def esc_map_nth)
  with rest show ?thesis
    by (auto simp: unescape_def ngx_unescape_uri_def prod_eq_iff)
qed

theorem escape_uri_roundtrip_witness:
  "ngx_unescape_uri 0 (ngx_escape_uri 2 [0x25, 0x41, 0xFF]) = ([0x25, 0x41, 0xFF], [])"
  by (rule escape_uri_roundtrip) simp_all

text \<open>The percent sign that the table for \<open>Refresh\<close> headers lets through.\<close>

lemma refresh_keeps_percent:
  "ngx_escape_uri 4 (asc ''%41'') = asc ''%41'' \<and> unescape (asc ''%41'') = asc ''A''"
proof
  have "\<not> bitmap_get esc_refresh 0x34" "\<not> bitmap_get esc_refresh 0x31"
    by (simp_all add: bitmap_get_def esc_refresh_def)
  then show "ngx_escape_uri 4 (asc ''%41'') = asc ''%41''"
    using pct_marked(5) by (simp add: ngx_escape_uri_def esc_map_nth)
  show "unescape (asc ''%41'') = asc ''A''"
    by (simp add: unescape_def ngx_unescape_uri_def)
qed

text \<open>
  for every table, the buffer a caller sizes from the counting call, the source plus two bytes
  for each character counted, is filled exactly by the writing call.
\<close>

lemma escape_uri_length:
  assumes "type < 7"
  shows "length (ngx_escape_uri type src) = length src + 2 * ngx_escape_uri_count type src"
  using type_cases [OF assms] uri.wr_length args.wr_length uri_component.wr_length
    html_uri.wr_length refresh.wr_length memcached.wr_length
  by (auto simp: ngx_escape_uri_def ngx_escape_uri_count_def esc_map_nth)

lemma escape_uri_length_witness:
  "length (ngx_escape_uri 1 (asc ''a&b'')) = 3 + 2 * ngx_escape_uri_count 1 (asc ''a&b'')"
  using escape_uri_length [of 1 "asc ''a&b''"] by simp

definition in_out_size :: "bytes \<times> bytes \<Rightarrow> nat" where
  "in_out_size p = length (fst p) + length (snd p)"

lemma in_out_size_simps [simp]:
  "in_out_size (emits w p) = length w + in_out_size p"
  "in_out_size (o', r) = length o' + length r"
  by (simp_all add: in_out_size_def)

fun pending :: "unescape_state \<Rightarrow> nat" where
  "pending sw_usual = 0" | "pending sw_quoted = 1" | "pending sw_quoted_second = 2"

lemma unescape_loop_size: "in_out_size (unescape_loop type st d p s) \<le> length s + pending st"
proof (induction s arbitrary: st d p)
  case (Cons ch s)
  note u = Cons.IH [of sw_usual d ch]
  show ?case
  proof (cases st)
    case sw_usual
    with u Cons.IH [of sw_quoted d c_pct] show ?thesis by simp
  next
    case sw_quoted
    with u Cons.IH [of sw_quoted_second "ch - c_0" ch]
      Cons.IH [of sw_quoted_second "(ch OR 0x20) - 0x61 + 10" ch]
    show ?thesis by (simp add: Let_def)
  next
    case sw_quoted_second
    with u show ?thesis by (simp add: Let_def)
  qed
qed simp

text \<open>
  Unescaping never writes more than it has read, so that the code may do it in place.
\<close>

lemma unescape_shrinks:
  "length (fst (ngx_unescape_uri type src)) + length (snd (ngx_unescape_uri type src)) \<le> length src"
  using unescape_loop_size [of type sw_usual 0 0 src]
  by (simp add: ngx_unescape_uri_def in_out_size_def)

subsection \<open>\<open>ngx_escape_html\<close>\<close>

definition html_need :: "u8 \<Rightarrow> nat" where
  "html_need c =
     (if c = c_lt \<or> c = c_gt then 3 else if c = c_amp then 4 else if c = c_quot then 5 else 0)"

fun ngx_escape_html_count :: "bytes \<Rightarrow> nat" where
  "ngx_escape_html_count [] = 0"
| "ngx_escape_html_count (c # src) = html_need c + ngx_escape_html_count src"

fun ngx_escape_html :: "bytes \<Rightarrow> bytes" where
  "ngx_escape_html [] = []"
| "ngx_escape_html (ch # src) =
     (if ch = c_lt then asc ''&lt;''
      else if ch = c_gt then asc ''&gt;''
      else if ch = c_amp then asc ''&amp;''
      else if ch = c_quot then asc ''&quot;''
      else [ch]) @ ngx_escape_html src"

definition emit_html :: "u8 \<Rightarrow> bytes" where
  "emit_html ch =
     (if ch = c_lt then asc ''&lt;'' else if ch = c_gt then asc ''&gt;''
      else if ch = c_amp then asc ''&amp;'' else if ch = c_quot then asc ''&quot;'' else [ch])"

text \<open>A reference decoder of the four character references.\<close>

fun html_decode :: "bytes \<Rightarrow> bytes" where
  "html_decode [] = []"
| "html_decode (c # s) =
     (if c = c_amp then
        (if take 3 s = asc ''lt;'' then c_lt # html_decode (drop 3 s)
         else if take 3 s = asc ''gt;'' then c_gt # html_decode (drop 3 s)
         else if take 4 s = asc ''amp;'' then c_amp # html_decode (drop 4 s)
         else if take 5 s = asc ''quot;'' then c_quot # html_decode (drop 5 s)
         else c # html_decode s)
      else c # html_decode s)"

interpretation html: escaper ngx_escape_html_count ngx_escape_html html_need emit_html 1 html_decode
  by unfold_locales (simp_all add: html_need_def emit_html_def)

text \<open>
  C36: the text that \<open>ngx_escape_html\<close> writes has none of the bytes that open a tag or end an
  attribute, it decodes to the source, and the counting call sized its buffer exactly.
\<close>

theorem escape_html_correct:
  "list_all (\<lambda>c. c \<noteq> c_lt \<and> c \<noteq> c_gt \<and> c \<noteq> c_quot) (ngx_escape_html src) \<and>
   html_decode (ngx_escape_html src) = src \<and>
   length (ngx_escape_html src) = length src + ngx_escape_html_count src"
proof -
  have "list_all (\<lambda>c. c \<noteq> c_lt \<and> c \<noteq> c_gt \<and> c \<noteq> c_quot) (emit_html c)" for c
    by (simp add: emit_html_def)
  from html.wr_all [OF this] show ?thesis
    using html.dec_wr_all html.wr_length by simp
qed

subsection \<open>\<open>ngx_escape_json\<close>\<close>

definition json_need :: "u8 \<Rightarrow> nat" where
  "json_need ch = (if ch = c_bslash \<or> ch = c_quot then 1 else if ch \<le> 0x1f then 5 else 0)"

fun ngx_escape_json_count :: "bytes \<Rightarrow> nat" where
  "ngx_escape_json_count [] = 0"
| "ngx_escape_json_count (ch # src) = json_need ch + ngx_escape_json_count src"

definition emit_json :: "u8 \<Rightarrow> bytes" where
  "emit_json ch =
     (if ch > 0x1f then (if ch = c_bslash \<or> ch = c_quot then [c_bslash] else []) @ [ch]
      else [c_bslash, 0x75, c_0, c_0, c_0 + drop_bit 4 ch,
            (let ch = ch AND 0xf in if ch < 10 then c_0 + ch else 0x41 + ch - 10)])"

fun ngx_escape_json :: "bytes \<Rightarrow> bytes" where
  "ngx_escape_json [] = []"
| "ngx_escape_json (ch # src) = emit_json ch @ ngx_escape_json src"

text \<open>
  A reference scanner of a JSON string body (RFC 8259): it stops at the first bare quote, refuses control characters,
  and knows the escapes of the standard and no others; of the characters written with \<open>\u\<close> and four hexadecimal
  digits it takes those of one byte.
\<close>

definition json_unicode :: "bytes \<Rightarrow> u8 option" where
  "json_unicode s =
     (if 4 \<le> length s \<and> list_all hex_digit (take 4 s) \<and> hex_val (take 4 s) < 0x80 then Some (of_nat (hex_val (take 4 s)))
      else None)"

definition json_escape :: "u8 \<Rightarrow> u8 option" where
  "json_escape e =
     map_of [(c_quot, c_quot), (c_bslash, c_bslash), (c_slash, c_slash), (0x62, 0x08), (0x66, 0x0c), (0x6e, c_LF), (0x72, c_CR), (0x74, c_TAB)] e"

function json_scan :: "bytes \<Rightarrow> (bytes \<times> bytes) option" where
  "json_scan [] = None"
| "json_scan (c # s) =
     (if c = c_quot then Some ([], s)
      else if c \<le> 0x1f then None
      else if c = c_bslash then
        (case s of
           [] \<Rightarrow> None
         | e # s' \<Rightarrow>
             if e = 0x75 then
               (case json_unicode s' of
                  None \<Rightarrow> None
                | Some v \<Rightarrow> map_option (\<lambda>(b, r). (v # b, r)) (json_scan (drop 4 s')))
             else
               (case json_escape e of
                  None \<Rightarrow> None
                | Some v \<Rightarrow> map_option (\<lambda>(b, r). (v # b, r)) (json_scan s')))
      else map_option (\<lambda>(b, r). (c # b, r)) (json_scan s))"
  by pat_completeness auto
termination by (relation "measure length") auto

interpretation json: two_pass ngx_escape_json_count ngx_escape_json json_need emit_json 1
  by unfold_locales (auto simp: json_need_def emit_json_def)

lemma json_scan_emit:
  "json_scan (emit_json c @ rest) = map_option (\<lambda>(b, r). (c # b, r)) (json_scan rest)"
proof (cases "c > 0x1f")
  case True
  then show ?thesis by (auto simp: emit_json_def json_escape_def)
next
  case False
  then have "unat c < 32" by (simp add: word_less_nat_alt)
  from u8_below_allI [OF _ this, of "\<lambda>c. json_scan (emit_json c @ rest) =
      map_option (\<lambda>(b, r). (c # b, r)) (json_scan rest)"]
  show ?thesis
    by (simp add: u8_all_def take_Cons_numeral emit_json_def json_unicode_def hex_digit_def hex_digit_val_def is_digit_def
        is_hex_letter_def digit_val_def)
qed

text \<open>
  C37: a JSON string built from \<open>ngx_escape_json\<close> ends at the quote the caller puts after it, with
  nothing inside it able to end it earlier, and reads back as the source; the counting call
  sized its buffer exactly.
\<close>

theorem escape_json_correct:
  "json_scan (ngx_escape_json src @ c_quot # rest) = Some (src, rest) \<and>
   length (ngx_escape_json src) = length src + ngx_escape_json_count src"
proof -
  have "json_scan (ngx_escape_json src @ c_quot # rest) = Some (src, rest)"
    by (induction src) (simp_all add: json_scan_emit)
  then show ?thesis using json.wr_length by simp
qed

end
