(* ===== verification/Ngx_Utf8.thy ===== *)
theory Ngx_Utf8
  imports Ngx_Prelude
begin

text \<open>
  UTF-8, \<open>src/core/ngx_string.c\<close>: \<open>ngx_utf8_decode\<close>, \<open>ngx_utf8_length\<close> and \<open>ngx_utf8_cpystrn\<close>.
  The pointer \<open>p\<close> is the list of the bytes from it to the end of the memory it points into, and
  reading past that end is \<open>None\<close>: the length the code is given is a separate argument, as it
  is in the source.  The reference is the encoder of RFC 3629.
\<close>

subsection \<open>The decoder\<close>

text \<open>The loop \<open>while (len)\<close>: the value and the number of bytes the pointer moved.\<close>

fun utf8_cont :: "u32 \<Rightarrow> u32 \<Rightarrow> nat \<Rightarrow> bytes \<Rightarrow> nat \<Rightarrow> (u32 \<times> nat) option" where
  "utf8_cont u valid 0 p k = Some (if u > valid then u else 0xffffffff, k)"
| "utf8_cont u valid (Suc len) [] k = None"
| "utf8_cont u valid (Suc len) (c # p) k =
     (let i = ucast c :: u32
      in if i < 0x80 then Some (0xffffffff, Suc k)
         else utf8_cont (push_bit 6 u OR (i AND 0x3f)) valid len p (Suc k))"

text \<open>\<open>n - 1 < len\<close> on \<open>size_t\<close>: for \<open>n = 0\<close> the subtraction wraps around.\<close>

definition size_pred :: "nat \<Rightarrow> nat" where
  "size_pred n = (if n = 0 then 2 ^ 64 - 1 else n - 1)"

definition ngx_utf8_decode :: "bytes \<Rightarrow> nat \<Rightarrow> (u32 \<times> nat) option" where
  "ngx_utf8_decode p n =
     (case p of
        [] \<Rightarrow> None
      | c # p' \<Rightarrow>
          let u = ucast c :: u32 in
          if u \<ge> 0xf0 then
            (if size_pred n < 3 then Some (0xfffffffe, 0) else utf8_cont (u AND 0x07) 0xffff 3 p' 1)
          else if u \<ge> 0xe0 then
            (if size_pred n < 2 then Some (0xfffffffe, 0) else utf8_cont (u AND 0x0f) 0x7ff 2 p' 1)
          else if u \<ge> 0xc2 then
            (if size_pred n < 1 then Some (0xfffffffe, 0) else utf8_cont (u AND 0x1f) 0x7f 1 p' 1)
          else Some (0xffffffff, 1))"

lemma utf8_cont_moves: "utf8_cont u valid len p k = Some (r, k') \<Longrightarrow> k \<le> k' \<and> k' \<le> k + len"
  by (induction u valid len p k rule: utf8_cont.induct) (fastforce simp: Let_def split: if_splits)+

lemma decode_moves:
  "ngx_utf8_decode p n = Some (u, k) \<Longrightarrow> \<not> u > 0x10ffff \<Longrightarrow> 0 < k"
  by (auto simp: ngx_utf8_decode_def Let_def split: list.splits if_splits dest!: utf8_cont_moves)

subsection \<open>Counting characters\<close>

function utf8_length_loop :: "bytes \<Rightarrow> nat \<Rightarrow> nat \<Rightarrow> nat \<Rightarrow> nat option" where
  "utf8_length_loop mem n pos len =
     (if pos < n then
        (if length mem \<le> pos then None
         else if mem ! pos < 0x80 then utf8_length_loop mem n (pos + 1) (len + 1)
         else (case ngx_utf8_decode (drop pos mem) n of
                 None \<Rightarrow> None
               | Some (u, k) \<Rightarrow>
                   if u > 0x10ffff then Some n
                   else utf8_length_loop mem n (pos + k) (len + 1)))
      else Some len)"
  by pat_completeness auto
termination
  by (relation "measure (\<lambda>(mem, n, pos, len). n - pos)") (auto dest: decode_moves)

declare utf8_length_loop.simps [simp del]

definition ngx_utf8_length :: "bytes \<Rightarrow> nat \<Rightarrow> nat option" where
  "ngx_utf8_length mem n = utf8_length_loop mem n 0 0"

subsection \<open>Copying characters\<close>

text \<open>\<open>while (--n)\<close>: the bytes written, the terminating zero included.\<close>

fun utf8_copy_loop :: "bytes \<Rightarrow> nat \<Rightarrow> nat \<Rightarrow> bytes option" where
  "utf8_copy_loop src 0 len = Some [0]"
| "utf8_copy_loop src (Suc n) len =
     (case src of
        [] \<Rightarrow> None
      | c # src' \<Rightarrow>
          if c < 0x80 then
            (if c \<noteq> 0 then map_option ((#) c) (utf8_copy_loop src' n (len - 1)) else Some [0])
          else (case ngx_utf8_decode src len of
                  None \<Rightarrow> None
                | Some (u, k) \<Rightarrow>
                    if u > 0x10ffff then Some [0]
                    else map_option ((@) (take k src)) (utf8_copy_loop (drop k src) n (len - k))))"

definition ngx_utf8_cpystrn :: "bytes \<Rightarrow> nat \<Rightarrow> nat \<Rightarrow> bytes option" where
  "ngx_utf8_cpystrn src n len = (if n = 0 then Some [] else utf8_copy_loop src (n - 1) len)"

subsection \<open>The encoder of RFC 3629\<close>

definition utf8_encode :: "u32 \<Rightarrow> bytes" where
  "utf8_encode u =
     (if u < 0x80 then [ucast u]
      else if u < 0x800 then [0xC0 OR ucast (drop_bit 6 u), 0x80 OR ucast (u AND 0x3f)]
      else if u < 0x10000 then
        [0xE0 OR ucast (drop_bit 12 u), 0x80 OR ucast (drop_bit 6 u AND 0x3f), 0x80 OR ucast (u AND 0x3f)]
      else [0xF0 OR ucast (drop_bit 18 u), 0x80 OR ucast (drop_bit 12 u AND 0x3f),
            0x80 OR ucast (drop_bit 6 u AND 0x3f), 0x80 OR ucast (u AND 0x3f)])"

lemma u32_bits_eqI: "(\<And>n. n < 32 \<Longrightarrow> bit (a :: u32) n = bit b n) \<Longrightarrow> a = b"
  by (rule bit_word_eqI) simp

lemma u32_below_allI:
  assumes "list_all P (map of_nat [0..<n])" "unat (v :: u32) < n"
  shows "P v"
proof -
  have "\<forall>x<n. P (of_nat x)" using assms(1) by (simp add: list_all_iff)
  then have "P (of_nat (unat v))" using assms(2) by blast
  then show ?thesis by simp
qed

text \<open>The bytes of the encoder, as the decoder reads them.\<close>

lemma and_3f_less: "unat ((v :: u32) AND 0x3f) < 64"
proof -
  have "(v AND 0x3f) \<le> 0x3f" by (rule word_and_le1)
  then show ?thesis by (simp add: word_le_nat_alt)
qed

lemma cont_byte_small:
  "unat (v :: u32) < 64 \<Longrightarrow>
     \<not> ucast (0x80 OR ucast v :: u8) < (0x80 :: u32) \<and> ucast (0x80 OR ucast v :: u8) AND 0x3f = v"
  by (rule u32_below_allI [of _ 64]) (simp_all add: upt_conv_Cons)

lemma cont_byte [simp]:
  "\<not> ucast (0x80 OR ucast (v AND 0x3f) :: u8) < (0x80 :: u32)"
  "ucast (0x80 OR ucast (v AND 0x3f) :: u8) AND 0x3f = (v AND 0x3f :: u32)"
  using cont_byte_small [OF and_3f_less] by auto

lemma join6: "push_bit 6 (drop_bit 6 u) OR (u AND 0x3f) = (u :: u32)"
proof -
  have "u AND 0x3f = take_bit 6 u" by (simp add: take_bit_eq_mask mask_eq_exp_minus_1)
  moreover have "push_bit 6 (drop_bit 6 u) OR take_bit 6 u = u"
    by (rule u32_bits_eqI) (auto simp: bit_simps simp del: push_bit_numeral)
  ultimately show ?thesis by simp
qed

lemma join6_12: "push_bit 6 (drop_bit 12 u) OR (drop_bit 6 u AND 0x3f) = drop_bit 6 (u :: u32)"
  using join6 [of "drop_bit 6 u"] by (simp add: drop_bit_drop_bit)

lemma join6_18: "push_bit 6 (drop_bit 18 u) OR (drop_bit 12 u AND 0x3f) = drop_bit 12 (u :: u32)"
  using join6 [of "drop_bit 12 u"] by (simp add: drop_bit_drop_bit)

lemma lead2:
  assumes "unat (v :: u32) < 32" "2 \<le> unat v"
  shows "\<not> ucast (0xC0 OR ucast v :: u8) \<ge> (0xe0 :: u32) \<and> ucast (0xC0 OR ucast v :: u8) \<ge> (0xc2 :: u32)
    \<and> \<not> ucast (0xC0 OR ucast v :: u8) \<ge> (0xf0 :: u32) \<and> ucast (0xC0 OR ucast v :: u8) AND 0x1f = v"
proof -
  have "2 \<le> unat v \<longrightarrow> ?thesis"
    by (rule u32_below_allI [of _ 32]) (use assms in \<open>simp_all add: upt_conv_Cons\<close>)
  then show ?thesis using assms by blast
qed

lemma lead3:
  "unat (v :: u32) < 16 \<Longrightarrow> \<not> ucast (0xE0 OR ucast v :: u8) \<ge> (0xf0 :: u32) \<and>
     ucast (0xE0 OR ucast v :: u8) \<ge> (0xe0 :: u32) \<and> ucast (0xE0 OR ucast v :: u8) AND 0x0f = v"
  by (rule u32_below_allI [of _ 16]) (simp_all add: upt_conv_Cons)

lemma lead4:
  "unat (v :: u32) < 8 \<Longrightarrow>
     ucast (0xF0 OR ucast v :: u8) \<ge> (0xf0 :: u32) \<and> ucast (0xF0 OR ucast v :: u8) AND 0x07 = v"
  by (rule u32_below_allI [of _ 8]) (simp_all add: upt_conv_Cons)

lemma unat_drop_bit: "unat (drop_bit k (u :: u32)) = unat u div 2 ^ k"
proof -
  have "take_bit 32 (unat u) = unat u" using unsigned_less [of u] by (simp add: take_bit_nat_eq_self_iff)
  then show ?thesis unfolding unsigned_drop_bit_eq by (simp add: drop_bit_eq_div)
qed

lemma utf8_cont_step [simp]:
  "\<not> ucast c < (0x80 :: u32) \<Longrightarrow>
     utf8_cont u valid (Suc len) (c # p) k = utf8_cont (push_bit 6 u OR (ucast c AND 0x3f)) valid len p (Suc k)"
  by simp

lemma decode_encode2:
  assumes "0x80 \<le> u" "u < 0x800" "2 \<le> n"
  shows "ngx_utf8_decode (utf8_encode u @ rest) n = Some (u, 2)"
proof -
  have u: "128 \<le> unat u" "unat u < 2048" using assms(1,2) by (simp_all add: word_le_nat_alt word_less_nat_alt)
  then have d: "unat (drop_bit 6 u) < 32" "2 \<le> unat (drop_bit 6 u)" by (simp_all only: unat_drop_bit) simp_all
  have "\<not> u < 0x80" "0x7f < u" using u by (simp_all add: word_less_nat_alt)
  moreover have "utf8_cont (drop_bit 6 u) 0x7f (Suc 0) ((0x80 OR ucast (u AND 0x3f)) # rest) 1 =
     Some (if u > 0x7f then u else 0xffffffff, 2)"
    by (simp del: utf8_cont.simps(3) add: join6)
  ultimately show ?thesis
    using lead2 [OF d] assms by (simp add: utf8_encode_def ngx_utf8_decode_def size_pred_def del: utf8_cont.simps)
qed

lemma decode_encode3:
  assumes "0x800 \<le> u" "u < 0x10000" "3 \<le> n"
  shows "ngx_utf8_decode (utf8_encode u @ rest) n = Some (u, 3)"
proof -
  have u: "2048 \<le> unat u" "unat u < 65536" using assms(1,2) by (simp_all add: word_le_nat_alt word_less_nat_alt)
  then have d: "unat (drop_bit 12 u) < 16" by (simp_all only: unat_drop_bit) simp_all
  have "\<not> u < 0x80" "\<not> u < 0x800" "0x7ff < u" using u by (simp_all add: word_less_nat_alt)
  moreover have "utf8_cont (drop_bit 12 u) 0x7ff (Suc (Suc 0))
      ((0x80 OR ucast (drop_bit 6 u AND 0x3f)) # (0x80 OR ucast (u AND 0x3f)) # rest) 1 =
     Some (if u > 0x7ff then u else 0xffffffff, 3)"
    by (simp del: utf8_cont.simps(3) add: join6 join6_12)
  ultimately show ?thesis
    using lead3 [OF d] assms
    by (simp add: utf8_encode_def ngx_utf8_decode_def size_pred_def numeral_2_eq_2 del: utf8_cont.simps)
qed

lemma decode_encode4:
  assumes "0x10000 \<le> u" "u \<le> 0x10ffff" "4 \<le> n"
  shows "ngx_utf8_decode (utf8_encode u @ rest) n = Some (u, 4)"
proof -
  have u: "65536 \<le> unat u" "unat u \<le> 1114111" using assms(1,2) by (simp_all add: word_le_nat_alt)
  then have d: "unat (drop_bit 18 u) < 8" by (simp_all only: unat_drop_bit) simp_all
  have "\<not> u < 0x80" "\<not> u < 0x800" "\<not> u < 0x10000" "0xffff < u" using u by (simp_all add: word_less_nat_alt)
  moreover have "utf8_cont (drop_bit 18 u) 0xffff (Suc (Suc (Suc 0)))
      ((0x80 OR ucast (drop_bit 12 u AND 0x3f)) # (0x80 OR ucast (drop_bit 6 u AND 0x3f)) #
        (0x80 OR ucast (u AND 0x3f)) # rest) 1 =
     Some (if u > 0xffff then u else 0xffffffff, 4)"
    by (simp del: utf8_cont.simps(3) add: join6 join6_12 join6_18)
  ultimately show ?thesis
    using lead4 [OF d] assms
    by (simp add: utf8_encode_def ngx_utf8_decode_def size_pred_def numeral_3_eq_3 del: utf8_cont.simps)
qed

lemma length_utf8_encode: "u \<le> 0x10ffff \<Longrightarrow>
  length (utf8_encode u) = (if u < 0x80 then 1 else if u < 0x800 then 2 else if u < 0x10000 then 3 else 4)"
  by (simp add: utf8_encode_def)

lemma decode_encode:
  assumes "0x80 \<le> u" "u \<le> 0x10ffff" "length (utf8_encode u) \<le> n"
  shows "ngx_utf8_decode (utf8_encode u @ rest) n = Some (u, length (utf8_encode u))"
  using assms decode_encode2 [of u n rest] decode_encode3 [of u n rest] decode_encode4 [of u n rest]
  by (auto simp: length_utf8_encode not_less split: if_splits)

lemma encode_ascii: "u < 0x80 \<Longrightarrow> utf8_encode u = [ucast u] \<and> (ucast u :: u8) < 0x80"
  using u32_below_allI [of "\<lambda>u. (ucast u :: u8) < 0x80" 128 u]
  by (simp add: utf8_encode_def word_less_nat_alt upt_conv_Cons)

lemma ucast_below_80: "(c :: u8) < 0x80 \<Longrightarrow> (ucast c :: u32) < 0x80"
  by (rule u8_below_allI [of _ 128]) (simp_all add: u8_all_def take_Cons_numeral word_less_nat_alt)

lemma encode_lead:
  assumes "0x80 \<le> u" "u \<le> 0x10ffff" "utf8_encode u = c # cs"
  shows "\<not> c < 0x80"
proof
  assume "c < 0x80"
  then have c: "(ucast c :: u32) < 0x80" by (rule ucast_below_80)
  then have "\<not> 0xf0 \<le> (ucast c :: u32) \<and> \<not> 0xe0 \<le> (ucast c :: u32) \<and> \<not> 0xc2 \<le> (ucast c :: u32)"
    by (simp add: word_less_nat_alt word_le_nat_alt)
  then have "ngx_utf8_decode (utf8_encode u @ []) 4 = Some (0xffffffff, 1)"
    by (simp add: assms(3) ngx_utf8_decode_def)
  moreover have "ngx_utf8_decode (utf8_encode u @ []) 4 = Some (u, length (utf8_encode u))"
    using assms(1,2) by (intro decode_encode) (simp_all add: length_utf8_encode)
  ultimately have "u = 0xffffffff" by (metis option.inject prod.inject)
  then show False using assms(2) by simp
qed

subsection \<open>Whole texts\<close>

definition encode_all :: "u32 list \<Rightarrow> bytes" where
  "encode_all us = concat (map utf8_encode us)"

lemma utf8_length_loop_encode:
  "list_all (\<lambda>u. u \<le> 0x10ffff) us \<Longrightarrow> n = length pre + length (encode_all us) \<Longrightarrow>
   utf8_length_loop (pre @ encode_all us) n (length pre) len = Some (len + length us)"
proof (induction us arbitrary: pre len)
  case Nil
  then show ?case by (simp add: utf8_length_loop.simps encode_all_def)
next
  case (Cons u us)
  show ?case
  proof (cases "u < 0x80")
    case True
    then show ?thesis
      using Cons.IH [of "pre @ [ucast u]" "len + 1"] Cons.prems encode_ascii [OF True]
      by (subst utf8_length_loop.simps) (simp add: encode_all_def nth_append)
  next
    case False
    obtain c cs where e: "utf8_encode u = c # cs" by (cases "utf8_encode u") (auto simp: utf8_encode_def split: if_splits)
    then have c: "utf8_encode u = c # cs" "\<not> c < 0x80"
      using encode_lead [of u c cs] False Cons.prems by auto
    have "ngx_utf8_decode (utf8_encode u @ encode_all us) n = Some (u, length (utf8_encode u))"
      using False Cons.prems by (intro decode_encode) (auto simp: encode_all_def)
    then show ?thesis
      using Cons.IH [of "pre @ utf8_encode u" "len + 1"] Cons.prems c
      by (subst utf8_length_loop.simps) (auto simp: encode_all_def nth_append)
  qed
qed

text \<open>
  \<open>ngx_utf8_length\<close> of a well-formed text is the number of its characters.
\<close>

lemma utf8_length_correct:
  assumes "list_all (\<lambda>u. u \<le> 0x10ffff) us"
  shows "ngx_utf8_length (encode_all us) (length (encode_all us)) = Some (length us)"
  using utf8_length_loop_encode [OF assms, of "length (encode_all us)" "[]" 0]
  by (simp add: ngx_utf8_length_def)

lemma utf8_length_correct_witness:
  "ngx_utf8_length (encode_all [0x41, 0xe9, 0x20ac, 0x1f600]) (length (encode_all [0x41, 0xe9, 0x20ac, 0x1f600])) = Some 4"
  using utf8_length_correct [of "[0x41, 0xe9, 0x20ac, 0x1f600]"] by simp

lemma utf8_copy_loop_encode:
  "list_all (\<lambda>u. 0 < u \<and> u \<le> 0x10ffff) us \<Longrightarrow> length (encode_all us) \<le> len \<Longrightarrow>
   utf8_copy_loop (encode_all us @ [0]) n len = Some (encode_all (take n us) @ [0])"
proof (induction us arbitrary: n len)
  case Nil
  then show ?case by (cases n) (simp_all add: encode_all_def)
next
  case (Cons u us)
  show ?case
  proof (cases n)
    case 0
    then show ?thesis by (simp add: encode_all_def)
  next
    case (Suc m)
    show ?thesis
    proof (cases "u < 0x80")
      case True
      have "(ucast u :: u8) \<noteq> 0"
      proof
        assume "(ucast u :: u8) = 0"
        moreover have "u = ucast (ucast u :: u8)"
          using u32_below_allI [of "\<lambda>u. u = ucast (ucast u :: u8)" 128 u] True
          by (simp add: word_less_nat_alt upt_conv_Cons)
        ultimately show False using Cons.prems(1) by simp
      qed
      then show ?thesis
        using Cons.IH [of "len - 1" m] Cons.prems encode_ascii [OF True] Suc
        by (simp add: encode_all_def)
    next
      case False
      obtain c cs where e: "utf8_encode u = c # cs"
        by (cases "utf8_encode u") (auto simp: utf8_encode_def split: if_splits)
      then have c: "\<not> c < 0x80"
        using encode_lead [of u c cs] False Cons.prems by auto
      have "ngx_utf8_decode (utf8_encode u @ encode_all us @ [0]) len = Some (u, length (utf8_encode u))"
        using False Cons.prems by (intro decode_encode) (auto simp: encode_all_def)
      then show ?thesis
        using Cons.IH [of "len - length (utf8_encode u)" m] Cons.prems c e Suc
        by (simp add: encode_all_def linorder_not_less [of "0x10ffff"] word_neq_0_conv)
    qed
  qed
qed

text \<open>
  \<open>ngx_utf8_cpystrn\<close> with room for \<open>n\<close> copies the first \<open>n - 1\<close> characters of a well-formed
  text, whole, and ends them with a zero: it never cuts a character in two.
\<close>

lemma utf8_cpystrn_whole_characters:
  assumes "list_all (\<lambda>u. 0 < u \<and> u \<le> 0x10ffff) us"
  shows "ngx_utf8_cpystrn (encode_all us @ [0]) (Suc n) (length (encode_all us))
         = Some (encode_all (take n us) @ [0])"
  using utf8_copy_loop_encode [OF assms order_refl, of n] by (simp add: ngx_utf8_cpystrn_def)

lemma utf8_cpystrn_whole_characters_witness:
  "ngx_utf8_cpystrn (encode_all [0x41, 0xe9, 0x20ac] @ [0]) (Suc 2) (length (encode_all [0x41, 0xe9, 0x20ac]))
   = Some (encode_all [0x41, 0xe9] @ [0])"
  using utf8_cpystrn_whole_characters [of "[0x41, 0xe9, 0x20ac]" 2] by simp

subsection \<open>Memory\<close>

text \<open>Given the length that is left, the decoder stays inside it.\<close>

lemma utf8_cont_inside: "len \<le> length p \<Longrightarrow> utf8_cont u valid len p k \<noteq> None"
  by (induction u valid len p k rule: utf8_cont.induct) (auto simp: Let_def)

lemma utf8_decode_inside: "mem \<noteq> [] \<Longrightarrow> length mem < 2 ^ 64 \<Longrightarrow> ngx_utf8_decode mem (length mem) \<noteq> None"
  by (auto simp: ngx_utf8_decode_def size_pred_def Let_def Suc_le_eq not_less simp del: not_None_eq
      intro!: utf8_cont_inside split: list.splits)

text \<open>
  \<open>ngx_utf8_length\<close> gives the decoder the length of the whole text instead, so a text that ends
  inside a character is read past its end.
\<close>

lemma utf8_length_overreads: "ngx_utf8_length [0x41, 0xC3] 2 = None"
  by (simp add: ngx_utf8_length_def utf8_length_loop.simps ngx_utf8_decode_def size_pred_def)

end
