(* ===== verification/Ngx_Parse.thy ===== *)
theory Ngx_Parse
  imports Ngx_Printf
begin

text \<open>
  The values of the configuration, \<open>src/core/ngx_parse.c\<close>: sizes and offsets with a unit
  (\<open>ngx_parse_size\<close>, \<open>ngx_parse_offset\<close>, clients of the locale \<open>decimal_reader\<close>) and times
  (\<open>ngx_parse_time\<close>).  All arithmetic goes through \<open>s64\<close>: the theorems show that the guards of
  the code are exactly the ones needed.  \<open>None\<close> is also the read of \<open>data[len - 1]\<close> on an empty line.
\<close>

subsection \<open>Sizes and offsets\<close>

definition size_unit :: "u8 \<Rightarrow> int option" where
  [ngx_eval]: "size_unit unit =
     (if unit = of_char CHR ''K'' \<or> unit = of_char CHR ''k'' then Some 1024
      else if unit = of_char CHR ''M'' \<or> unit = of_char CHR ''m'' then Some (1024 * 1024)
      else None)"

definition offset_unit :: "u8 \<Rightarrow> int option" where
  [ngx_eval]: "offset_unit unit =
     (if unit = of_char CHR ''G'' \<or> unit = of_char CHR ''g'' then Some (1024 * 1024 * 1024)
      else size_unit unit)"

definition ngx_parse_size :: "bytes \<Rightarrow> int option" where
  "ngx_parse_size line =
     (if line = [] then None
      else let (line, scale) = (case size_unit (last line) of Some scale \<Rightarrow> (butlast line, scale) | None \<Rightarrow> (line, 1))
      in do {
        size \<leftarrow> ngx_atosz line;
        if size = NGX_ERROR \<or> size > NGX_MAX_SIZE_T_VALUE div scale then Some NGX_ERROR
        else s64 (size * scale)
      })"

definition ngx_parse_offset :: "bytes \<Rightarrow> int option" where
  "ngx_parse_offset line =
     (if line = [] then None
      else let (line, scale) = (case offset_unit (last line) of Some scale \<Rightarrow> (butlast line, scale) | None \<Rightarrow> (line, 1))
      in do {
        offset \<leftarrow> ngx_atoof line;
        if offset = NGX_ERROR \<or> offset > NGX_MAX_OFF_T_VALUE div scale then Some NGX_ERROR
        else s64 (offset * scale)
      })"

text \<open>What a number with a unit denotes, for the units of one of the two parsers.\<close>

definition scaled_spec :: "(u8 \<Rightarrow> int option) \<Rightarrow> int \<Rightarrow> bytes \<Rightarrow> int" where
  "scaled_spec unit maxv line =
     (let (digits, scale) = (case unit (last line) of Some scale \<Rightarrow> (butlast line, scale) | None \<Rightarrow> (line, 1));
          value = int (dec_val digits) * scale
      in if digits \<noteq> [] \<and> list_all is_digit digits \<and> value \<le> maxv then value else NGX_ERROR)"

lemma size_unit_pos: "size_unit u = Some s \<Longrightarrow> 0 < s"
  and offset_unit_pos: "offset_unit u = Some s \<Longrightarrow> 0 < s"
  by (auto simp: size_unit_def offset_unit_def split: if_splits)

text \<open>
  A size or an offset with its unit is read exactly: the decimal number before the unit times the
  unit when the product fits the type, \<open>NGX_ERROR\<close> otherwise, with no overflow on the way.
\<close>

lemma parse_size_correct:
  assumes "line \<noteq> []"
  shows "ngx_parse_size line = Some (scaled_spec size_unit NGX_MAX_SIZE_T_VALUE line) \<and>
         ngx_parse_offset line = Some (scaled_spec offset_unit NGX_MAX_OFF_T_VALUE line)"
proof
  show "ngx_parse_size line = Some (scaled_spec size_unit NGX_MAX_SIZE_T_VALUE line)"
    using assms atosz.scaled [of 1 line] atosz.scaled [OF size_unit_pos, of "last line" _ "butlast line"]
    by (cases "size_unit (last line)") (simp_all add: ngx_parse_size_def scaled_spec_def Let_def)
  show "ngx_parse_offset line = Some (scaled_spec offset_unit NGX_MAX_OFF_T_VALUE line)"
    using assms atoof.scaled [of 1 line] atoof.scaled [OF offset_unit_pos, of "last line" _ "butlast line"]
    by (cases "offset_unit (last line)") (simp_all add: ngx_parse_offset_def scaled_spec_def Let_def)
qed

lemma parse_size_correct_witness: "ngx_parse_size (asc ''10k'') = Some 10240 \<and> ngx_parse_offset (asc ''1g'') = Some 1073741824"
  using parse_size_correct [of "asc ''10k''"] parse_size_correct [of "asc ''1g''"]
  by (simp add: scaled_spec_def size_unit_def offset_unit_def is_digit_def digit_val_def
      NGX_MAX_SIZE_T_VALUE_def NGX_MAX_OFF_T_VALUE_def)

text \<open>An empty value reads the byte before the string.\<close>

lemma parse_size_empty: "ngx_parse_size [] = None" "ngx_parse_offset [] = None"
  by (simp_all add: ngx_parse_size_def ngx_parse_offset_def)

subsection \<open>Times\<close>

datatype time_step =
  st_start | st_year | st_month | st_week | st_day | st_hour | st_min | st_sec | st_msec | st_last

text \<open>The order of the enumeration, which the code compares by number.\<close>

instantiation time_step :: linorder
begin

definition time_rank :: "time_step \<Rightarrow> nat" where
  "time_rank s =
     (case s of st_start \<Rightarrow> 0 | st_year \<Rightarrow> 1 | st_month \<Rightarrow> 2 | st_week \<Rightarrow> 3 | st_day \<Rightarrow> 4
      | st_hour \<Rightarrow> 5 | st_min \<Rightarrow> 6 | st_sec \<Rightarrow> 7 | st_msec \<Rightarrow> 8 | st_last \<Rightarrow> 9)"

definition less_eq_time_step :: "time_step \<Rightarrow> time_step \<Rightarrow> bool" where
  "s \<le> t \<longleftrightarrow> time_rank s \<le> time_rank t"

definition less_time_step :: "time_step \<Rightarrow> time_step \<Rightarrow> bool" where
  "s < t \<longleftrightarrow> time_rank s < time_rank t"

lemma time_rank_inj: "time_rank s = time_rank t \<Longrightarrow> s = t"
  by (cases s; cases t) (simp_all add: time_rank_def)

instance
  by standard (auto simp: less_eq_time_step_def less_time_step_def dest: time_rank_inj)

end

lemmas time_order = less_eq_time_step_def less_time_step_def time_rank_def

text \<open>
  The switch on the unit: the new step, the scale in seconds (or milliseconds for \<open>ms\<close>) and the
  bytes that are left; \<open>None\<close> is \<open>return NGX_ERROR\<close>.  \<open>max\<close> is \<open>NGX_MAX_INT_T_VALUE / scale\<close>.
\<close>

definition time_unit :: "bool \<Rightarrow> time_step \<Rightarrow> u8 \<Rightarrow> bytes \<Rightarrow> (time_step \<times> int \<times> bytes) option" where
  "time_unit is_sec step c p =
     (if c = of_char CHR ''y'' then
        (if step > st_start then None else Some (st_year, 60 * 60 * 24 * 365, p))
      else if c = of_char CHR ''M'' then
        (if step \<ge> st_month then None else Some (st_month, 60 * 60 * 24 * 30, p))
      else if c = of_char CHR ''w'' then
        (if step \<ge> st_week then None else Some (st_week, 60 * 60 * 24 * 7, p))
      else if c = of_char CHR ''d'' then
        (if step \<ge> st_day then None else Some (st_day, 60 * 60 * 24, p))
      else if c = of_char CHR ''h'' then
        (if step \<ge> st_hour then None else Some (st_hour, 60 * 60, p))
      else if c = of_char CHR ''m'' then
        (if p \<noteq> [] \<and> hd p = of_char CHR ''s'' then
           (if is_sec \<or> step \<ge> st_msec then None else Some (st_msec, 1, tl p))
         else if step \<ge> st_min then None else Some (st_min, 60, p))
      else if c = of_char CHR ''s'' then
        (if step \<ge> st_sec then None else Some (st_sec, 1, p))
      else if c = c_SP then
        (if step \<ge> st_sec then None else Some (st_last, 1, p))
      else None)"

text \<open>The code after the loop.\<close>

definition time_finish :: "bool \<Rightarrow> int \<Rightarrow> int \<Rightarrow> bool \<Rightarrow> int option" where
  "time_finish is_sec value tot valid =
     (if \<not> valid then Some NGX_ERROR
      else if \<not> is_sec \<and> value > NGX_MAX_INT_T_VALUE div 1000 then Some NGX_ERROR
      else do {
        value \<leftarrow> (if \<not> is_sec then s64 (value * 1000) else Some value);
        room \<leftarrow> s64 (NGX_MAX_INT_T_VALUE - value);
        if tot > room then Some NGX_ERROR else s64 (tot + value)
      })"

text \<open>The value of a unit added to the total: \<open>Inl\<close> is a return.\<close>

definition time_add :: "bool \<Rightarrow> time_step \<Rightarrow> int \<Rightarrow> int \<Rightarrow> int \<Rightarrow> (int + int) option" where
  "time_add is_sec step scale value tot =
     (let max_v = NGX_MAX_INT_T_VALUE div scale in
      do {
        scale' \<leftarrow> (if step \<noteq> st_msec \<and> \<not> is_sec then s64 (scale * 1000) else Some scale);
        if value > (if step \<noteq> st_msec \<and> \<not> is_sec then max_v div 1000 else max_v) then Some (Inl NGX_ERROR)
        else do {
          value \<leftarrow> s64 (value * scale');
          room \<leftarrow> s64 (NGX_MAX_INT_T_VALUE - value);
          if tot > room then Some (Inl NGX_ERROR)
          else do { tot \<leftarrow> s64 (tot + value); Some (Inr tot) }
        }
      })"

lemma time_unit_shorter: "time_unit is_sec step c p = Some (step', scale, p') \<Longrightarrow> length p' \<le> length p"
  by (auto simp: time_unit_def split: if_splits)

function parse_time_loop :: "bool \<Rightarrow> time_step \<Rightarrow> int \<Rightarrow> int \<Rightarrow> bool \<Rightarrow> bytes \<Rightarrow> int option" where
  "parse_time_loop is_sec step value tot valid [] = time_finish is_sec value tot valid"
| "parse_time_loop is_sec step value tot valid (c # p) =
     (if c_0 \<le> c \<and> c \<le> c_9 then
        (if value \<ge> NGX_MAX_INT_T_VALUE div 10 \<and>
            (value > NGX_MAX_INT_T_VALUE div 10 \<or> uint c - 48 > NGX_MAX_INT_T_VALUE mod 10)
         then Some NGX_ERROR
         else do {
           value \<leftarrow> s64 (value * 10);
           value \<leftarrow> s64 (value + (uint c - 48));
           parse_time_loop is_sec step value tot True p
         })
      else case time_unit is_sec step c p of
             None \<Rightarrow> Some NGX_ERROR
           | Some (step', scale, p') \<Rightarrow>
               (case time_add is_sec step' scale value tot of
                  None \<Rightarrow> None
                | Some (Inl rc) \<Rightarrow> Some rc
                | Some (Inr tot') \<Rightarrow>
                    parse_time_loop is_sec step' 0 tot' valid (dropWhile (\<lambda>c. c = c_SP) p')))"
  by pat_completeness auto
termination
  by (relation "measure (\<lambda>(is_sec, step, value, tot, valid, p). length p)")
     (auto dest!: time_unit_shorter intro: le_imp_less_Suc order_trans [OF length_dropWhile_le])

definition ngx_parse_time :: "bytes \<Rightarrow> bool \<Rightarrow> int option" where
  "ngx_parse_time line is_sec =
     parse_time_loop is_sec (if is_sec then st_start else st_month) 0 0 False line"

subsection \<open>The sum of the units\<close>

text \<open>The milliseconds (or, for \<open>is_sec\<close>, the seconds) of one unit.\<close>

definition unit_scale :: "bool \<Rightarrow> time_step \<Rightarrow> int \<Rightarrow> int" where
  "unit_scale is_sec step scale = (if step \<noteq> st_msec \<and> \<not> is_sec then scale * 1000 else scale)"

lemma time_unit_scale: "time_unit is_sec step c p = Some (step', scale, p') \<Longrightarrow> 0 < scale \<and> scale \<le> 31536000"
  by (auto simp: time_unit_def split: if_splits)

lemma int_le_div: "0 < (k :: int) \<Longrightarrow> 0 \<le> m \<Longrightarrow> x > m div k \<longleftrightarrow> x * k > m"
  using int_le_div_iff [of k x m] by linarith

lemma time_add_spec:
  assumes "0 < scale" "scale \<le> 31536000" "0 \<le> value" "value \<le> NGX_MAX_INT_T_VALUE"
    "0 \<le> tot" "tot \<le> NGX_MAX_INT_T_VALUE"
  shows "time_add is_sec step scale value tot =
    (let tot' = tot + value * unit_scale is_sec step scale
     in Some (if tot' \<le> NGX_MAX_INT_T_VALUE then Inr tot' else Inl NGX_ERROR))"
proof -
  let ?k = "unit_scale is_sec step scale"
  have k: "0 < ?k" "?k \<le> 31536000000" using assms(1,2) by (auto simp: unit_scale_def)
  have max_eq: "(if step \<noteq> st_msec \<and> \<not> is_sec then NGX_MAX_INT_T_VALUE div scale div 1000 else NGX_MAX_INT_T_VALUE div scale) =
      NGX_MAX_INT_T_VALUE div ?k"
    using assms(1) by (auto simp: unit_scale_def zdiv_zmult2_eq)
  have s: "(if step \<noteq> st_msec \<and> \<not> is_sec then s64 (scale * 1000) else Some scale) = Some ?k"
    using assms(1,2) by (simp add: unit_scale_def)
  have guard: "value > NGX_MAX_INT_T_VALUE div ?k \<longleftrightarrow> value * ?k > NGX_MAX_INT_T_VALUE"
    using int_le_div [OF k(1)] by (simp add: NGX_MAX_INT_T_VALUE_def)
  have nn: "0 \<le> value * ?k" using assms(3) k by simp
  show ?thesis
    using assms(5,6) nn guard s max_eq
    by (auto simp: time_add_def Let_def s64_def NGX_MAX_INT_T_VALUE_def)
qed

lemma time_finish_spec:
  assumes "0 \<le> value" "value \<le> NGX_MAX_INT_T_VALUE" "0 \<le> tot" "tot \<le> NGX_MAX_INT_T_VALUE"
  shows "time_finish is_sec value tot valid =
    (let tot' = tot + value * unit_scale is_sec st_sec 1
     in Some (if valid \<and> tot' \<le> NGX_MAX_INT_T_VALUE then tot' else NGX_ERROR))"
  using assms by (auto simp: time_finish_def unit_scale_def Let_def s64_def NGX_MAX_INT_T_VALUE_def NGX_ERROR_def)

lemma parse_time_loop_range:
  "0 \<le> value \<Longrightarrow> value \<le> NGX_MAX_INT_T_VALUE \<Longrightarrow> 0 \<le> tot \<Longrightarrow> tot \<le> NGX_MAX_INT_T_VALUE \<Longrightarrow>
    \<exists>r. parse_time_loop is_sec step value tot valid p = Some r \<and> (r = NGX_ERROR \<or> 0 \<le> r \<and> r \<le> NGX_MAX_INT_T_VALUE)"
proof (induction is_sec step "value" tot valid p rule: parse_time_loop.induct)
  case (1 is_sec step v tot valid)
  then have "0 \<le> tot + v * unit_scale is_sec st_sec 1" by (simp add: unit_scale_def)
  then show ?case using time_finish_spec [OF 1, of is_sec valid] by (simp add: Let_def)
next
  case (2 is_sec step v tot valid c p)
  show ?case
  proof (cases "is_digit c")
    case True
    then have nd: "c_0 \<le> c \<and> c \<le> c_9" by (simp add: is_digit_def)
    have d: "uint c - 48 = int (digit_val c)" "digit_val c \<le> 9" using True digit_val_int digit_val_le by auto
    obtain n where n: "v = int n" using 2(3) by (metis nat_0_le)
    show ?thesis
    proof (cases "int (n * 10 + digit_val c) \<le> NGX_MAX_INT_T_VALUE")
      case fits: True
      have "\<exists>r. parse_time_loop is_sec step (int (n * 10 + digit_val c)) tot True p = Some r \<and>
          (r = NGX_ERROR \<or> 0 \<le> r \<and> r \<le> NGX_MAX_INT_T_VALUE)"
        using 2(1) [OF nd, of "int (n * 10)" "int (n * 10 + digit_val c)"] dec_step_fits [OF True fits] fits 2(5,6) n
        by auto
      then show ?thesis using dec_step_fits [OF True fits] nd n by auto
    next
      case False
      then show ?thesis using dec_step_overflow [OF True, of n] nd n by auto
    qed
  next
    case False
    then have nd: "\<not> (c_0 \<le> c \<and> c \<le> c_9)" by (simp add: is_digit_def)
    show ?thesis
    proof (cases "time_unit is_sec step c p")
      case None
      then show ?thesis using nd by auto
    next
      case (Some a)
      obtain step' scale p' where a: "a = (step', scale, p')" by (cases a)
      note k = time_unit_scale [OF Some [unfolded a]]
      let ?t = "tot + v * unit_scale is_sec step' scale"
      have t: "0 \<le> ?t" using k 2(3,5) by (simp add: unit_scale_def)
      note add = time_add_spec [OF conjunct1 [OF k] conjunct2 [OF k] 2(3-6), of is_sec step']
      show ?thesis
      proof (cases "?t \<le> NGX_MAX_INT_T_VALUE")
        case True
        then have add': "time_add is_sec step' scale v tot = Some (Inr ?t)" using add by (simp add: Let_def)
        show ?thesis
          using 2(2) [OF nd Some a [symmetric] refl add' refl] add' Some a nd t True
          by (auto simp: NGX_MAX_INT_T_VALUE_def)
      next
        case False
        then have "time_add is_sec step' scale v tot = Some (Inl NGX_ERROR)" using add by (simp add: Let_def)
        then show ?thesis using Some a nd by auto
      qed
    qed
  qed
qed

text \<open>
  C40: on any line \<open>ngx_parse_time\<close> ends without an overflow, with \<open>NGX_ERROR\<close> or with a number of
  seconds (milliseconds) that fits an \<open>ngx_int_t\<close>.
\<close>

theorem parse_time_never_overflows:
  "\<exists>r. ngx_parse_time line is_sec = Some r \<and> (r = NGX_ERROR \<or> 0 \<le> r \<and> r \<le> NGX_MAX_INT_T_VALUE)"
  unfolding ngx_parse_time_def by (rule parse_time_loop_range) (simp_all add: NGX_MAX_INT_T_VALUE_def)

subsection \<open>Reading a printed time\<close>

text \<open>A run of digits: the value grows to what the digits denote, or the loop returns the error.\<close>

lemma parse_time_digits:
  "list_all is_digit ds \<Longrightarrow> int v \<le> NGX_MAX_INT_T_VALUE \<Longrightarrow>
    parse_time_loop is_sec step (int v) tot valid (ds @ rest) =
      (if int (radix_val 10 digit_val v ds) \<le> NGX_MAX_INT_T_VALUE
       then parse_time_loop is_sec step (int (radix_val 10 digit_val v ds)) tot (valid \<or> ds \<noteq> []) rest
       else Some NGX_ERROR)"
proof (induction ds arbitrary: v valid)
  case (Cons c ds)
  let ?v = "v * 10 + digit_val c"
  have c: "is_digit c" using Cons.prems by simp
  then have nd: "c_0 \<le> c \<and> c \<le> c_9" by (simp add: is_digit_def)
  show ?case
  proof (cases "int ?v \<le> NGX_MAX_INT_T_VALUE")
    case True
    with Cons.IH [of ?v True] Cons.prems dec_step_fits [OF c True] nd show ?thesis by auto
  next
    case False
    have "?v \<le> radix_val 10 digit_val ?v ds" by (simp add: radix_val_ge)
    with False dec_step_overflow [OF c False] nd show ?thesis by auto
  qed
qed simp

definition unit_text :: "time_step \<Rightarrow> bytes" where
  "unit_text u =
     (case u of st_year \<Rightarrow> asc ''y'' | st_month \<Rightarrow> asc ''M'' | st_week \<Rightarrow> asc ''w'' | st_day \<Rightarrow> asc ''d''
      | st_hour \<Rightarrow> asc ''h'' | st_min \<Rightarrow> asc ''m'' | st_sec \<Rightarrow> asc ''s'' | st_msec \<Rightarrow> asc ''ms'' | _ \<Rightarrow> [])"

definition unit_length :: "time_step \<Rightarrow> int" where
  "unit_length u =
     (case u of st_year \<Rightarrow> 31536000 | st_month \<Rightarrow> 2592000 | st_week \<Rightarrow> 604800 | st_day \<Rightarrow> 86400
      | st_hour \<Rightarrow> 3600 | st_min \<Rightarrow> 60 | _ \<Rightarrow> 1)"

definition unit_allowed :: "bool \<Rightarrow> time_step \<Rightarrow> bool" where
  "unit_allowed is_sec u \<longleftrightarrow>
     (if is_sec then u \<in> {st_year, st_month, st_week, st_day, st_hour, st_min, st_sec}
      else u \<in> {st_week, st_day, st_hour, st_min, st_sec, st_msec})"

definition time_text :: "(nat \<times> time_step) list \<Rightarrow> bytes" where
  "time_text items = concat (map (\<lambda>(n, u). num_dec n [] @ unit_text u) items)"

definition time_sum :: "bool \<Rightarrow> (nat \<times> time_step) list \<Rightarrow> int" where
  "time_sum is_sec items = sum_list (map (\<lambda>(n, u). int n * unit_scale is_sec u (unit_length u)) items)"

lemma time_unit_text:
  assumes "unit_allowed is_sec u" "step < u" "rest = [] \<or> is_digit (hd rest)"
  shows "\<exists>c cs. unit_text u = c # cs \<and> \<not> is_digit c \<and> time_unit is_sec step c (cs @ rest) = Some (u, unit_length u, rest)"
proof -
  have "\<not> (rest \<noteq> [] \<and> hd rest = of_char CHR ''s'')" using assms(3) by (auto simp: is_digit_def)
  then show ?thesis
    using assms(1,2)
    by (cases u)
       (auto simp: unit_allowed_def unit_text_def unit_length_def time_unit_def is_digit_def time_order
         split: time_step.splits if_splits)
qed

lemma time_text_first: "time_text items = [] \<or> is_digit (hd (time_text items))"
proof (cases items)
  case (Cons i items')
  obtain n u where i: "i = (n, u)" by (cases i)
  have "hd (num_dec n []) \<in> set (num_dec n [])" by simp
  then have "is_digit (hd (num_dec n []))" using num_dec_digits [of n] by (auto simp: list_all_iff simp del: num_dec_not_Nil)
  then show ?thesis using Cons i by (simp add: time_text_def)
qed (simp add: time_text_def)

lemma unit_scale_pos: "1 \<le> unit_scale is_sec u (unit_length u)" "unit_length u \<le> 31536000" "0 < unit_length u"
  by (auto simp: unit_scale_def unit_length_def split: time_step.splits)

lemma time_sum_nonneg: "0 \<le> time_sum is_sec items"
proof -
  have "0 \<le> int n * unit_scale is_sec u (unit_length u)" for n u
    using unit_scale_pos(1) [of is_sec u] by simp
  then show ?thesis by (auto simp: time_sum_def intro!: sum_list_nonneg)
qed

lemma parse_time_text:
  "sorted_wrt (<) (step # map snd items) \<Longrightarrow> list_all (unit_allowed is_sec) (map snd items) \<Longrightarrow>
    0 \<le> tot \<Longrightarrow> tot \<le> NGX_MAX_INT_T_VALUE \<Longrightarrow> valid \<or> items \<noteq> [] \<Longrightarrow>
    parse_time_loop is_sec step 0 tot valid (time_text items) =
      Some (if tot + time_sum is_sec items \<le> NGX_MAX_INT_T_VALUE then tot + time_sum is_sec items else NGX_ERROR)"
proof (induction items arbitrary: step tot valid)
  case Nil
  then show ?case
    using time_finish_spec [of 0 tot is_sec valid] by (simp add: time_text_def time_sum_def Let_def NGX_MAX_INT_T_VALUE_def)
next
  case (Cons i items)
  obtain n u where i: "i = (n, u)" by (cases i)
  let ?rest = "time_text items" and ?k = "unit_scale is_sec u (unit_length u)"
  have shape: "time_text (i # items) = num_dec n [] @ unit_text u @ ?rest" by (simp add: time_text_def i)
  have sum_eq: "time_sum is_sec (i # items) = int n * ?k + time_sum is_sec items" by (simp add: time_sum_def i)
  have u: "unit_allowed is_sec u" "step < u" using Cons.prems i by auto
  obtain c cs where c: "unit_text u = c # cs" "\<not> is_digit c"
    "time_unit is_sec step c (cs @ ?rest) = Some (u, unit_length u, ?rest)"
    using time_unit_text [OF u time_text_first] by blast
  have nd: "\<not> (c_0 \<le> c \<and> c \<le> c_9)" using c(2) by (simp add: is_digit_def)
  have drop: "dropWhile (\<lambda>c. c = c_SP) ?rest = ?rest"
    using time_text_first [of items] by (cases ?rest) (auto simp: is_digit_def)
  have "int n * 1 \<le> int n * ?k" using unit_scale_pos(1) by (rule mult_left_mono) simp
  then have nk: "int n \<le> int n * ?k" by simp
  have dn: "dec_val (num_dec n []) = n" "list_all is_digit (num_dec n [])" using num_dec_digits [of n] by simp_all
  note digits = parse_time_digits [OF dn(2), of 0 is_sec step tot valid "unit_text u @ ?rest"]
  show ?case
  proof (cases "int n \<le> NGX_MAX_INT_T_VALUE")
    case False
    then have "\<not> tot + time_sum is_sec (i # items) \<le> NGX_MAX_INT_T_VALUE"
      using sum_eq nk Cons.prems(3) time_sum_nonneg [of is_sec items] by linarith
    then show ?thesis using False digits dn(1) shape by (simp add: NGX_MAX_INT_T_VALUE_def)
  next
    case True
    have start: "parse_time_loop is_sec step 0 tot valid (time_text (i # items)) =
        parse_time_loop is_sec step (int n) tot True (c # cs @ ?rest)"
      using True digits dn(1) shape c(1) by (simp add: NGX_MAX_INT_T_VALUE_def)
    note add = time_add_spec [OF unit_scale_pos(3,2) _ True Cons.prems(3,4), of is_sec u u]
    show ?thesis
    proof (cases "tot + int n * ?k \<le> NGX_MAX_INT_T_VALUE")
      case fits: True
      have "parse_time_loop is_sec u 0 (tot + int n * ?k) True ?rest =
        Some (if tot + int n * ?k + time_sum is_sec items \<le> NGX_MAX_INT_T_VALUE
              then tot + int n * ?k + time_sum is_sec items else NGX_ERROR)"
        using Cons.prems fits i nk by (intro Cons.IH) auto
      then show ?thesis using fits start add nd c(3) drop sum_eq by (simp add: Let_def add.assoc)
    next
      case False
      then show ?thesis
        using start add nd c(3) sum_eq time_sum_nonneg [of is_sec items] by (simp add: Let_def)
    qed
  qed
qed

text \<open>
  a time written as numbers with units, each unit at most once and the longest first, is the sum of
  the numbers times their units, in seconds or in milliseconds as asked, or \<open>NGX_ERROR\<close> exactly when the
  sum does not fit.
\<close>

lemma parse_time_printed:
  assumes "items \<noteq> []" "sorted_wrt (<) (map snd items)" "list_all (unit_allowed is_sec) (map snd items)"
  shows "ngx_parse_time (time_text items) is_sec =
    Some (if time_sum is_sec items \<le> NGX_MAX_INT_T_VALUE then time_sum is_sec items else NGX_ERROR)"
proof -
  let ?s = "if is_sec then st_start else st_month"
  have "?s < u" if "unit_allowed is_sec u" for u
    using that by (auto simp: unit_allowed_def time_order split: if_splits)
  then have "sorted_wrt (<) (?s # map snd items)" using assms(2,3) by (simp add: list_all_iff)
  then show ?thesis
    using assms parse_time_text [of ?s items is_sec 0 False]
    by (simp add: ngx_parse_time_def NGX_MAX_INT_T_VALUE_def)
qed

lemma parse_time_printed_witness:
  "ngx_parse_time (time_text [(1, st_hour), (30, st_min)]) True = Some 5400"
  using parse_time_printed [of "[(1, st_hour), (30, st_min)]" True]
  by (simp add: unit_allowed_def time_order time_sum_def unit_scale_def unit_length_def NGX_MAX_INT_T_VALUE_def)

end
