(* ===== verification/Ngx_Sprintf.thy ===== *)
theory Ngx_Sprintf
  imports Ngx_Printf
begin

text \<open>
  The callers of \<open>ngx_vslprintf\<close> in \<open>src/core/ngx_string.c\<close>, and the conversions they use as one rewrite rule
  each; with these \<open>simp\<close> prints a format.
\<close>

text \<open>\<open>ngx_sprintf\<close> into \<open>alloc\<close> bytes; its \<open>last\<close> is the end of the address space.\<close>

definition ADDRESS_ROOM :: nat where "ADDRESS_ROOM = 2 ^ 63"

definition ngx_sprintf :: "nat \<Rightarrow> bytes \<Rightarrow> va list \<Rightarrow> fault + bytes" where
  "ngx_sprintf alloc fmt args =
     sbind (ngx_vslprintf fmt args ([], ADDRESS_ROOM)) (\<lambda>(out, _).
     if length out \<le> alloc then Inr out else Inl Overflow)"

text \<open>\<open>ngx_snprintf\<close>: at most \<open>room\<close> bytes.\<close>

definition ngx_snprintf :: "nat \<Rightarrow> bytes \<Rightarrow> va list \<Rightarrow> fault + bytes" where
  "ngx_snprintf room fmt args = sbind (ngx_vslprintf fmt args ([], room)) (\<lambda>(out, _). Inr out)"

subsection \<open>The conversions\<close>

lemma fmt_char: "c \<noteq> c_pct \<Longrightarrow> 0 < room \<Longrightarrow>
    ngx_vslprintf (c # fmt) args (out, room) = ngx_vslprintf fmt args (out @ [c], room - 1)"
  by (subst ngx_vslprintf.simps) (simp add: vslprintf_step_def)

lemma fmt_end: "ngx_vslprintf [] args b = Inr b"
  by (subst ngx_vslprintf.simps) simp

lemma fmt_V: "0 < room \<Longrightarrow> length v \<le> room \<Longrightarrow>
    ngx_vslprintf (c_pct # 0x56 # fmt) (VA_str v # args) (out, room) = ngx_vslprintf fmt args (out @ v, room - length v)"
  by (subst ngx_vslprintf.simps) (simp add: vslprintf_step_def parse_spec_def conv_step_def conv_text_def min_def)

lemma fmt_ud: "0 < room \<Longrightarrow> length (num_dec n []) \<le> room \<Longrightarrow>
    ngx_vslprintf (c_pct # 0x75 # 0x64 # fmt) (VA_uint n # args) (out, room) =
      ngx_vslprintf fmt args (out @ num_dec n [], room - length (num_dec n []))"
  by (subst ngx_vslprintf.simps)
    (simp add: vslprintf_step_def parse_spec_def conv_step_def conv_text_def num_value_def print_num_def sprintf_num_dec)

lemma fmt_d: "0 < room \<Longrightarrow> 0 \<le> i \<Longrightarrow> length (num_dec (nat i) []) \<le> room \<Longrightarrow>
    ngx_vslprintf (c_pct # 0x64 # fmt) (VA_int i # args) (out, room) =
      ngx_vslprintf fmt args (out @ num_dec (nat i) [], room - length (num_dec (nat i) []))"
  by (subst ngx_vslprintf.simps)
    (simp add: vslprintf_step_def parse_spec_def conv_step_def conv_text_def num_value_def print_num_def sprintf_num_dec)

text \<open>A hexadecimal number.\<close>

abbreviation hex_text :: "nat \<Rightarrow> bytes" where
  "hex_text n \<equiv> num_hex hex_lower n []"

lemma num_hex_append: "num_hex ds n acc = num_hex ds n [] @ acc"
proof (induction n arbitrary: acc rule: less_induct)
  case (less n)
  show ?case
  proof (cases "n div 16 = 0")
    case False
    then have "n div 16 < n" by auto
    note IH = less.IH [OF this]
    show ?thesis
      using IH [of "ds ! (n mod 16) # acc"] IH [of "[ds ! (n mod 16)]"] False
      by (simp add: num_hex.simps [of ds n] Let_def)
  qed (simp add: num_hex.simps [of ds n])
qed

lemma num_hex_rec:
  "num_hex ds n [] = (if n < 16 then [] else num_hex ds (n div 16) []) @ [ds ! (n mod 16)]"
  by (subst num_hex.simps, subst num_hex_append) (auto simp: Let_def)

lemma num_hex_length: "n < 16 ^ Suc k \<Longrightarrow> length (num_hex ds n []) \<le> Suc k"
proof (induction k arbitrary: n)
  case 0
  then show ?case by (simp add: num_hex_rec [of ds n])
next
  case (Suc k)
  then have "n div 16 < 16 ^ Suc k" by (simp add: less_mult_imp_div_less)
  from Suc.IH [OF this] show ?case by (simp add: num_hex_rec [of ds n])
qed

lemma hex_lower_digit: "d < 16 \<Longrightarrow> hex_digit (hex_lower ! d) \<and> hex_digit_val (hex_lower ! d) = d"
proof -
  assume "d < 16"
  then have "d \<in> {0, 1, 2, 3, 4, 5, 6, 7, 8, 9, 10, 11, 12, 13, 14, 15}" by (simp only: insert_iff empty_iff) presburger
  then show ?thesis
    by (elim insertE emptyE)
      (simp_all add: hex_lower_eval hex_digit_def hex_digit_val_def is_digit_def is_hex_letter_def)
qed

lemma hex_text_digits: "list_all hex_digit (hex_text n) \<and> hex_val (hex_text n) = n"
proof (induction n rule: less_induct)
  case (less n)
  show ?case
  proof (cases "n < 16")
    case True
    then show ?thesis using hex_lower_digit [of "n mod 16"] by (simp add: num_hex_rec [of _ n])
  next
    case False
    then have "n div 16 < n" by (simp add: div_less_dividend)
    then show ?thesis using less [of "n div 16"] hex_lower_digit [of "n mod 16"] False
      by (simp add: num_hex_rec [of _ n])
  qed
qed

lemmas hex_text_length = num_hex_length [of _ _ hex_lower]

lemma hex_text_not_Nil [simp]: "hex_text n \<noteq> []"
  by (simp add: num_hex_rec [of _ n])

lemma fmt_xd: "0 < room \<Longrightarrow> length (hex_text n) \<le> room \<Longrightarrow>
    ngx_vslprintf (c_pct # 0x78 # 0x64 # fmt) (VA_uint n # args) (out, room) =
      ngx_vslprintf fmt args (out @ hex_text n, room - length (hex_text n))"
  by (subst ngx_vslprintf.simps)
    (simp add: vslprintf_step_def parse_spec_def conv_step_def conv_text_def num_value_def print_num_def ngx_sprintf_num_def
      sprintf_pad.simps Let_def)

end
