(* ===== verification/Ngx_Time.thy ===== *)
theory Ngx_Time
  imports Ngx_Sprintf
begin

text \<open>
  Dates: \<open>ngx_parse_http_time\<close> of \<open>src/core/ngx_parse_time.c\<close>, \<open>ngx_gmtime\<close>, \<open>ngx_http_time\<close> and
  \<open>ngx_http_cookie_time\<close> of \<open>src/core/ngx_times.c\<close>.  Reading a byte at or past \<open>value + len\<close> is the
  exit \<open>Past_end\<close>, a \<open>return NGX_ERROR\<close> the exit \<open>Time_error\<close>.  The unsigned 64-bit arithmetic of
  Gauss' formula is written out with its wrap-around.

  The lemmas: the reader stays inside its argument; \<open>ngx_gmtime\<close> names the day that Gauss' formula
  counts; and what \<open>ngx_http_time\<close> prints is read back.
\<close>

subsection \<open>The reader\<close>

datatype time_fmt = fmt_no | rfc822 | rfc850 | isoc

datatype time_exit = Past_end | Time_error

definition get :: "bytes \<Rightarrow> nat \<Rightarrow> time_exit + u8" where
  "get v p = (if p < length v then Inr (v ! p) else Inl Past_end)"

text \<open>\<open>n\<close> digits from \<open>p\<close> on, tested one after the other as the conditions of the code do.\<close>

fun get_digits :: "bytes \<Rightarrow> nat \<Rightarrow> nat \<Rightarrow> nat \<Rightarrow> time_exit + nat" where
  "get_digits v p 0 acc = Inr acc"
| "get_digits v p (Suc n) acc =
     sbind (get v p) (\<lambda>c.
     if is_digit c then get_digits v (p + 1) n (acc * 10 + digit_val c) else Inl Time_error)"

definition expect :: "bytes \<Rightarrow> nat \<Rightarrow> u8 \<Rightarrow> time_exit + nat" where
  "expect v p c = sbind (get v p) (\<lambda>x. if x = c then Inr (p + 1) else Inl Time_error)"

text \<open>The first loop: where the name of the day ends, and with which format.\<close>

fun first_delim :: "bytes \<Rightarrow> nat \<Rightarrow> time_fmt \<times> nat" where
  "first_delim [] p = (fmt_no, p)"
| "first_delim (c # cs) p =
     (if c = c_comma then (fmt_no, p) else if c = c_SP then (isoc, p) else first_delim cs (p + 1))"

definition skip_spaces :: "bytes \<Rightarrow> nat \<Rightarrow> nat" where
  "skip_spaces v p = p + length (takeWhile (\<lambda>c. c = c_SP) (drop p v))"

text \<open>Up to the month: the format, the day (not yet known for \<open>isoc\<close>) and the position.\<close>

definition time_start :: "bytes \<Rightarrow> time_exit + time_fmt \<times> nat \<times> nat" where
  "time_start v =
     (let (fmt, p) = first_delim v 0; p = skip_spaces v (p + 1) in
      if length v - p < 18 then Inl Time_error
      else if fmt = isoc then Inr (isoc, 0, p)
      else sbind (get_digits v p 2 0) (\<lambda>day.
           let p = p + 2 in
           sbind (get v p) (\<lambda>c.
           if c = c_SP then (if length v - p < 18 then Inl Time_error else Inr (rfc822, day, p + 1))
           else if c = c_minus then Inr (rfc850, day, p + 1)
           else Inl Time_error)))"

definition time_month :: "bytes \<Rightarrow> nat \<Rightarrow> time_exit + nat" where
  "time_month v p =
     sbind (get v p) (\<lambda>c.
     if c = of_char CHR ''J'' then
       sbind (get v (p + 1)) (\<lambda>c1.
       if c1 = of_char CHR ''a'' then Inr 0
       else sbind (get v (p + 2)) (\<lambda>c2. if c2 = of_char CHR ''n'' then Inr 5 else Inr 6))
     else if c = of_char CHR ''F'' then Inr 1
     else if c = of_char CHR ''M'' then
       sbind (get v (p + 2)) (\<lambda>c2. if c2 = of_char CHR ''r'' then Inr 2 else Inr 4)
     else if c = of_char CHR ''A'' then
       sbind (get v (p + 1)) (\<lambda>c1. if c1 = of_char CHR ''p'' then Inr 3 else Inr 7)
     else if c = of_char CHR ''S'' then Inr 8
     else if c = of_char CHR ''O'' then Inr 9
     else if c = of_char CHR ''N'' then Inr 10
     else if c = of_char CHR ''D'' then Inr 11
     else Inl Time_error)"

text \<open>From the byte after the month to the byte before the hour: the year, the day, the position.\<close>

definition time_year :: "bytes \<Rightarrow> time_fmt \<Rightarrow> nat \<Rightarrow> nat \<Rightarrow> time_exit + nat \<times> nat \<times> nat" where
  "time_year v fmt day p =
     (if fmt = rfc822 then
        sbind (expect v p c_SP) (\<lambda>p.
        sbind (get_digits v p 4 0) (\<lambda>year. Inr (year, day, p + 4)))
      else if fmt = rfc850 then
        sbind (expect v p c_minus) (\<lambda>p.
        sbind (get_digits v p 2 0) (\<lambda>year. Inr (year + (if year < 70 then 2000 else 1900), day, p + 2)))
      else
        (let p = p + 1 in
         sbind (get v p) (\<lambda>c.
         let p = (if c = c_SP then p + 1 else p) in
         sbind (get_digits v p 1 0) (\<lambda>day.
         let p = p + 1 in
         sbind (get v p) (\<lambda>c.
         sbind (if c \<noteq> c_SP
                then sbind (get_digits v p 1 day) (\<lambda>day. Inr (day, p + 1))
                else Inr (day, p)) (\<lambda>(day, p).
         if length v - p < 14 then Inl Time_error else Inr (0, day, p)))))))"

definition time_clock :: "bytes \<Rightarrow> nat \<Rightarrow> time_exit + nat \<times> nat \<times> nat \<times> nat" where
  "time_clock v p =
     sbind (expect v p c_SP) (\<lambda>p.
     sbind (get_digits v p 2 0) (\<lambda>hour.
     sbind (expect v (p + 2) c_colon) (\<lambda>p.
     sbind (get_digits v p 2 0) (\<lambda>minute.
     sbind (expect v (p + 2) c_colon) (\<lambda>p.
     sbind (get_digits v p 2 0) (\<lambda>sec. Inr (hour, minute, sec, p)))))))"

definition mday :: "nat list" where
  [ngx_eval]: "mday = [31, 28, 31, 30, 31, 30, 31, 31, 30, 31, 30, 31]"

text \<open>\<open>(time_t)\<close> of an unsigned 64-bit value.\<close>

definition to_time_t :: "int \<Rightarrow> int" where
  "to_time_t x = (x + 2 ^ 63) mod 2 ^ 64 - 2 ^ 63"

text \<open>The days since March 1, 1 BC of the first day of a year that starts on March 1.\<close>

definition gauss_year :: "int \<Rightarrow> int" where
  "gauss_year year = 365 * year + year div 4 - year div 100 + year div 400"

definition time_value :: "nat \<Rightarrow> nat \<Rightarrow> nat \<Rightarrow> nat \<Rightarrow> nat \<Rightarrow> nat \<Rightarrow> time_exit + int" where
  "time_value year month day hour minute sec =
     (if hour > 23 \<or> minute > 59 \<or> sec > 59 then Inl Time_error
      else if day = 29 \<and> month = 1 \<and> (year mod 4 \<noteq> 0 \<or> year mod 100 = 0 \<and> year mod 400 \<noteq> 0) then Inl Time_error
      else if \<not> (day = 29 \<and> month = 1) \<and> day > mday ! month then Inl Time_error
      else
        (let m = int month - 1;
             y = (if m \<le> 0 then (int year - 1) mod 2 ^ 64 else int year);
             m = (if m \<le> 0 then m + 12 else m)
         in Inr (to_time_t ((gauss_year y + 367 * m div 12 - 30 + int day - 1 - 719527 + 31 + 28) * 86400
              + int hour * 3600 + int minute * 60 + int sec))))"

definition parse_http_time :: "bytes \<Rightarrow> time_exit + int" where
  "parse_http_time v =
     sbind (time_start v) (\<lambda>(fmt, day, p).
     sbind (time_month v p) (\<lambda>month.
     sbind (time_year v fmt day (p + 3)) (\<lambda>(year, day, p).
     sbind (time_clock v p) (\<lambda>(hour, minute, sec, p).
     sbind (if fmt = isoc
            then sbind (expect v (p + 2) c_SP) (\<lambda>p. get_digits v p 4 0)
            else Inr year) (\<lambda>year.
     time_value year month day hour minute sec)))))"

definition ngx_parse_http_time :: "bytes \<Rightarrow> int option" where
  "ngx_parse_http_time v =
     (case parse_http_time v of
        Inr t \<Rightarrow> Some t
      | Inl Time_error \<Rightarrow> Some NGX_ERROR
      | Inl Past_end \<Rightarrow> None)"

subsection \<open>The calendar and the printers\<close>

record ngx_tm =
  tm_sec :: nat
  tm_min :: nat
  tm_hour :: nat
  tm_mday :: nat
  tm_mon :: nat
  tm_year :: nat
  tm_wday :: nat

definition leap_year :: "int \<Rightarrow> bool" where
  "leap_year year \<longleftrightarrow> year mod 4 = 0 \<and> (year mod 100 \<noteq> 0 \<or> year mod 400 = 0)"

text \<open>The year and the day of the year, both from March 1, of the days since March 1, 1 BC.\<close>

definition gm_year :: "int \<Rightarrow> int \<times> int" where
  "gm_year days =
     (let year = (days + 2) * 400 div (365 * 400 + 100 - 4 + 1);
          yday = days - gauss_year year
      in if yday < 0 then (year - 1, 365 + (if leap_year year then 1 else 0) + yday) else (year, yday))"

definition ngx_gmtime :: "int \<Rightarrow> ngx_tm" where
  "ngx_gmtime t =
     (let n = t mod 2 ^ 64;
          days = n div 86400;
          wday = (4 + days) mod 7;
          n = n mod 86400;
          (year, yday) = gm_year (days - (31 + 28) + 719527);
          mon = (yday + 31) * 10 div 306;
          day = yday - (367 * mon div 12 - 30) + 1;
          (year, mon) = (if yday \<ge> 306 then (year + 1, mon - 10) else (year, mon + 2))
      in \<lparr> tm_sec = nat (n mod 3600 mod 60), tm_min = nat (n mod 3600 div 60), tm_hour = nat (n div 3600),
           tm_mday = nat day, tm_mon = nat mon, tm_year = nat year, tm_wday = nat wday \<rparr>)"

definition week :: "bytes list" where
  [ngx_eval]: "week = map asc [''Sun'', ''Mon'', ''Tue'', ''Wed'', ''Thu'', ''Fri'', ''Sat'']"

definition months :: "bytes list" where
  [ngx_eval]: "months = map asc [''Jan'', ''Feb'', ''Mar'', ''Apr'', ''May'', ''Jun'',
     ''Jul'', ''Aug'', ''Sep'', ''Oct'', ''Nov'', ''Dec'']"

text \<open>A C string in memory: its bytes and the zero.\<close>

definition cstr :: "bytes \<Rightarrow> va" where
  "cstr s = VA_ptr (s @ [0])"

text \<open>The first argument is the buffer, of which the callers provide enough.\<close>

definition ngx_http_time :: "buf \<Rightarrow> int \<Rightarrow> fault + buf" where
  "ngx_http_time b t =
     (let tm = ngx_gmtime t in
      ngx_vslprintf (asc ''%s, %02d %s %4d %02d:%02d:%02d GMT'')
        [cstr (week ! tm_wday tm), VA_int (int (tm_mday tm)), cstr (months ! (tm_mon tm - 1)),
         VA_int (int (tm_year tm)), VA_int (int (tm_hour tm)), VA_int (int (tm_min tm)), VA_int (int (tm_sec tm))] b)"

definition ngx_http_cookie_time :: "buf \<Rightarrow> int \<Rightarrow> fault + buf" where
  "ngx_http_cookie_time b t =
     (let tm = ngx_gmtime t in
      ngx_vslprintf (if tm_year tm > 2037 then asc ''%s, %02d-%s-%d %02d:%02d:%02d GMT''
                     else asc ''%s, %02d-%s-%02d %02d:%02d:%02d GMT'')
        [cstr (week ! tm_wday tm), VA_int (int (tm_mday tm)), cstr (months ! (tm_mon tm - 1)),
         VA_int (int (if tm_year tm > 2037 then tm_year tm else tm_year tm mod 100)),
         VA_int (int (tm_hour tm)), VA_int (int (tm_min tm)), VA_int (int (tm_sec tm))] b)"

subsection \<open>The reader stays inside its argument\<close>

definition inside :: "time_exit + 'a \<Rightarrow> bool" where
  "inside m \<longleftrightarrow> m \<noteq> Inl Past_end"

lemma inside_simps [simp]: "inside (Inr x)" "inside (Inl Time_error)"
  by (simp_all add: inside_def)

lemma inside_bind: "inside m \<Longrightarrow> (\<And>x. m = Inr x \<Longrightarrow> inside (f x)) \<Longrightarrow> inside (sbind m f)"
  by (cases m) (auto simp: inside_def)

lemma inside_get: "p < length v \<Longrightarrow> inside (get v p)"
  by (simp add: get_def)

lemma inside_digits: "p + n \<le> length v \<Longrightarrow> inside (get_digits v p n acc)"
  by (induction n arbitrary: p acc) (auto intro!: inside_bind inside_get)

lemma inside_expect: "p < length v \<Longrightarrow> inside (expect v p c)"
  by (auto simp: expect_def intro!: inside_bind inside_get)

lemma expect_moves: "expect v p c = Inr q \<Longrightarrow> q = p + 1"
  by (auto simp: expect_def sbind_Inr_iff split: if_splits)

text \<open>What each part needs of the room it is given.\<close>

lemma time_start_room:
  "inside (time_start v) \<and>
   (time_start v = Inr (fmt, day, p) \<longrightarrow>
      (fmt = rfc822 \<and> p + 17 \<le> length v) \<or> (fmt = rfc850 \<and> p + 15 \<le> length v) \<or> (fmt = isoc \<and> p + 18 \<le> length v))"
  by (auto simp: time_start_def Let_def sbind_Inr_iff split: prod.splits if_splits
      intro!: inside_bind inside_digits inside_get)

lemma inside_month: "p + 3 \<le> length v \<Longrightarrow> inside (time_month v p)"
  by (auto simp: time_month_def intro!: inside_bind inside_get)

lemma time_year_room:
  assumes "(fmt = rfc822 \<and> p + 14 \<le> length v) \<or> (fmt = rfc850 \<and> p + 12 \<le> length v) \<or> (fmt = isoc \<and> p + 15 \<le> length v)"
  shows "inside (time_year v fmt day p) \<and>
    (time_year v fmt day p = Inr (year, day', p') \<longrightarrow> p' + (if fmt = isoc then 14 else 9) \<le> length v)"
proof (cases fmt)
  case isoc
  have step: "inside (sbind (get_digits v p 1 0) (\<lambda>day.
         let p = p + 1 in
         sbind (get v p) (\<lambda>c.
         sbind (if c \<noteq> c_SP then sbind (get_digits v p 1 day) (\<lambda>day. Inr (day, p + 1)) else Inr (day, p))
          (\<lambda>(day, p). if length v - p < 14 then Inl Time_error else Inr (0 :: nat, day, p)))))"
    if "p + 3 \<le> length v" for p
    using that by (auto simp: Let_def intro!: inside_bind inside_digits inside_get)
  show ?thesis
    using assms isoc step [of "p + 1"] step [of "p + 2"]
    by (auto simp: time_year_def sbind_Inr_iff intro!: inside_bind inside_get simp del: get_digits.simps split: if_splits)
qed (use assms in \<open>auto simp: time_year_def sbind_Inr_iff split: if_splits
      intro!: inside_bind inside_digits inside_expect dest!: expect_moves\<close>)

lemma time_clock_room:
  assumes "p + 9 \<le> length v"
  shows "inside (time_clock v p) \<and> (time_clock v p = Inr (h, m, s, p') \<longrightarrow> p' = p + 7)"
  using assms
  by (auto simp: time_clock_def sbind_Inr_iff intro!: inside_bind inside_digits inside_expect dest!: expect_moves)

lemma inside_value: "inside (time_value year month day hour minute sec)"
  by (simp add: time_value_def Let_def)

text \<open>
  \<open>ngx_parse_http_time\<close> never reads a byte at or past the end of its argument, whatever the bytes are
  and however few of them there are.
\<close>

lemma parse_http_time_stays_inside: "ngx_parse_http_time v \<noteq> None"
proof -
  have "inside (sbind (time_month v p) (\<lambda>month. sbind (time_year v fmt day (p + 3)) (\<lambda>(year, day, p).
       sbind (time_clock v p) (\<lambda>(hour, minute, sec, p).
       sbind (if fmt = isoc then sbind (expect v (p + 2) c_SP) (\<lambda>p. get_digits v p 4 0) else Inr year)
        (\<lambda>year. time_value year month day hour minute sec)))))"
    if start: "time_start v = Inr (fmt, day, p)" for fmt day p
  proof (intro inside_bind)
    have room: "(fmt = rfc822 \<and> p + 17 \<le> length v) \<or> (fmt = rfc850 \<and> p + 15 \<le> length v) \<or> (fmt = isoc \<and> p + 18 \<le> length v)"
      using time_start_room [of v fmt day p] start by simp
    show "inside (time_month v p)" using room by (intro inside_month) auto
    have y: "(fmt = rfc822 \<and> p + 3 + 14 \<le> length v) \<or> (fmt = rfc850 \<and> p + 3 + 12 \<le> length v) \<or>
        (fmt = isoc \<and> p + 3 + 15 \<le> length v)" using room by auto
    then show "inside (time_year v fmt day (p + 3))" using time_year_room by blast
    fix month a assume a: "time_year v fmt day (p + 3) = Inr a"
    obtain year day' q where q: "a = (year, day', q)" by (cases a)
    have r: "q + (if fmt = isoc then 14 else 9) \<le> length v" using time_year_room [OF y, of day year day' q] a q by simp
    then have r9: "q + 9 \<le> length v" by (auto split: if_splits)
    show "inside (case a of (year, day, p) \<Rightarrow> sbind (time_clock v p) (\<lambda>(hour, minute, sec, p).
       sbind (if fmt = isoc then sbind (expect v (p + 2) c_SP) (\<lambda>p. get_digits v p 4 0) else Inr year)
        (\<lambda>year. time_value year month day hour minute sec)))"
      using r conjunct1 [OF time_clock_room [OF r9]]
      by (auto simp: q intro!: inside_bind inside_value inside_expect inside_digits
          dest!: expect_moves conjunct2 [OF time_clock_room [OF r9], rule_format] split: if_splits)
  qed
  then have "inside (parse_http_time v)"
    unfolding parse_http_time_def
    by (intro inside_bind) (auto simp del: split_paired_All simp: conjunct1 [OF time_start_room] split: prod.split)
  then show ?thesis by (auto simp: ngx_parse_http_time_def inside_def split: sum.splits time_exit.splits)
qed

subsection \<open>The calendar\<close>

lemma div_step: "0 < k \<Longrightarrow> (y :: int) div k - (y - 1) div k = (if y mod k = 0 then 1 else 0)"
proof -
  assume k: "0 < k"
  have y: "y = k * (y div k) + y mod k" by simp
  show ?thesis
  proof (cases "y mod k = 0")
    case True
    then have "y - 1 = k * (y div k - 1) + (k - 1)" using y by (simp add: algebra_simps)
    then have "(y - 1) div k = y div k - 1" using k by (intro int_div_pos_eq [where r = "k - 1"]) auto
    then show ?thesis using True by simp
  next
    case False
    then have "y - 1 = k * (y div k) + (y mod k - 1)" "0 \<le> y mod k - 1" "y mod k - 1 < k"
      using y k pos_mod_sign [of k y] pos_mod_bound [of k y] by linarith+
    then have "(y - 1) div k = y div k" by (rule int_div_pos_eq)
    then show ?thesis using False by simp
  qed
qed

lemma gauss_step: "gauss_year y = gauss_year (y - 1) + 365 + (if leap_year y then 1 else 0)"
proof -
  have d: "y mod 4 = 0" if "y mod 100 = 0"
    using that mod_mod_cancel [of 4 100 y] by simp
  have h: "y mod 100 = 0" if "y mod 400 = 0"
    using that mod_mod_cancel [of 100 400 y] by simp
  have "gauss_year y - gauss_year (y - 1) = 365 + (y div 4 - (y - 1) div 4) - (y div 100 - (y - 1) div 100)
      + (y div 400 - (y - 1) div 400)"
    by (simp add: gauss_year_def algebra_simps)
  also have "\<dots> = 365 + (if y mod 4 = 0 then 1 else 0) - (if y mod 100 = 0 then 1 else 0) + (if y mod 400 = 0 then 1 else 0)"
    by (simp only: div_step zero_less_numeral)
  also have "\<dots> = 365 + (if leap_year y then 1 else 0)"
    using d h unfolding leap_year_def by (cases "y mod 400 = 0"; cases "y mod 100 = 0"; cases "y mod 4 = 0") simp_all
  finally show ?thesis by simp
qed

lemma gauss_split:
  assumes "0 \<le> c" "c \<le> 3" "0 \<le> g" "g \<le> 24" "0 \<le> h" "h \<le> 3"
  shows "gauss_year (400 * a + 100 * c + 4 * g + h) = 146097 * a + 36524 * c + 1461 * g + 365 * h"
proof -
  have "(400 * a + 100 * c + 4 * g + h) div 4 = 100 * a + 25 * c + g"
    using assms by (intro int_div_pos_eq [where r = h]) auto
  moreover have "(400 * a + 100 * c + 4 * g + h) div 100 = 4 * a + c"
    using assms by (intro int_div_pos_eq [where r = "4 * g + h"]) auto
  moreover have "(400 * a + 100 * c + 4 * g + h) div 400 = a"
    using assms by (intro int_div_pos_eq [where r = "100 * c + 4 * g + h"]) auto
  ultimately show ?thesis by (simp add: gauss_year_def)
qed

lemma year_digits:
  obtains a c g h :: int where "y = 400 * a + 100 * c + 4 * g + h"
    "0 \<le> c" "c \<le> 3" "0 \<le> g" "g \<le> 24" "0 \<le> h" "h \<le> 3"
proof
  define r where "r = y mod 400"
  define s where "s = r mod 100"
  have "y = 400 * (y div 400) + r" "r = 100 * (r div 100) + s" "s = 4 * (s div 4) + s mod 4"
    by (simp_all add: r_def s_def)
  then show "y = 400 * (y div 400) + 100 * (r div 100) + 4 * (s div 4) + s mod 4" by linarith
  have "0 \<le> r" "r < 400" "0 \<le> s" "s < 100" by (simp_all add: r_def s_def)
  then show "0 \<le> r div 100" "r div 100 \<le> 3" "0 \<le> s div 4" "s div 4 \<le> 24" by linarith+
  show "0 \<le> s mod 4" "s mod 4 \<le> 3" using pos_mod_bound [of 4 s] by simp_all
qed

text \<open>The first guess is the year of the day or the one after it.\<close>

lemma gauss_guess:
  assumes "Y = (d + 2) * 400 div 146097"
  shows "gauss_year (Y - 1) \<le> d \<and> d < gauss_year (Y + 1)"
proof -
  have lo: "146097 * Y \<le> (d + 2) * 400" and hi: "(d + 2) * 400 < 146097 * Y + 146097"
    using div_mult_mod_eq [of "(d + 2) * 400" 146097] pos_mod_sign [of 146097 "(d + 2) * 400"]
      pos_mod_bound [of 146097 "(d + 2) * 400"]
    unfolding assms by linarith+
  obtain a c g h where Y: "Y = 400 * a + 100 * c + 4 * g + h"
    and b: "0 \<le> c" "c \<le> 3" "0 \<le> g" "g \<le> 24" "0 \<le> h" "h \<le> 3" by (rule year_digits)
  have G: "gauss_year Y = 146097 * a + 36524 * c + 1461 * g + 365 * h"
    unfolding Y by (rule gauss_split [OF b])
  have l: "gauss_year (Y - 1) \<le> gauss_year Y - 365" using gauss_step [of Y] by simp
  have "gauss_year Y - 365 \<le> d" unfolding G using lo [unfolded Y] b by (simp add: algebra_simps)
  moreover have "d < gauss_year (Y + 1)"
  proof (cases "h = 3 \<and> g = 24")
    case False
    have "leap_year (Y + 1)" if "h = 3"
    proof -
      have "Y + 1 = 400 * a + 100 * c + 4 * (g + 1)" using that Y by simp
      moreover have "0 < 4 * (g + 1)" "4 * (g + 1) < 100" using b False that by auto
      moreover have "Y + 1 = 4 * (100 * a + 25 * c + g + 1)" "Y + 1 = 4 * (g + 1) + 100 * (4 * a + c)"
        using that Y by simp_all
      ultimately have "(Y + 1) mod 4 = 0" "(Y + 1) mod 100 = 4 * (g + 1)"
        by (metis mod_mult_self1_is_0, metis mod_mult_self2 mod_pos_pos_trivial less_imp_le)
      then show ?thesis using b by (simp add: leap_year_def)
    qed
    then have "gauss_year (Y + 1) \<ge> gauss_year Y + 365 + (if h = 3 then 1 else 0)"
      using gauss_step [of "Y + 1"] by simp
    then show ?thesis using hi Y b G by (cases "h = 3") auto
  next
    case True
    have "leap_year (Y + 1)" if "c = 3"
    proof -
      have "Y + 1 = 400 * (a + 1)" using that True Y by simp
      then have "(Y + 1) mod 400 = 0" "(Y + 1) = 4 * (100 * (a + 1))" by simp_all
      then show ?thesis unfolding leap_year_def by (metis mod_mult_self1_is_0)
    qed
    then have "gauss_year (Y + 1) \<ge> gauss_year Y + 365 + (if c = 3 then 1 else 0)"
      using gauss_step [of "Y + 1"] by simp
    then show ?thesis using hi Y b G True by (cases "c = 3") auto
  qed
  ultimately show ?thesis using l by linarith
qed

lemma gm_year_correct:
  assumes "gm_year d = (y, yday)"
  shows "d = gauss_year y + yday \<and> 0 \<le> yday \<and> yday < 365 + (if leap_year (y + 1) then 1 else 0)"
proof -
  define Y where "Y = (d + 2) * 400 div 146097"
  note guess = gauss_guess [OF Y_def]
  have "gm_year d = (if d < gauss_year Y then (Y - 1, 365 + (if leap_year Y then 1 else 0) + (d - gauss_year Y)) else (Y, d - gauss_year Y))"
    by (simp add: gm_year_def Y_def Let_def)
  then show ?thesis using assms guess gauss_step [of Y] gauss_step [of "Y + 1"] by (auto split: if_splits)
qed

text \<open>The month and the day of the month of a day of the year, for all 366 of them.\<close>

definition month_of :: "int \<Rightarrow> int" where
  "month_of yday = (yday + 31) * 10 div 306"

definition day_of :: "int \<Rightarrow> int" where
  "day_of yday = yday - (367 * month_of yday div 12 - 30) + 1"

definition yday_ok :: "int \<Rightarrow> bool" where
  "yday_ok yday \<longleftrightarrow>
     1 \<le> month_of yday \<and> month_of yday \<le> 12 \<and> (306 \<le> yday \<longleftrightarrow> 11 \<le> month_of yday) \<and> 1 \<le> day_of yday \<and>
     (if month_of yday = 12 \<and> day_of yday = 29 then yday = 365
      else day_of yday \<le> int (mday ! nat (if 11 \<le> month_of yday then month_of yday - 11 else month_of yday + 1)))"

lemma yday_all:
  assumes "0 \<le> yday" "yday < 366"
  shows "yday_ok yday"
proof -
  define m where "m = month_of yday"
  have b: "306 * m \<le> (yday + 31) * 10" "(yday + 31) * 10 < 306 * m + 306"
    using div_mult_mod_eq [of "(yday + 31) * 10" 306] pos_mod_sign [of 306 "(yday + 31) * 10"]
      pos_mod_bound [of 306 "(yday + 31) * 10"]
    unfolding m_def month_of_def by linarith+
  then have "m \<in> {1..12}" using assms by auto
  then have "m = 1 \<or> m = 2 \<or> m = 3 \<or> m = 4 \<or> m = 5 \<or> m = 6 \<or> m = 7 \<or> m = 8 \<or> m = 9 \<or> m = 10 \<or> m = 11 \<or> m = 12"
    unfolding atLeastAtMost_iff by presburger
  then show ?thesis
    using b assms unfolding yday_ok_def day_of_def m_def [symmetric]
    by (elim disjE) (simp_all add: mday_def)
qed

definition LAST_TIME :: int where
  "LAST_TIME = 253402300799"  \<comment> \<open>December 31, 9999, 23:59:59\<close>

lemma gm_year_range:
  assumes "719468 \<le> d" "d \<le> 3652364" "gm_year d = (y, yday)"
  shows "1969 \<le> y \<and> y \<le> 9999 \<and> (y = 1969 \<longrightarrow> 306 \<le> yday) \<and> (y = 9999 \<longrightarrow> yday < 306)"
proof -
  define Y where "Y = (d + 2) * 400 div 146097"
  have "287788000 \<le> (d + 2) * 400" "(d + 2) * 400 \<le> 1460946400" using assms(1,2) by simp_all
  from zdiv_mono1 [OF this(1), of 146097] zdiv_mono1 [OF this(2), of 146097]
  have Y: "1969 \<le> Y" "Y \<le> 9999" by (simp_all add: Y_def)
  have "gm_year d = (if d < gauss_year Y then (Y - 1, 365 + (if leap_year Y then 1 else 0) + (d - gauss_year Y)) else (Y, d - gauss_year Y))"
    by (simp add: gm_year_def Y_def Let_def)
  then have y: "1968 \<le> y" "y \<le> 9999" using assms(3) Y by (auto split: if_splits)
  have g: "gauss_year 1968 = 718797" "gauss_year 1969 = 719162" "gauss_year 9999 = 3652059" "\<not> leap_year 1969"
    by (simp_all add: gauss_year_def leap_year_def)
  show ?thesis using gm_year_correct [OF assms(3)] assms(1,2) y g by (cases "y = 1968"; cases "y = 1969"; cases "y = 9999") auto
qed

lemma leap_year_nat: "leap_year (int y) \<longleftrightarrow> y mod 4 = 0 \<and> (y mod 100 \<noteq> 0 \<or> y mod 400 = 0)"
proof -
  have "int y mod 4 = int (y mod 4)" "int y mod 100 = int (y mod 100)" "int y mod 400 = int (y mod 400)"
    by (simp_all add: of_nat_mod)
  then show ?thesis by (simp add: leap_year_def)
qed

text \<open>The fields of the calendar.\<close>

definition tm_of :: "int \<Rightarrow> int \<Rightarrow> int \<Rightarrow> int \<Rightarrow> ngx_tm" where
  "tm_of y yday n wday =
    \<lparr> tm_sec = nat (n mod 3600 mod 60), tm_min = nat (n mod 3600 div 60), tm_hour = nat (n div 3600),
      tm_mday = nat (day_of yday), tm_mon = nat (if 306 \<le> yday then month_of yday - 10 else month_of yday + 2),
      tm_year = nat (if 306 \<le> yday then y + 1 else y), tm_wday = nat wday \<rparr>"

lemma gmtime_tm_of:
  assumes "0 \<le> t" "t < 2 ^ 64" "gm_year (t div 86400 + 719468) = (y, yday)"
  shows "ngx_gmtime t = tm_of y yday (t mod 86400) ((4 + t div 86400) mod 7)"
proof -
  have "t mod 2 ^ 64 = t" "t div 86400 - (31 + 28) + 719527 = t div 86400 + 719468" using assms(1,2) by simp_all
  then show ?thesis
    using assms(3) by (simp only: ngx_gmtime_def Let_def tm_of_def month_of_def day_of_def split_conv)
      (cases "306 \<le> yday"; simp only: if_True if_False split_conv)
qed

lemma mday_le: "k < 12 \<Longrightarrow> mday ! k \<le> 31"
proof -
  have "list_all (\<lambda>m. m \<le> 31) mday" "length mday = 12" by (simp_all add: mday_def)
  then show "k < 12 \<Longrightarrow> mday ! k \<le> 31" by (simp add: list_all_length)
qed

lemma tm_of_ranges:
  assumes "0 \<le> n" "n < 86400" "0 \<le> yday" "yday < 366"
  shows "tm_hour (tm_of y yday n w) < 24" "tm_min (tm_of y yday n w) < 60" "tm_sec (tm_of y yday n w) < 60"
    "1 \<le> tm_mon (tm_of y yday n w)" "tm_mon (tm_of y yday n w) \<le> 12"
    "1 \<le> tm_mday (tm_of y yday n w)" "tm_mday (tm_of y yday n w) \<le> 31"
proof -
  note ok = yday_all [OF assms(3,4), unfolded yday_ok_def]
  have "n div 3600 < 24" "n mod 3600 div 60 < 60" "n mod 3600 mod 60 < 60" using assms(1,2) by simp_all
  then show "tm_hour (tm_of y yday n w) < 24" "tm_min (tm_of y yday n w) < 60" "tm_sec (tm_of y yday n w) < 60"
    by (simp_all add: tm_of_def)
  show "1 \<le> tm_mon (tm_of y yday n w)" "tm_mon (tm_of y yday n w) \<le> 12" "1 \<le> tm_mday (tm_of y yday n w)"
    using ok by (auto simp: tm_of_def)
  let ?k = "nat (if 11 \<le> month_of yday then month_of yday - 11 else month_of yday + 1)"
  have "mday ! ?k \<le> 31" using ok by (intro mday_le) auto
  then show "tm_mday (tm_of y yday n w) \<le> 31" using ok by (auto simp: tm_of_def split: if_splits)
qed

lemma time_value_good:
  assumes "hour < 24" "minute < 60" "sec < 60"
    "day = 29 \<Longrightarrow> month = 1 \<Longrightarrow> \<not> (year mod 4 \<noteq> 0 \<or> year mod 100 = 0 \<and> year mod 400 \<noteq> 0)"
    "\<not> (day = 29 \<and> month = 1) \<Longrightarrow> day \<le> mday ! month" "m = int month - 1"
  shows "time_value year month day hour minute sec = Inr (to_time_t
    ((gauss_year (if m \<le> 0 then (int year - 1) mod 2 ^ 64 else int year) + 367 * (if m \<le> 0 then m + 12 else m) div 12
       - 30 + int day - 1 - 719527 + 31 + 28) * 86400 + int hour * 3600 + int minute * 60 + int sec))"
proof -
  have "\<not> (hour > 23 \<or> minute > 59 \<or> sec > 59)" using assms(1-3) by simp
  moreover have "\<not> (day = 29 \<and> month = 1 \<and> (year mod 4 \<noteq> 0 \<or> year mod 100 = 0 \<and> year mod 400 \<noteq> 0))"
    using assms(4) by blast
  moreover have "\<not> (\<not> (day = 29 \<and> month = 1) \<and> day > mday ! month)" using assms(5) by (meson leD)
  ultimately show ?thesis
    unfolding time_value_def Let_def assms(6) [symmetric] by (simp only: if_False)
qed

text \<open>Gauss' formula on the fields leads back to the time.\<close>

lemma time_value_tm_of:
  fixes w :: int
  assumes "0 \<le> n" "n < 86400" "0 \<le> yday" "yday < 365 + (if leap_year (y + 1) then 1 else 0)" "0 < y" "y < 2 ^ 64"
  defines "tm \<equiv> tm_of y yday n w"
  shows "time_value (tm_year tm) (tm_mon tm - 1) (tm_mday tm) (tm_hour tm) (tm_min tm) (tm_sec tm) =
     Inr (to_time_t ((gauss_year y + yday - 719468) * 86400 + n))"
proof -
  have yd: "yday < 366" using assms(4) by (simp split: if_splits)
  note ok = yday_all [OF assms(3) yd, unfolded yday_ok_def]
  note range = tm_of_ranges [OF assms(1-3) yd, of y w, folded tm_def]
  have k: "tm_mon tm - 1 = nat (if 11 \<le> month_of yday then month_of yday - 11 else month_of yday + 1)"
    using ok by (auto simp: tm_def tm_of_def)
  have day: "tm_mday tm = nat (day_of yday)" by (simp add: tm_def tm_of_def)
  have feb29: "\<not> (tm_year tm mod 4 \<noteq> 0 \<or> tm_year tm mod 100 = 0 \<and> tm_year tm mod 400 \<noteq> 0)"
    if "tm_mday tm = 29" "tm_mon tm - 1 = 1"
  proof -
    have "month_of yday = 12" "day_of yday = 29" using that k day ok by (auto split: if_splits)
    then have "yday = 365" using ok by simp
    then have "leap_year (int (tm_year tm))" using assms(4,5) by (auto simp: tm_def tm_of_def split: if_splits)
    then show ?thesis by (simp add: leap_year_nat)
  qed
  have short: "tm_mday tm \<le> mday ! (tm_mon tm - 1)" if "\<not> (tm_mday tm = 29 \<and> tm_mon tm - 1 = 1)"
  proof -
    have "\<not> (month_of yday = 12 \<and> day_of yday = 29)" using that k day by auto
    then show ?thesis using ok k day by (auto split: if_splits)
  qed
  define m where "m = int (tm_mon tm - 1) - 1"
  have mi: "int (tm_mon tm - 1) = (if 11 \<le> month_of yday then month_of yday - 11 else month_of yday + 1)"
    unfolding k using ok by auto
  have m: "m \<le> 0 \<longleftrightarrow> 11 \<le> month_of yday" "(if m \<le> 0 then m + 12 else m) = month_of yday"
    using ok mi by (auto simp: m_def)
  have y: "(if m \<le> 0 then (int (tm_year tm) - 1) mod 2 ^ 64 else int (tm_year tm)) = y"
    using assms(5,6) ok m(1) by (auto simp: tm_def tm_of_def)
  have "n = n div 3600 * 3600 + n mod 3600" "n mod 3600 = n mod 3600 div 60 * 60 + n mod 3600 mod 60" by simp_all
  then have sec: "int (tm_hour tm) * 3600 + int (tm_min tm) * 60 + int (tm_sec tm) = n"
    using assms(1) by (simp add: tm_def tm_of_def pos_imp_zdiv_nonneg_iff)
  have "gauss_year y + 367 * month_of yday div 12 - 30 + int (tm_mday tm) - 1 - 719527 + 31 + 28 = gauss_year y + yday - 719468"
    using ok day by (simp add: day_of_def)
  then have eq: "(gauss_year y + 367 * month_of yday div 12 - 30 + int (tm_mday tm) - 1 - 719527 + 31 + 28) * 86400
      + int (tm_hour tm) * 3600 + int (tm_min tm) * 60 + int (tm_sec tm) = (gauss_year y + yday - 719468) * 86400 + n"
    unfolding sec [symmetric] by (simp only: add.assoc)
  show ?thesis
    using time_value_good [OF range(1-3) feb29 short m_def] unfolding m(2) y eq .
qed

lemma gmtime_value:
  assumes "0 \<le> t" "t \<le> LAST_TIME"
  defines "tm \<equiv> ngx_gmtime t"
  shows "time_value (tm_year tm) (tm_mon tm - 1) (tm_mday tm) (tm_hour tm) (tm_min tm) (tm_sec tm) = Inr t"
    and "1970 \<le> tm_year tm \<and> tm_year tm \<le> 9999" "1 \<le> tm_mon tm \<and> tm_mon tm \<le> 12" "tm_mday tm \<le> 31"
      "tm_hour tm < 24" "tm_min tm < 60" "tm_sec tm < 60" "tm_wday tm < 7"
proof -
  define d where "d = t div 86400 + 719468"
  define n where "n = t mod 86400"
  have t: "t = (d - 719468) * 86400 + n" "0 \<le> n" "n < 86400" by (simp_all add: d_def n_def)
  have last: "t \<le> 253402300799" using assms(2) by (simp add: LAST_TIME_def)
  have d: "719468 \<le> d" "d \<le> 3652364"
    using zdiv_mono1 [OF assms(1), of 86400] zdiv_mono1 [OF last, of 86400] by (simp_all add: d_def)
  obtain y yday where g: "gm_year d = (y, yday)" by (cases "gm_year d")
  note gm = gm_year_correct [OF g] and range = gm_year_range [OF d g]
  have yd: "0 \<le> yday" "yday < 366" using gm by (auto split: if_splits)
  have tm: "tm = tm_of y yday n ((4 + t div 86400) mod 7)"
    unfolding tm_def n_def using assms(1,2) g by (intro gmtime_tm_of) (simp_all add: LAST_TIME_def d_def)
  show "tm_wday tm < 7" by (simp add: tm tm_of_def nat_less_iff)
  show "1970 \<le> tm_year tm \<and> tm_year tm \<le> 9999" using range by (auto simp: tm tm_of_def)
  show "1 \<le> tm_mon tm \<and> tm_mon tm \<le> 12" "tm_mday tm \<le> 31" "tm_hour tm < 24" "tm_min tm < 60" "tm_sec tm < 60"
    using tm_of_ranges [OF t(2,3) yd] by (simp_all add: tm)
  have "to_time_t t = t" using assms(1,2) by (simp add: to_time_t_def LAST_TIME_def)
  then show "time_value (tm_year tm) (tm_mon tm - 1) (tm_mday tm) (tm_hour tm) (tm_min tm) (tm_sec tm) = Inr t"
    using time_value_tm_of [OF t(2,3) yd(1), of y] gm range t(1) by (simp add: tm)
qed

subsection \<open>What is printed is read back\<close>

definition dd :: "nat \<Rightarrow> bytes" where
  "dd n = [of_nat (n div 10 + 48), of_nat (n mod 10 + 48)]"

definition dddd :: "nat \<Rightarrow> bytes" where
  "dddd n = dd (n div 100) @ dd (n mod 100)"

lemma num_dec_dd: "n < 100 \<Longrightarrow> num_dec n [] = (if n < 10 then [of_nat (n + 48)] else dd n)"
  by (subst num_dec.simps, subst num_dec.simps) (auto simp: dd_def Let_def)

lemma num_dec_dddd: "1000 \<le> n \<Longrightarrow> n < 10000 \<Longrightarrow> num_dec n [] = dddd n"
proof -
  assume n: "1000 \<le> n" "n < 10000"
  then have nz: "n div 10 \<noteq> 0" "n div 10 div 10 = n div 100" "n div 100 \<noteq> 0"
    by (simp_all add: div_mult2_eq [symmetric] div_eq_0_iff)
  have "num_dec n [] = num_dec (n div 100) [of_nat (n div 10 mod 10 + 48), of_nat (n mod 10 + 48)]"
    using nz num_dec.simps [of n "[]"] num_dec.simps [of "n div 10" "[of_nat (n mod 10 + 48)]"]
    by (simp add: Let_def)
  also have "\<dots> = num_dec (n div 100) [] @ [of_nat (n div 10 mod 10 + 48), of_nat (n mod 10 + 48)]"
    by (subst num_dec_append) simp
  also have "num_dec (n div 100) [] = dd (n div 100)" using n by (subst num_dec_dd) auto
  also have "[of_nat (n div 10 mod 10 + 48), of_nat (n mod 10 + 48)] = dd (n mod 100)"
    by (simp add: dd_def mod_mult2_eq [of n 10 10, simplified] del: of_nat_add)
  finally show ?thesis by (simp add: dddd_def)
qed

text \<open>The specifications of the two formats, one rewrite rule each.\<close>

lemma copy_cstr_all: "0 \<notin> set s \<Longrightarrow> length s \<le> room \<Longrightarrow> copy_cstr (s @ [0]) (out, room) = Inr (out @ s, room - length s)"
  by (induction s arbitrary: out room) auto

lemma fmt_s: "0 \<notin> set s \<Longrightarrow> length s \<le> room \<Longrightarrow> 0 < room \<Longrightarrow>
    ngx_vslprintf (c_pct # 0x73 # fmt) (cstr s # args) (out, room) = ngx_vslprintf fmt args (out @ s, room - length s)"
  by (subst ngx_vslprintf.simps)
    (simp add: vslprintf_step_def parse_spec_def conv_step_def conv_text_def copy_cstr_all cstr_def Let_def)

lemma fmt_02d: "n < 100 \<Longrightarrow> 2 \<le> room \<Longrightarrow>
    ngx_vslprintf (c_pct # c_0 # 0x32 # 0x64 # fmt) (VA_int (int n) # args) (out, room) =
      ngx_vslprintf fmt args (out @ dd n, room - Suc (Suc 0))"
  by (subst ngx_vslprintf.simps)
    (auto simp: vslprintf_step_def parse_spec_def conv_step_def conv_text_def num_value_def print_num_def
       ngx_sprintf_num_def num_dec_dd sprintf_pad.simps dd_def Let_def)

lemma fmt_4d: "1000 \<le> n \<Longrightarrow> n < 10000 \<Longrightarrow> 4 \<le> room \<Longrightarrow>
    ngx_vslprintf (c_pct # 0x34 # 0x64 # fmt) (VA_int (int n) # args) (out, room) =
      ngx_vslprintf fmt args (out @ dddd n, room - Suc (Suc (Suc (Suc 0))))"
  by (subst ngx_vslprintf.simps)
    (auto simp: vslprintf_step_def parse_spec_def conv_step_def conv_text_def num_value_def print_num_def
       ngx_sprintf_num_def num_dec_dddd sprintf_pad.simps dddd_def dd_def Let_def)

lemma less7_cases: "(n::nat) < 7 \<Longrightarrow> n = 0 \<or> n = 1 \<or> n = 2 \<or> n = 3 \<or> n = 4 \<or> n = 5 \<or> n = 6"
  by auto

lemma less12_cases:
  "(n::nat) < 12 \<Longrightarrow> n = 0 \<or> n = 1 \<or> n = 2 \<or> n = 3 \<or> n = 4 \<or> n = 5 \<or> n = 6 \<or> n = 7 \<or> n = 8 \<or> n = 9 \<or> n = 10 \<or> n = 11"
  by presburger

lemma week_name: "n < 7 \<Longrightarrow> \<exists>a b c. week ! n = [a, b, c] \<and> {a, b, c} \<inter> {0, c_comma, c_SP} = {}"
  by (drule less7_cases) (elim disjE; simp add: week_def)

lemma month_name:
  "n < 12 \<Longrightarrow> \<exists>a b c. months ! n = [a, b, c] \<and> 0 \<notin> {a, b, c} \<and>
     (\<forall>v p. get v p = Inr a \<longrightarrow> get v (p + 1) = Inr b \<longrightarrow> get v (p + 2) = Inr c \<longrightarrow> time_month v p = Inr n)"
  by (drule less12_cases) (elim disjE; simp add: months_def time_month_def)

text \<open>The text of a date.\<close>

definition http_date :: "ngx_tm \<Rightarrow> bytes" where
  "http_date tm =
     week ! tm_wday tm @ [c_comma, c_SP] @ dd (tm_mday tm) @ [c_SP] @ months ! (tm_mon tm - 1) @ [c_SP] @
     dddd (tm_year tm) @ [c_SP] @ dd (tm_hour tm) @ [c_colon] @ dd (tm_min tm) @ [c_colon] @ dd (tm_sec tm) @
     [c_SP] @ asc ''GMT''"

lemma http_time_text:
  assumes "0 \<le> t" "t \<le> LAST_TIME" "29 \<le> room"
  shows "ngx_http_time ([], room) t = Inr (http_date (ngx_gmtime t), room - 29)"
proof -
  let ?tm = "ngx_gmtime t"
  note tm = gmtime_value [OF assms(1,2)]
  obtain a b c where w: "week ! tm_wday ?tm = [a, b, c]" "{a, b, c} \<inter> {0, c_comma, c_SP} = {}"
    using week_name [OF tm(8)] by blast
  have "tm_mon ?tm - 1 < 12" using tm(3) by linarith
  then obtain d e f where m: "months ! (tm_mon ?tm - 1) = [d, e, f]" "0 \<notin> {d, e, f}"
    using month_name by blast
  have "1000 \<le> tm_year ?tm" "tm_year ?tm < 10000" "tm_mday ?tm < 100" "tm_hour ?tm < 100" "tm_min ?tm < 100" "tm_sec ?tm < 100"
    using tm by linarith+
  then show ?thesis
    using w m assms(3)
    by (simp add: ngx_http_time_def Let_def fmt_char fmt_end fmt_s fmt_02d fmt_4d http_date_def)
qed

lemma digits_step: "p < length v \<Longrightarrow> v ! p = of_nat (k + 48) \<Longrightarrow> k < 10 \<Longrightarrow>
    get_digits v p (Suc n) acc = get_digits v (p + 1) n (acc * 10 + k)"
  using dec_char [of k] by (simp add: get_def)

lemma get_dd:
  assumes "n < 100" "p + 1 < length v" "v ! p = dd n ! 0" "v ! (p + 1) = dd n ! 1"
  shows "get_digits v p 2 acc = Inr (acc * 100 + n)"
proof -
  have "n div 10 < 10" "n mod 10 < 10" "n div 10 * 10 + n mod 10 = n" using assms(1) by simp_all
  then show ?thesis
    using assms digits_step [of p v "n div 10" 1 acc] digits_step [of "p + 1" v "n mod 10" 0 "acc * 10 + n div 10"]
    by (simp add: dd_def numeral_2_eq_2)
qed

lemma get_digits_add: "get_digits v p (m + n) acc = sbind (get_digits v p m acc) (\<lambda>a. get_digits v (p + m) n a)"
proof (induction m arbitrary: p acc)
  case (Suc m)
  show ?case by (cases "get v p") (simp_all add: Suc)
qed simp

lemma get_dddd:
  assumes "n < 10000" "p + 3 < length v" "v ! p = dd (n div 100) ! 0" "v ! (p + 1) = dd (n div 100) ! 1"
    "v ! (p + 2) = dd (n mod 100) ! 0" "v ! (p + 3) = dd (n mod 100) ! 1"
  shows "get_digits v p 4 0 = Inr n"
proof -
  have "n div 100 < 100" "n mod 100 < 100" "n div 100 * 100 + n mod 100 = n" using assms(1) by simp_all
  moreover have e: "p + 3 = p + 2 + 1" by simp
  ultimately show ?thesis
    using assms(1-5) get_digits_add [of v p 2 2 0] get_dd [of "n div 100" p v 0] get_dd [of "n mod 100" "p + 2" v "n div 100"]
      assms(2,6) [unfolded e]
    by simp
qed

lemma parse_http_date:
  assumes "length v = 29" "week_part = [v ! 0, v ! 1, v ! 2]" "{v ! 0, v ! 1, v ! 2} \<inter> {0, c_comma, c_SP} = {}"
    "v ! 3 = c_comma" "v ! 4 = c_SP" "v ! 5 = dd day ! 0" "v ! 6 = dd day ! 1" "v ! 7 = c_SP"
    "time_month v 8 = Inr month" "v ! 11 = c_SP" "v ! 12 = dd (year div 100) ! 0" "v ! 13 = dd (year div 100) ! 1"
    "v ! 14 = dd (year mod 100) ! 0" "v ! 15 = dd (year mod 100) ! 1" "v ! 16 = c_SP"
    "v ! 17 = dd hour ! 0" "v ! 18 = dd hour ! 1" "v ! 19 = c_colon" "v ! 20 = dd minute ! 0" "v ! 21 = dd minute ! 1"
    "v ! 22 = c_colon" "v ! 23 = dd sec ! 0" "v ! 24 = dd sec ! 1"
    and "day < 100" "year < 10000" "hour < 100" "minute < 100" "sec < 100"
  shows "parse_http_time v = time_value year month day hour minute sec"
proof -
  obtain a b c r where v: "v = a # b # c # c_comma # c_SP # r" "length r = 24"
  proof -
    have "v = v ! 0 # v ! 1 # v ! 2 # v ! 3 # v ! 4 # drop 5 v"
      using assms(1) by (simp add: Cons_nth_drop_Suc numeral_eq_Suc)
    then show ?thesis using that assms(1,4,5) by simp
  qed
  have d: "first_delim v 0 = (fmt_no, 3)" using assms(3) by (simp add: v)
  have "r \<noteq> []" "hd r = dd day ! 0" using v assms(6) by (auto simp: hd_conv_nth simp del: length_0_conv intro: hd_conv_nth [THEN trans])
  moreover have "is_digit (dd day ! 0)"
    unfolding dd_def nth_Cons_0 using dec_char [of "day div 10"] assms(24) by auto
  then have "dd day ! 0 \<noteq> c_SP" by (auto simp: is_digit_def)
  ultimately have s: "skip_spaces v 4 = 5" by (cases r) (simp_all add: v skip_spaces_def)
  have "time_start v = Inr (rfc822, day, 8)"
    using d s get_dd [OF assms(24), of 5 v 0] assms(1,6,7,8) by (simp add: time_start_def get_def)
  moreover have "time_year v rfc822 day 11 = Inr (year, day, 16)"
    using get_dddd [OF assms(25), of 12 v] assms(1,10-14) by (simp add: time_year_def expect_def get_def)
  moreover have "time_clock v 16 = Inr (hour, minute, sec, 23)"
    using get_dd [OF assms(26), of 17 v 0] get_dd [OF assms(27), of 20 v 0] get_dd [OF assms(28), of 23 v 0] assms(1,15-23)
    by (simp add: time_clock_def expect_def get_def)
  ultimately show ?thesis using assms(9) by (simp add: parse_http_time_def)
qed

text \<open>
  C39: the date that \<open>ngx_http_time\<close> prints for a time from 1970 to the end of 9999 is 29 bytes long and
  is read back as that time by \<open>ngx_parse_http_time\<close>.
\<close>

theorem http_time_roundtrip:
  assumes "0 \<le> t" "t \<le> LAST_TIME" "29 \<le> room"
  shows "\<exists>date. ngx_http_time ([], room) t = Inr (date, room - 29) \<and> length date = 29 \<and> ngx_parse_http_time date = Some t"
proof -
  let ?tm = "ngx_gmtime t"
  note tm = gmtime_value [OF assms(1,2)]
  obtain a b c where w: "week ! tm_wday ?tm = [a, b, c]" "{a, b, c} \<inter> {0, c_comma, c_SP} = {}"
    using week_name [OF tm(8)] by blast
  have "tm_mon ?tm - 1 < 12" using tm(3) by linarith
  then obtain d e f where m: "months ! (tm_mon ?tm - 1) = [d, e, f]"
    "\<And>v p. get v p = Inr d \<Longrightarrow> get v (p + 1) = Inr e \<Longrightarrow> get v (p + 2) = Inr f \<Longrightarrow> time_month v p = Inr (tm_mon ?tm - 1)"
    using month_name by blast
  let ?v = "http_date ?tm"
  have v: "?v = [a, b, c, c_comma, c_SP, dd (tm_mday ?tm) ! 0, dd (tm_mday ?tm) ! 1, c_SP, d, e, f, c_SP,
     dd (tm_year ?tm div 100) ! 0, dd (tm_year ?tm div 100) ! 1, dd (tm_year ?tm mod 100) ! 0, dd (tm_year ?tm mod 100) ! 1,
     c_SP, dd (tm_hour ?tm) ! 0, dd (tm_hour ?tm) ! 1, c_colon, dd (tm_min ?tm) ! 0, dd (tm_min ?tm) ! 1, c_colon,
     dd (tm_sec ?tm) ! 0, dd (tm_sec ?tm) ! 1, c_SP] @ asc ''GMT''"
    by (simp add: http_date_def w(1) m(1) [simplified] dddd_def dd_def)
  have month: "time_month ?v 8 = Inr (tm_mon ?tm - 1)" by (rule m(2)) (simp_all add: v get_def)
  have "parse_http_time ?v = time_value (tm_year ?tm) (tm_mon ?tm - 1) (tm_mday ?tm) (tm_hour ?tm) (tm_min ?tm) (tm_sec ?tm)"
    by (rule parse_http_date) (use w(2) tm month in \<open>simp_all add: v\<close>)
  then have "ngx_parse_http_time ?v = Some t" using tm(1) by (simp add: ngx_parse_http_time_def)
  moreover have "length ?v = 29" by (simp add: v)
  ultimately show ?thesis using http_time_text [OF assms] by blast
qed

theorem http_time_roundtrip_witness:
  "\<exists>date. ngx_http_time ([], 29) 784111777 = Inr (date, 0) \<and> ngx_parse_http_time date = Some 784111777"
  using http_time_roundtrip [of 784111777 29] by (auto simp: LAST_TIME_def)

end
