(* ===== verification/Ngx_String.thy ===== *)
theory Ngx_String
  imports Ngx_Printf "HOL-Library.List_Lexorder"
begin

text \<open>
  The strings of \<open>src/core/ngx_string.c\<close>: copies, comparisons and searches.  A pointer is the list of
  the bytes from it to the end of its memory, and reading past that end is \<open>None\<close>; a string that ends
  with a zero holds that zero.  \<open>memcmp\<close> and \<open>strncmp\<close> are those of C, of which only the sign is used.

  The lemmas: \<open>ngx_memn2cmp\<close> decides the lexicographic order; the case-insensitive comparisons are
  comparisons of the lower-cased strings; the searches, clients of one locale, find the first match.
\<close>

subsection \<open>Copies\<close>

definition ngx_strlow :: "bytes \<Rightarrow> nat \<Rightarrow> bytes option" where
  "ngx_strlow src n = (if n \<le> length src then Some (map ngx_tolower (take n src)) else None)"

text \<open>What is written from \<open>dst\<close> on; the answer of the code is where the zero stands.\<close>

fun cpystrn_loop :: "bytes \<Rightarrow> nat \<Rightarrow> bytes option" where
  "cpystrn_loop src 0 = Some [0]"
| "cpystrn_loop [] (Suc n) = None"
| "cpystrn_loop (c # src) (Suc n) =
     (if c = 0 then Some [0] else map_option ((#) c) (cpystrn_loop src n))"

definition ngx_cpystrn :: "bytes \<Rightarrow> nat \<Rightarrow> bytes option" where
  "ngx_cpystrn src n = (if n = 0 then Some [] else cpystrn_loop src (n - 1))"

subsection \<open>Comparisons\<close>

fun ngx_strcasecmp :: "bytes \<Rightarrow> bytes \<Rightarrow> int option" where
  "ngx_strcasecmp (c1 # s1) (c2 # s2) =
     (let c1 = ngx_tolower c1; c2 = ngx_tolower c2 in
      if c1 = c2 then (if c1 \<noteq> 0 then ngx_strcasecmp s1 s2 else Some 0)
      else Some (uint c1 - uint c2))"
| "ngx_strcasecmp _ _ = None"

fun ngx_strncasecmp :: "bytes \<Rightarrow> bytes \<Rightarrow> nat \<Rightarrow> int option" where
  "ngx_strncasecmp s1 s2 0 = Some 0"
| "ngx_strncasecmp (c1 # s1) (c2 # s2) (Suc n) =
     (let c1 = ngx_tolower c1; c2 = ngx_tolower c2 in
      if c1 = c2 then (if c1 \<noteq> 0 then ngx_strncasecmp s1 s2 n else Some 0)
      else Some (uint c1 - uint c2))"
| "ngx_strncasecmp _ _ (Suc n) = None"

fun strncmp :: "bytes \<Rightarrow> bytes \<Rightarrow> nat \<Rightarrow> int option" where
  "strncmp s1 s2 0 = Some 0"
| "strncmp (c1 # s1) (c2 # s2) (Suc n) =
     (if c1 = c2 then (if c1 \<noteq> 0 then strncmp s1 s2 n else Some 0) else Some (uint c1 - uint c2))"
| "strncmp _ _ (Suc n) = None"

text \<open>From the end: \<open>n\<close> counts down, and the indexes must lie in both memories.\<close>

fun rstrncmp_loop :: "(u8 \<Rightarrow> u8) \<Rightarrow> bytes \<Rightarrow> bytes \<Rightarrow> nat \<Rightarrow> int option" where
  "rstrncmp_loop f s1 s2 n =
     (if n < length s1 \<and> n < length s2 then
        (if f (s1 ! n) \<noteq> f (s2 ! n) then Some (uint (f (s1 ! n)) - uint (f (s2 ! n)))
         else case n of 0 \<Rightarrow> Some 0 | Suc n \<Rightarrow> rstrncmp_loop f s1 s2 n)
      else None)"

declare rstrncmp_loop.simps [simp del]

definition ngx_rstrncmp :: "bytes \<Rightarrow> bytes \<Rightarrow> nat \<Rightarrow> int option" where
  "ngx_rstrncmp s1 s2 n = (if n = 0 then Some 0 else rstrncmp_loop (\<lambda>c. c) s1 s2 (n - 1))"

definition upcase :: "u8 \<Rightarrow> u8" where
  "upcase c = (if 0x61 \<le> c \<and> c \<le> 0x7A then c - (0x61 - 0x41) else c)"

definition ngx_rstrncasecmp :: "bytes \<Rightarrow> bytes \<Rightarrow> nat \<Rightarrow> int option" where
  "ngx_rstrncasecmp s1 s2 n = (if n = 0 then Some 0 else rstrncmp_loop upcase s1 s2 (n - 1))"

text \<open>The sign of C's \<open>memcmp\<close> on two memories of the same length.\<close>

fun memcmp :: "bytes \<Rightarrow> bytes \<Rightarrow> int" where
  "memcmp (c1 # s1) (c2 # s2) = (if c1 = c2 then memcmp s1 s2 else if c1 < c2 then -1 else 1)"
| "memcmp _ _ = 0"

text \<open>The lengths are those of the two lists.\<close>

definition ngx_memn2cmp :: "bytes \<Rightarrow> bytes \<Rightarrow> int" where
  "ngx_memn2cmp s1 s2 =
     (let n1 = length s1; n2 = length s2;
          (n, z) = (if n1 \<le> n2 then (n1, -1) else (n2, 1));
          m = memcmp (take n s1) (take n s2)
      in if m \<noteq> 0 \<or> n1 = n2 then m else z)"

text \<open>In ASCII \<open>.\<close> is greater than \<open>-\<close>, but it must be the lowest character.\<close>

fun ngx_dns_strcmp :: "bytes \<Rightarrow> bytes \<Rightarrow> int option" where
  "ngx_dns_strcmp (c1 # s1) (c2 # s2) =
     (let c1 = ngx_tolower c1; c2 = ngx_tolower c2 in
      if c1 = c2 then (if c1 \<noteq> 0 then ngx_dns_strcmp s1 s2 else Some 0)
      else
        (let c1 = (if c1 = c_dot then c_SP else c1); c2 = (if c2 = c_dot then c_SP else c2)
         in Some (uint c1 - uint c2)))"
| "ngx_dns_strcmp _ _ = None"

text \<open>The build without \<open>NGX_HAVE_CASELESS_FILESYSTEM\<close>.\<close>

fun ngx_filename_cmp :: "bytes \<Rightarrow> bytes \<Rightarrow> nat \<Rightarrow> int option" where
  "ngx_filename_cmp s1 s2 0 = Some 0"
| "ngx_filename_cmp (c1 # s1) (c2 # s2) (Suc n) =
     (if c1 = c2 then (if c1 \<noteq> 0 then ngx_filename_cmp s1 s2 n else Some 0)
      else if c1 = 0 \<or> c2 = 0 then Some (uint c1 - uint c2)
      else
        (let c1 = (if c1 = c_slash then 0 else c1); c2 = (if c2 = c_slash then 0 else c2)
         in Some (uint c1 - uint c2)))"
| "ngx_filename_cmp _ _ (Suc n) = None"

subsection \<open>Searches\<close>

text \<open>
  The answers are positions: \<open>Some None\<close> is the null pointer.  The pattern is the first byte \<open>c2\<close> and the
  bytes after it, as the functions take it apart.
\<close>

fun strnstr_loop :: "u8 \<Rightarrow> bytes \<Rightarrow> nat \<Rightarrow> bytes \<Rightarrow> nat \<Rightarrow> nat \<Rightarrow> nat option option" where
  "strnstr_loop c2 s2 n [] len pos = (if len = 0 then Some None else None)"
| "strnstr_loop c2 s2 n (c1 # s1) len pos =
     (if len = 0 then Some None
      else if c1 = 0 then Some None
      else if c1 \<noteq> c2 then strnstr_loop c2 s2 n s1 (len - 1) (pos + 1)
      else if n > len - 1 then Some None
      else case strncmp s1 s2 n of
             None \<Rightarrow> None
           | Some r \<Rightarrow> if r \<noteq> 0 then strnstr_loop c2 s2 n s1 (len - 1) (pos + 1) else Some (Some pos))"

definition strlen :: "bytes \<Rightarrow> nat option" where
  "strlen s = (if 0 \<in> set s then Some (length (takeWhile (\<lambda>c. c \<noteq> 0) s)) else None)"

definition ngx_strnstr :: "bytes \<Rightarrow> bytes \<Rightarrow> nat \<Rightarrow> nat option option" where
  "ngx_strnstr s1 s2 len =
     (case s2 of
        [] \<Rightarrow> None
      | c2 # s2 \<Rightarrow> (case strlen s2 of None \<Rightarrow> None | Some n \<Rightarrow> strnstr_loop c2 s2 n s1 len 0))"

fun strstrn_loop :: "u8 \<Rightarrow> bytes \<Rightarrow> nat \<Rightarrow> bytes \<Rightarrow> nat \<Rightarrow> nat option option" where
  "strstrn_loop c2 s2 n [] pos = None"
| "strstrn_loop c2 s2 n (c1 # s1) pos =
     (if c1 = 0 then Some None
      else if c1 \<noteq> c2 then strstrn_loop c2 s2 n s1 (pos + 1)
      else case strncmp s1 s2 n of
             None \<Rightarrow> None
           | Some r \<Rightarrow> if r \<noteq> 0 then strstrn_loop c2 s2 n s1 (pos + 1) else Some (Some pos))"

definition ngx_strstrn :: "bytes \<Rightarrow> bytes \<Rightarrow> nat \<Rightarrow> nat option option" where
  "ngx_strstrn s1 s2 n = (case s2 of [] \<Rightarrow> None | c2 # s2 \<Rightarrow> strstrn_loop c2 s2 n s1 0)"

fun strcasestrn_loop :: "u8 \<Rightarrow> bytes \<Rightarrow> nat \<Rightarrow> bytes \<Rightarrow> nat \<Rightarrow> nat option option" where
  "strcasestrn_loop c2 s2 n [] pos = None"
| "strcasestrn_loop c2 s2 n (c1 # s1) pos =
     (if c1 = 0 then Some None
      else if ngx_tolower c1 \<noteq> c2 then strcasestrn_loop c2 s2 n s1 (pos + 1)
      else case ngx_strncasecmp s1 s2 n of
             None \<Rightarrow> None
           | Some r \<Rightarrow> if r \<noteq> 0 then strcasestrn_loop c2 s2 n s1 (pos + 1) else Some (Some pos))"

definition ngx_strcasestrn :: "bytes \<Rightarrow> bytes \<Rightarrow> nat \<Rightarrow> nat option option" where
  "ngx_strcasestrn s1 s2 n =
     (case s2 of [] \<Rightarrow> None | c2 # s2 \<Rightarrow> strcasestrn_loop (ngx_tolower c2) s2 n s1 0)"

text \<open>\<open>room\<close> is \<open>last - s1\<close> after \<open>last -= n\<close>: no byte is left to try when it is not positive.\<close>

fun strlcasestrn_loop :: "u8 \<Rightarrow> bytes \<Rightarrow> nat \<Rightarrow> bytes \<Rightarrow> nat \<Rightarrow> nat \<Rightarrow> nat option option" where
  "strlcasestrn_loop c2 s2 n s1 0 pos = Some None"
| "strlcasestrn_loop c2 s2 n [] (Suc room) pos = None"
| "strlcasestrn_loop c2 s2 n (c1 # s1) (Suc room) pos =
     (if ngx_tolower c1 \<noteq> c2 then strlcasestrn_loop c2 s2 n s1 room (pos + 1)
      else case ngx_strncasecmp s1 s2 n of
             None \<Rightarrow> None
           | Some r \<Rightarrow> if r \<noteq> 0 then strlcasestrn_loop c2 s2 n s1 room (pos + 1) else Some (Some pos))"

definition ngx_strlcasestrn :: "bytes \<Rightarrow> bytes \<Rightarrow> nat \<Rightarrow> nat option option" where
  "ngx_strlcasestrn s1 s2 n =
     (case s2 of [] \<Rightarrow> None | c2 # s2 \<Rightarrow> strlcasestrn_loop (ngx_tolower c2) s2 n s1 (length s1 - n) 0)"

fun ngx_strlchr :: "bytes \<Rightarrow> u8 \<Rightarrow> nat option" where
  "ngx_strlchr [] c = None"
| "ngx_strlchr (x # p) c = (if x = c then Some 0 else map_option Suc (ngx_strlchr p c))"

subsection \<open>The order of strings\<close>

lemma memcmp_same: "length s1 = length s2 \<Longrightarrow> memcmp s1 s2 = (if s1 = s2 then 0 else if s1 < s2 then -1 else 1)"
  by (induction s1 s2 rule: memcmp.induct) auto

lemma take_less: "take (length s1) s2 = s1 \<Longrightarrow> length s1 < length s2 \<Longrightarrow> (s1 :: bytes) < s2"
proof (induction s1 arbitrary: s2)
  case Nil
  then show ?case by (cases s2) auto
next
  case (Cons c s1)
  then show ?case by (cases s2) auto
qed

lemma less_take: "length s1 \<le> length s2 \<Longrightarrow> s1 < take (length s1) s2 \<Longrightarrow> (s1 :: bytes) < s2"
proof (induction s1 arbitrary: s2)
  case (Cons c s1)
  then show ?case by (cases s2) auto
qed simp

lemma take_less_not: "length s1 \<le> length s2 \<Longrightarrow> take (length s1) s2 < s1 \<Longrightarrow> (s2 :: bytes) < s1"
proof (induction s1 arbitrary: s2)
  case (Cons c s1)
  then obtain d s where s2: "s2 = d # s" by (cases s2) simp_all
  have "d < c \<or> d = c \<and> take (length s1) s < s1" using Cons.prems(2) by (simp add: s2)
  moreover have "length s1 \<le> length s" using Cons.prems(1) by (simp add: s2)
  ultimately show ?case using Cons.IH [of s] by (auto simp only: s2 Cons_less_Cons)
qed simp

lemma memn2cmp_shorter:
  assumes "length s1 \<le> length s2"
  shows "(ngx_memn2cmp s1 s2 = 0 \<longleftrightarrow> s1 = s2) \<and> (ngx_memn2cmp s1 s2 < 0 \<longleftrightarrow> s1 < s2)"
proof -
  let ?t = "take (length s1) s2"
  have v: "ngx_memn2cmp s1 s2 = (if memcmp s1 ?t \<noteq> 0 \<or> length s1 = length s2 then memcmp s1 ?t else -1)"
    using assms by (simp add: ngx_memn2cmp_def Let_def)
  have m: "memcmp s1 ?t = (if s1 = ?t then 0 else if s1 < ?t then -1 else 1)"
    using assms by (intro memcmp_same) simp
  consider "s1 = ?t" "length s1 = length s2" | "s1 = ?t" "length s1 < length s2" | "s1 < ?t" | "?t < s1"
    using assms by fastforce
  then show ?thesis
  proof cases
    case 1
    then have "s1 = s2" by simp
    with 1 v m show ?thesis by simp
  next
    case 2
    with take_less [of s1 s2] have "s1 < s2" by metis
    moreover have "memcmp s1 ?t = 0" unfolding m using 2(1) by (rule if_P)
    then have "ngx_memn2cmp s1 s2 = -1" unfolding v using 2(2) by simp
    ultimately show ?thesis by auto
  next
    case 3
    then have "s1 < s2" using less_take assms by blast
    moreover from 3 have "s1 \<noteq> ?t" by (rule less_imp_neq)
    then have "memcmp s1 ?t = -1" unfolding m by (simp only: 3 if_True if_False)
    then have "ngx_memn2cmp s1 s2 = -1" unfolding v by simp
    ultimately show ?thesis by auto
  next
    case 4
    then have "s2 < s1" using take_less_not assms by blast
    moreover from 4 have "s1 \<noteq> ?t" "\<not> s1 < ?t" by (auto dest: less_imp_neq less_not_sym)
    then have "memcmp s1 ?t = 1" unfolding m by (simp only: if_False)
    then have "ngx_memn2cmp s1 s2 = 1" unfolding v by simp
    ultimately show ?thesis by auto
  qed
qed

lemma memcmp_swap: "memcmp s2 s1 = - memcmp s1 s2"
  by (induction s1 s2 rule: memcmp.induct) auto

lemma memn2cmp_swap: "length s2 < length s1 \<Longrightarrow> ngx_memn2cmp s1 s2 = - ngx_memn2cmp s2 s1"
  using memcmp_swap [of "take (length s2) s1" s2] by (auto simp: ngx_memn2cmp_def Let_def)

text \<open>
  C38: \<open>ngx_memn2cmp\<close> decides the lexicographic order of byte strings: it is zero exactly on equal strings
  and negative exactly when the first string comes before the second.
\<close>

lemma memn2cmp_order:
  "(ngx_memn2cmp s1 s2 = 0 \<longleftrightarrow> s1 = s2) \<and> (ngx_memn2cmp s1 s2 < 0 \<longleftrightarrow> s1 < s2)"
proof (cases "length s1 \<le> length s2")
  case False
  then have "ngx_memn2cmp s1 s2 = - ngx_memn2cmp s2 s1" by (simp add: memn2cmp_swap)
  moreover have "(ngx_memn2cmp s2 s1 = 0 \<longleftrightarrow> s2 = s1) \<and> (ngx_memn2cmp s2 s1 < 0 \<longleftrightarrow> s2 < s1)"
    using False by (simp add: memn2cmp_shorter)
  ultimately show ?thesis using less_linear [of s1 s2] by (metis neg_0_less_iff_less neg_equal_0_iff_equal neg_less_0_iff_less not_less_iff_gr_or_eq)
qed (rule memn2cmp_shorter)

subsection \<open>What a search finds\<close>

text \<open>
  The loop that the four searches share: stop without an answer, answer with the position, or go on
  with the next state.
\<close>

locale search_loop =
  fixes loop :: "'s \<Rightarrow> nat \<Rightarrow> nat option option"
    and stop matches good :: "'s \<Rightarrow> bool"
    and step :: "'s \<Rightarrow> 's"
    and left :: "'s \<Rightarrow> nat"
  assumes loop_step: "good s \<Longrightarrow> loop s pos =
      (if stop s then Some None else if matches s then Some (Some pos) else loop (step s) (pos + 1))"
    and good_step: "good s \<Longrightarrow> \<not> stop s \<Longrightarrow> good (step s)"
    and left_step: "good s \<Longrightarrow> \<not> stop s \<Longrightarrow> left (step s) < left s"
begin

text \<open>The state after \<open>i\<close> turns.\<close>

definition at :: "nat \<Rightarrow> 's \<Rightarrow> 's" where
  "at i s = (step ^^ i) s"

lemma at_simps [simp]: "at 0 s = s" "at (Suc i) s = at i (step s)"
  by (simp_all add: at_def funpow_Suc_right del: funpow.simps)

lemma loop_total: "good s \<Longrightarrow> \<exists>r. loop s pos = Some r"
proof (induction "left s" arbitrary: s pos rule: less_induct)
  case less
  show ?case
  proof (cases "stop s \<or> matches s")
    case True
    then show ?thesis using loop_step [OF less.prems, of pos] by auto
  next
    case False
    then show ?thesis
      using loop_step [OF less.prems, of pos] less.hyps [of "step s"] good_step left_step less.prems by auto
  qed
qed

lemma loop_found:
  "good s \<Longrightarrow> loop s pos = Some (Some q) \<Longrightarrow>
     \<exists>i. q = pos + i \<and> matches (at i s) \<and> (\<forall>j\<le>i. \<not> stop (at j s)) \<and> (\<forall>j<i. \<not> matches (at j s))"
proof (induction "left s" arbitrary: s pos rule: less_induct)
  case less
  show ?case
  proof (cases "stop s \<or> matches s")
    case True
    then show ?thesis using loop_step [OF less.prems(1), of pos] less.prems(2) by (intro exI [of _ 0]) (auto split: if_splits)
  next
    case False
    then obtain i where "q = pos + 1 + i" "matches (at i (step s))" "\<forall>j\<le>i. \<not> stop (at j (step s))" "\<forall>j<i. \<not> matches (at j (step s))"
      using less.hyps [of "step s" "pos + 1"] loop_step [OF less.prems(1), of pos] good_step left_step less.prems by auto
    then show ?thesis using False by (intro exI [of _ "Suc i"]) (auto simp: less_Suc_eq_0_disj less_Suc_eq_le [symmetric])
  qed
qed

lemma loop_missed:
  "good s \<Longrightarrow> loop s pos = Some None \<Longrightarrow>
     \<exists>k. stop (at k s) \<and> (\<forall>j<k. \<not> stop (at j s) \<and> \<not> matches (at j s))"
proof (induction "left s" arbitrary: s pos rule: less_induct)
  case less
  show ?case
  proof (cases "stop s \<or> matches s")
    case True
    then show ?thesis using loop_step [OF less.prems(1), of pos] less.prems(2) by (intro exI [of _ 0]) (auto split: if_splits)
  next
    case False
    then obtain k where "stop (at k (step s))" "\<forall>j<k. \<not> stop (at j (step s)) \<and> \<not> matches (at j (step s))"
      using less.hyps [of "step s" "pos + 1"] loop_step [OF less.prems(1), of pos] good_step left_step less.prems by auto
    then show ?thesis using False by (intro exI [of _ "Suc k"]) (auto simp: less_Suc_eq_0_disj)
  qed
qed

end

lemma tolower_zero: "ngx_tolower c = 0 \<longleftrightarrow> c = 0"
proof -
  have "list_all (\<lambda>c. ngx_tolower c = 0 \<longleftrightarrow> c = 0) u8_all"
    by (simp add: u8_all_def ngx_tolower_def word_le_nat_alt)
  then show ?thesis by (rule u8_allI)
qed

text \<open>Two strings of \<open>n\<close> bytes compare equal when their lower-cased bytes are the same.\<close>

lemma strncasecmp_zero:
  "n \<le> length s1 \<Longrightarrow> n \<le> length s2 \<Longrightarrow> 0 \<notin> set (take n s2) \<Longrightarrow>
     \<exists>r. ngx_strncasecmp s1 s2 n = Some r \<and> (r = 0 \<longleftrightarrow> map ngx_tolower (take n s1) = map ngx_tolower (take n s2))"
proof (induction s1 s2 n rule: ngx_strncasecmp.induct)
  case (2 c1 s1 c2 s2 n)
  have nz: "ngx_tolower c2 \<noteq> 0" using 2(4) by (simp add: tolower_zero)
  show ?case
  proof (cases "ngx_tolower c1 = ngx_tolower c2")
    case True
    then show ?thesis using 2 nz by simp
  next
    case False
    then show ?thesis by (simp add: word_uint_eq_iff)
  qed
qed auto

lemma strncmp_zero:
  "n \<le> length s2 \<Longrightarrow> 0 \<notin> set (take n s2) \<Longrightarrow> 0 \<in> set s1 \<Longrightarrow>
     \<exists>r. strncmp s1 s2 n = Some r \<and> (r = 0 \<longleftrightarrow> take n s1 = take n s2)"
proof (induction s1 s2 n rule: strncmp.induct)
  case (2 c1 s1 c2 s2 n)
  then show ?case by (cases "c1 = c2") (auto simp: word_uint_eq_iff)
qed auto

text \<open>The state of a search: the text from \<open>s1\<close> on and, for the bounded one, how far it may go.\<close>

definition lcase_match :: "u8 \<Rightarrow> bytes \<Rightarrow> bytes \<Rightarrow> bool" where
  "lcase_match c2 s2 s1 \<longleftrightarrow> s1 \<noteq> [] \<and> map ngx_tolower (take (Suc (length s2)) s1) = map ngx_tolower (c2 # s2)"

definition exact_match :: "u8 \<Rightarrow> bytes \<Rightarrow> bytes \<Rightarrow> bool" where
  "exact_match c2 s2 s1 \<longleftrightarrow> take (Suc (length s2)) s1 = c2 # s2"

definition lcase_step :: "(u8 \<times> bytes) \<times> bytes \<times> nat \<Rightarrow> (u8 \<times> bytes) \<times> bytes \<times> nat" where
  "lcase_step = (\<lambda>(pattern, s1, room). (pattern, tl s1, room - 1))"

definition exact_step :: "(u8 \<times> bytes) \<times> bytes \<Rightarrow> (u8 \<times> bytes) \<times> bytes" where
  "exact_step = (\<lambda>(pattern, s1). (pattern, tl s1))"

interpretation strlcasestrn: search_loop
  "\<lambda>(pattern, s1, room). strlcasestrn_loop (ngx_tolower (fst pattern)) (snd pattern) (length (snd pattern)) s1 room"
  "\<lambda>(pattern, s1, room). room = 0"
  "\<lambda>(pattern, s1, room). lcase_match (fst pattern) (snd pattern) s1"
  "\<lambda>(pattern, s1, room). room + length (snd pattern) \<le> length s1 \<and> 0 \<notin> set (snd pattern)"
  lcase_step
  "\<lambda>(pattern, s1, room). room"
proof (unfold_locales, goal_cases)
  case (1 s pos)
  obtain c2 s2 s1 room where s: "s = ((c2, s2), s1, room)" by (metis prod.collapse)
  show ?case
  proof (cases room)
    case 0
    then show ?thesis by (simp add: s)
  next
    case (Suc r)
    then obtain c1 t where t: "s1 = c1 # t" using 1 s by (cases s1) auto
    obtain x where "ngx_strncasecmp t s2 (length s2) = Some x"
      "x = 0 \<longleftrightarrow> map ngx_tolower (take (length s2) t) = map ngx_tolower (take (length s2) s2)"
      using strncasecmp_zero [of "length s2" t s2] 1 s t Suc by auto
    then show ?thesis using s t Suc by (auto simp: lcase_match_def lcase_step_def)
  qed
qed (auto simp: lcase_step_def split: prod.splits)

interpretation strstrn: search_loop
  "\<lambda>(pattern, s1). strstrn_loop (fst pattern) (snd pattern) (length (snd pattern)) s1"
  "\<lambda>(pattern, s1). hd s1 = 0"
  "\<lambda>(pattern, s1). exact_match (fst pattern) (snd pattern) s1"
  "\<lambda>(pattern, s1). 0 \<in> set s1 \<and> 0 \<notin> set (snd pattern)"
  exact_step
  "\<lambda>(pattern, s1). length s1"
proof (unfold_locales, goal_cases)
  case (1 s pos)
  obtain c2 s2 s1 where s: "s = ((c2, s2), s1)" by (metis prod.collapse)
  then obtain c1 t where t: "s1 = c1 # t" using 1 by (cases s1) auto
  show ?case
  proof (cases "c1 = 0")
    case False
    then obtain x where "strncmp t s2 (length s2) = Some x" "x = 0 \<longleftrightarrow> take (length s2) t = take (length s2) s2"
      using strncmp_zero [of "length s2" s2 t] 1 s t by auto
    then show ?thesis using s t False by (auto simp: exact_match_def exact_step_def)
  qed (simp add: s t)
next
  case (2 s)
  then show ?case by (auto simp: exact_step_def split: prod.splits) (metis list.sel(1,3) list.set_cases)
next
  case (3 s)
  then show ?case by (auto simp: exact_step_def split: prod.splits dest!: length_pos_if_in_set)
qed

lemma strlcase_at:
  "strlcasestrn.at i (pattern, s1, room) = (pattern, drop i s1, room - i)"
proof (induction i arbitrary: s1 room)
  case (Suc i)
  have "lcase_step (pattern, s1, room) = (pattern, tl s1, room - 1)" by (simp add: lcase_step_def)
  then show ?case by (simp add: Suc drop_Suc)
qed simp

lemma strstrn_at: "strstrn.at i (pattern, s1) = (pattern, drop i s1)"
proof (induction i arbitrary: s1)
  case (Suc i)
  have "exact_step (pattern, s1) = (pattern, tl s1)" by (simp add: exact_step_def)
  then show ?case by (simp add: Suc drop_Suc)
qed simp

definition first_lcase :: "u8 \<Rightarrow> bytes \<Rightarrow> bytes \<Rightarrow> nat option \<Rightarrow> bool" where
  "first_lcase c2 s2 s1 r \<longleftrightarrow>
     (case r of
        None \<Rightarrow> \<forall>i. i + length s2 < length s1 \<longrightarrow> \<not> lcase_match c2 s2 (drop i s1)
      | Some i \<Rightarrow> i + length s2 < length s1 \<and> lcase_match c2 s2 (drop i s1) \<and>
          (\<forall>j<i. \<not> lcase_match c2 s2 (drop j s1)))"

definition first_exact :: "u8 \<Rightarrow> bytes \<Rightarrow> bytes \<Rightarrow> nat option \<Rightarrow> bool" where
  "first_exact c2 s2 s1 r \<longleftrightarrow>
     (case r of
        None \<Rightarrow> \<exists>k. hd (drop k s1) = 0 \<and> (\<forall>i<k. hd (drop i s1) \<noteq> 0 \<and> \<not> exact_match c2 s2 (drop i s1))
      | Some i \<Rightarrow> exact_match c2 s2 (drop i s1) \<and> (\<forall>j\<le>i. hd (drop j s1) \<noteq> 0) \<and>
          (\<forall>j<i. \<not> exact_match c2 s2 (drop j s1)))"

text \<open>
  the searches find the first occurrence: \<open>ngx_strlcasestrn\<close>, called with the length of the pattern
  minus one, answers the first position inside the text where the pattern stands in any case of its
  letters, or the null pointer when there is none; \<open>ngx_strstrn\<close> the first position before the
  terminating zero where exactly the pattern stands.
\<close>

lemma searches_find_the_first:
  assumes "0 \<notin> set s2" "0 \<in> set t1"
  shows "\<exists>r q. ngx_strlcasestrn s1 (c2 # s2) (length s2) = Some r \<and> first_lcase c2 s2 s1 r \<and>
     ngx_strstrn t1 (c2 # s2) (length s2) = Some q \<and> first_exact c2 s2 t1 q"
proof -
  let ?s = "((c2, s2), s1, length s1 - length s2)" and ?t = "((c2, s2), t1)"
  have s: "\<exists>r. ngx_strlcasestrn s1 (c2 # s2) (length s2) = Some r \<and> first_lcase c2 s2 s1 r"
  proof (cases "length s2 \<le> length s1")
    case False
    then show ?thesis by (simp add: ngx_strlcasestrn_def first_lcase_def)
  next
    case True
    then have good: "case ?s of (pattern, s1, room) \<Rightarrow> room + length (snd pattern) \<le> length s1 \<and> 0 \<notin> set (snd pattern)"
      using assms(1) by simp
    obtain r where r: "ngx_strlcasestrn s1 (c2 # s2) (length s2) = Some r"
      using strlcasestrn.loop_total [OF good, of 0] by (auto simp: ngx_strlcasestrn_def)
    have "first_lcase c2 s2 s1 r"
    proof (cases r)
      case None
      then obtain k where "length s1 \<le> length s2 + k" "\<forall>j<k. \<not> length s1 \<le> length s2 + j \<and> \<not> lcase_match c2 s2 (drop j s1)"
        using strlcasestrn.loop_missed [OF good, of 0] r by (auto simp: ngx_strlcasestrn_def strlcase_at)
      then show ?thesis by (auto simp: None first_lcase_def)
    next
      case (Some i)
      then have "lcase_match c2 s2 (drop i s1)" "\<forall>j\<le>i. \<not> length s1 - length s2 \<le> j" "\<forall>j<i. \<not> lcase_match c2 s2 (drop j s1)"
        using strlcasestrn.loop_found [OF good, of 0 i] r by (auto simp: ngx_strlcasestrn_def strlcase_at)
      then show ?thesis by (auto simp: Some first_lcase_def)
    qed
    then show ?thesis using r by blast
  qed
  have good: "case ?t of (pattern, s1) \<Rightarrow> 0 \<in> set s1 \<and> 0 \<notin> set (snd pattern)" using assms by simp
  obtain q where q: "ngx_strstrn t1 (c2 # s2) (length s2) = Some q"
    using strstrn.loop_total [OF good, of 0] by (auto simp: ngx_strstrn_def)
  have "first_exact c2 s2 t1 q"
    using strstrn.loop_missed [OF good, of 0] strstrn.loop_found [OF good, of 0] q
    by (cases q) (auto simp: first_exact_def ngx_strstrn_def strstrn_at)
  with s q show ?thesis by blast
qed

lemma searches_find_the_first_witness:
  "\<exists>r. ngx_strlcasestrn (asc ''GZip, Deflate'') (asc ''deflate'') (Suc (Suc (Suc (Suc (Suc (Suc 0)))))) = Some r \<and>
     first_lcase (of_char CHR ''d'') (asc ''eflate'') (asc ''GZip, Deflate'') r"
  using searches_find_the_first [of "asc ''eflate''" "[0]" "asc ''GZip, Deflate''" "of_char CHR ''d''"]
  by auto

end
