(* ===== verification/Ngx_Sort.thy ===== *)
theory Ngx_Sort
  imports Ngx_String "HOL-Library.Multiset"
begin

text \<open>
  The two insertion sorts: \<open>ngx_sort\<close> of \<open>src/core/ngx_string.c\<close> on an array and \<open>ngx_queue_sort\<close> of
  \<open>src/core/ngx_queue.c\<close> on a linked list, with \<open>ngx_queue_middle\<close>.  Both take a comparison function; the
  locale \<open>comparison\<close> states what they need of it, and proves once that the result is the input in order,
  with elements that compare alike kept in their places.  A queue is the list of its elements; theory
  \<open>Ngx_Queue\<close> relates that list to the links.
\<close>

subsection \<open>The sorts\<close>

text \<open>The inner loop on the array: \<open>p2\<close> goes down from \<open>j\<close> while the element before it is greater than \<open>p\<close>.\<close>

fun sort_shift :: "('a \<Rightarrow> 'a \<Rightarrow> int) \<Rightarrow> 'a \<Rightarrow> 'a list \<Rightarrow> nat \<Rightarrow> 'a list" where
  "sort_shift cmp p a 0 = a[0 := p]"
| "sort_shift cmp p a (Suc j) =
     (if cmp (a ! j) p > 0 then sort_shift cmp p (a[Suc j := a ! j]) j else a[Suc j := p])"

fun sort_outer :: "('a \<Rightarrow> 'a \<Rightarrow> int) \<Rightarrow> 'a list \<Rightarrow> nat \<Rightarrow> nat \<Rightarrow> 'a list" where
  "sort_outer cmp a p1 0 = a"
| "sort_outer cmp a p1 (Suc n) = sort_outer cmp (sort_shift cmp (a ! p1) a p1) (p1 + 1) n"

definition ngx_sort :: "('a \<Rightarrow> 'a \<Rightarrow> int) \<Rightarrow> 'a list \<Rightarrow> 'a list" where
  "ngx_sort cmp a = sort_outer cmp a 1 (length a - 1)"

text \<open>
  In the queue the elements before \<open>q\<close> are kept the last one first, as \<open>prev\<close> visits them; the \<open>do\<close> loop
  stops behind the first one that is not greater than \<open>q\<close>, or at the sentinel.
\<close>

fun queue_insert :: "('a \<Rightarrow> 'a \<Rightarrow> int) \<Rightarrow> 'a \<Rightarrow> 'a list \<Rightarrow> 'a list" where
  "queue_insert cmp q [] = [q]"
| "queue_insert cmp q (prev # before) =
     (if cmp prev q \<le> 0 then q # prev # before else prev # queue_insert cmp q before)"

fun queue_sort_loop :: "('a \<Rightarrow> 'a \<Rightarrow> int) \<Rightarrow> 'a list \<Rightarrow> 'a list \<Rightarrow> 'a list" where
  "queue_sort_loop cmp before [] = rev before"
| "queue_sort_loop cmp before (q # queue) = queue_sort_loop cmp (queue_insert cmp q before) queue"

definition ngx_queue_sort :: "('a \<Rightarrow> 'a \<Rightarrow> int) \<Rightarrow> 'a list \<Rightarrow> 'a list" where
  "ngx_queue_sort cmp queue =
     (case queue of [] \<Rightarrow> [] | [q] \<Rightarrow> [q] | q # rest \<Rightarrow> queue_sort_loop cmp [q] rest)"

text \<open>
  \<open>ngx_queue_middle\<close> on a queue of \<open>n\<close> elements, the positions of \<open>middle\<close> and \<open>next\<close>: the first goes one
  element at a time, the other two, until it stands on the last.
\<close>

function queue_middle_loop :: "nat \<Rightarrow> nat \<Rightarrow> nat \<Rightarrow> nat" where
  "queue_middle_loop n middle nxt =
     (if nxt + 1 \<ge> n then middle + 1
      else if nxt + 2 = n then middle + 1
      else if nxt + 3 = n then middle + 1
      else queue_middle_loop n (middle + 1) (nxt + 2))"
  by pat_completeness auto
termination by (relation "measure (\<lambda>(n, middle, nxt). n - nxt)") auto

declare queue_middle_loop.simps [simp del]

definition ngx_queue_middle :: "nat \<Rightarrow> nat" where
  "ngx_queue_middle n = (if n = 1 then 0 else queue_middle_loop n 0 0)"

lemma queue_middle_half: "0 < n \<Longrightarrow> ngx_queue_middle n = n div 2"
proof -
  have loop: "nxt = 2 * middle \<Longrightarrow> nxt + 1 < n \<Longrightarrow> queue_middle_loop n middle nxt = n div 2" for middle nxt
  proof (induction n middle nxt rule: queue_middle_loop.induct)
    case (1 n middle nxt)
    show ?case
    proof (cases "nxt + 3 < n")
      case True
      then show ?thesis using 1 queue_middle_loop.simps [of n middle nxt] by simp
    next
      case False
      then have "n = nxt + 2 \<or> n = nxt + 3" using 1(3) by linarith
      then show ?thesis using 1(2) by (subst queue_middle_loop.simps) auto
    qed
  qed
  show "0 < n \<Longrightarrow> ngx_queue_middle n = n div 2"
    using loop [of 0 0] by (cases "n = 1") (simp_all add: ngx_queue_middle_def)
qed

subsection \<open>What a comparison must be\<close>

text \<open>
  On the elements of \<open>A\<close>, "not greater" is total and transitive.  Nothing more is asked: a comparison may
  answer zero one way round and a positive number the other way round.
\<close>

locale comparison =
  fixes cmp :: "'a \<Rightarrow> 'a \<Rightarrow> int" and A :: "'a set"
  assumes cmp_total: "x \<in> A \<Longrightarrow> y \<in> A \<Longrightarrow> cmp x y \<le> 0 \<or> cmp y x \<le> 0"
    and cmp_trans: "x \<in> A \<Longrightarrow> y \<in> A \<Longrightarrow> z \<in> A \<Longrightarrow> cmp x y \<le> 0 \<Longrightarrow> cmp y z \<le> 0 \<Longrightarrow> cmp x z \<le> 0"
begin

abbreviation in_order :: "'a list \<Rightarrow> bool" where
  "in_order \<equiv> sorted_wrt (\<lambda>x y. cmp x y \<le> 0)"

definition alike :: "'a \<Rightarrow> 'a \<Rightarrow> bool" where
  "alike x y \<longleftrightarrow> cmp x y \<le> 0 \<and> cmp y x \<le> 0"

lemma queue_insert_mset: "mset (queue_insert cmp q before) = add_mset q (mset before)"
  by (induction before) auto

lemma queue_insert_set: "set (queue_insert cmp q before) = insert q (set before)"
  by (induction before) auto

lemma queue_insert_order:
  "q \<in> A \<Longrightarrow> set before \<subseteq> A \<Longrightarrow> in_order (rev before) \<Longrightarrow> in_order (rev (queue_insert cmp q before))"
proof (induction before)
  case (Cons p before)
  show ?case
  proof (cases "cmp p q \<le> 0")
    case True
    have "cmp x q \<le> 0" if "x \<in> set before" for x
      using Cons.prems True that by (intro cmp_trans [of x p q]) (auto simp: sorted_wrt_append)
    then show ?thesis using Cons.prems True by (simp add: sorted_wrt_append)
  next
    case False
    then have "cmp q p \<le> 0" using cmp_total [of p q] Cons.prems by auto
    then show ?thesis using False Cons by (auto simp: sorted_wrt_append queue_insert_set)
  qed
qed simp

lemma queue_insert_alike:
  "q \<in> A \<Longrightarrow> set before \<subseteq> A \<Longrightarrow> in_order (rev before) \<Longrightarrow>
     filter (alike x) (queue_insert cmp q before) = filter (alike x) (q # before)" if "x \<in> A" for x
proof (induction before)
  case (Cons p before)
  have "\<not> alike x p" if "alike x q" "\<not> cmp p q \<le> 0"
    using that cmp_trans [of p x q] Cons.prems \<open>x \<in> A\<close> by (auto simp: alike_def)
  then show ?case using Cons by (auto simp: sorted_wrt_append)
qed simp

lemma queue_sort_loop_order:
  "set before \<subseteq> A \<Longrightarrow> set queue \<subseteq> A \<Longrightarrow> in_order (rev before) \<Longrightarrow> in_order (queue_sort_loop cmp before queue)"
  by (induction queue arbitrary: before) (simp_all add: queue_insert_order queue_insert_set)

lemma queue_sort_loop_mset: "mset (queue_sort_loop cmp before queue) = mset before + mset queue"
  by (induction queue arbitrary: before) (simp_all add: queue_insert_mset)

lemma queue_sort_loop_alike:
  "x \<in> A \<Longrightarrow> set before \<subseteq> A \<Longrightarrow> set queue \<subseteq> A \<Longrightarrow> in_order (rev before) \<Longrightarrow>
     filter (alike x) (queue_sort_loop cmp before queue) = filter (alike x) (rev before @ queue)"
proof (induction queue arbitrary: before)
  case (Cons q queue)
  have "filter (alike x) (rev (queue_insert cmp q before)) = filter (alike x) (rev (q # before))"
    using queue_insert_alike [of x q before] Cons.prems by (simp add: rev_filter [symmetric] del: rev.simps)
  then show ?case using Cons by (simp add: queue_insert_order queue_insert_set)
qed simp

lemma queue_sort_eq_loop: "ngx_queue_sort cmp queue = (case queue of [] \<Rightarrow> [] | q # rest \<Rightarrow> queue_sort_loop cmp [q] rest)"
  by (simp add: ngx_queue_sort_def split: list.splits)

lemma queue_sort_mset: "mset (ngx_queue_sort cmp queue) = mset queue"
  by (simp add: queue_sort_eq_loop queue_sort_loop_mset split: list.splits)

lemma queue_sort_set: "set (ngx_queue_sort cmp queue) = set queue"
  using queue_sort_mset [of queue] by (metis set_mset_mset)

lemma queue_sort_order: "set queue \<subseteq> A \<Longrightarrow> in_order (ngx_queue_sort cmp queue)"
  by (cases queue) (simp_all add: queue_sort_eq_loop queue_sort_loop_order)

lemma queue_sort_stable:
  "x \<in> A \<Longrightarrow> set queue \<subseteq> A \<Longrightarrow> filter (alike x) (ngx_queue_sort cmp queue) = filter (alike x) queue"
  by (cases queue) (simp_all add: queue_sort_eq_loop queue_sort_loop_alike)

end

subsection \<open>The array sort does what the queue sort does\<close>

text \<open>The elements before \<open>p1\<close>, the last one first, and the rest of the array.\<close>

lemma sort_shift_insert:
  "j < length a \<Longrightarrow> sort_shift cmp p a j = rev (queue_insert cmp p (rev (take j a))) @ drop (Suc j) a"
proof (induction j arbitrary: a)
  case 0
  then show ?case by (cases a) simp_all
next
  case (Suc j)
  have t: "rev (take (Suc j) a) = a ! j # rev (take j a)" using Suc.prems by (simp add: take_Suc_conv_app_nth)
  show ?case
  proof (cases "cmp (a ! j) p > 0")
    case True
    have "drop (Suc j) (a[Suc j := a ! j]) = a ! j # drop (Suc (Suc j)) a"
      using Suc.prems by (simp add: Cons_nth_drop_Suc [symmetric] nth_list_update drop_update_cancel)
    then show ?thesis using True Suc t by simp
  next
    case False
    have "a[Suc j := p] = take (Suc j) a @ p # drop (Suc (Suc j)) a" using Suc.prems by (rule upd_conv_take_nth_drop)
    then show ?thesis using False t Suc.prems by (simp add: take_Suc_conv_app_nth)
  qed
qed

lemma queue_insert_length: "length (queue_insert cmp q before) = Suc (length before)"
  by (induction before) auto

lemma sort_outer_loop:
  "sort_outer cmp (rev before @ queue) (length before) (length queue) = queue_sort_loop cmp before queue"
proof (induction queue arbitrary: before)
  case (Cons q queue)
  have "sort_shift cmp q (rev before @ q # queue) (length before) = rev (queue_insert cmp q before) @ queue"
    by (subst sort_shift_insert) simp_all
  then show ?case using Cons [of "queue_insert cmp q before"] by (simp add: queue_insert_length nth_append)
qed simp

lemma ngx_sort_queue_sort: "ngx_sort cmp a = ngx_queue_sort cmp a"
proof (cases a)
  case (Cons q rest)
  then show ?thesis
    using sort_outer_loop [of cmp "[q]" rest] by (simp add: ngx_sort_def ngx_queue_sort_def split: list.split)
qed (simp add: ngx_sort_def ngx_queue_sort_def)

subsection \<open>Names of servers with wildcards\<close>

text \<open>
  \<open>ngx_http_cmp_dns_wildcards\<close> of \<open>src/http/ngx_http.c\<close> on the names of the keys, which end with a zero;
  the readers of the configuration make names without spaces.
\<close>

definition ngx_http_cmp_dns_wildcards :: "bytes \<Rightarrow> bytes \<Rightarrow> int" where
  "ngx_http_cmp_dns_wildcards one two =
     (case ngx_dns_strcmp (one @ [0]) (two @ [0]) of Some r \<Rightarrow> r | None \<Rightarrow> 0)"

definition dns_names :: "bytes set" where
  "dns_names = {s. list_all (\<lambda>c. c \<noteq> 0 \<and> c \<noteq> c_SP) s}"

text \<open>The rank of a byte: lower case, and the dot before every other byte of a name.\<close>

definition dns_rank :: "u8 \<Rightarrow> nat" where
  "dns_rank c = (let c = ngx_tolower c in if c = c_dot then 32 else unat c)"

definition dns_key :: "bytes \<Rightarrow> nat list" where
  "dns_key s = map dns_rank s"

lemma dns_rank_facts:
  "c \<noteq> c_SP \<Longrightarrow> d \<noteq> c_SP \<Longrightarrow> dns_rank c = dns_rank d \<longleftrightarrow> ngx_tolower c = ngx_tolower d"
  "c \<noteq> 0 \<Longrightarrow> 0 < dns_rank c" "dns_rank 0 = 0" "ngx_tolower c = c_SP \<longleftrightarrow> c = c_SP"
proof -
  have "list_all (\<lambda>c. (ngx_tolower c = c_SP \<longleftrightarrow> c = c_SP) \<and> (c \<noteq> 0 \<longrightarrow> 0 < dns_rank c)) u8_all"
    by (simp add: u8_all_def ngx_tolower_def word_le_nat_alt dns_rank_def)
  from u8_allI [OF this] show sp: "ngx_tolower c = c_SP \<longleftrightarrow> c = c_SP" and "c \<noteq> 0 \<Longrightarrow> 0 < dns_rank c" for c
    by auto
  show "dns_rank 0 = 0" by (simp add: dns_rank_def ngx_tolower_def)
  show "c \<noteq> c_SP \<Longrightarrow> d \<noteq> c_SP \<Longrightarrow> dns_rank c = dns_rank d \<longleftrightarrow> ngx_tolower c = ngx_tolower d"
    using sp [of c] sp [of d]
    by (auto simp: dns_rank_def Let_def word_unat_eq_iff)
qed

lemma dns_strcmp_key:
  "s \<in> dns_names \<Longrightarrow> t \<in> dns_names \<Longrightarrow>
     \<exists>r. ngx_dns_strcmp (s @ [0]) (t @ [0]) = Some r \<and> (r \<le> 0 \<longleftrightarrow> dns_key s \<le> dns_key t)"
proof (induction s arbitrary: t)
  case Nil
  have z: "ngx_tolower 0 = 0" by (simp add: ngx_tolower_def)
  show ?case
  proof (cases t)
    case Nil
    then show ?thesis using z by (simp add: dns_key_def)
  next
    case (Cons d t')
    then have "ngx_tolower d \<noteq> 0" using Nil.prems by (auto simp: dns_names_def tolower_zero)
    then show ?thesis using Cons z by (auto simp: dns_key_def Let_def word_uint_eq_iff)
  qed
next
  case (Cons c s)
  have z: "ngx_tolower 0 = 0" by (simp add: ngx_tolower_def)
  have c: "c \<noteq> 0" "c \<noteq> c_SP" "s \<in> dns_names" using Cons.prems by (auto simp: dns_names_def)
  show ?case
  proof (cases t)
    case Nil
    have "uint (if ngx_tolower c = c_dot then c_SP else ngx_tolower c) = int (dns_rank c)"
      by (simp add: dns_rank_def Let_def)
    then have "0 < uint (if ngx_tolower c = c_dot then c_SP else ngx_tolower c)"
      using dns_rank_facts(2) [OF c(1)] by simp
    then show ?thesis using Nil c by (simp add: z dns_key_def Let_def tolower_zero)
  next
    case (Cons d t')
    then have d: "d \<noteq> 0" "d \<noteq> c_SP" "t' \<in> dns_names" using Cons.prems by (auto simp: dns_names_def)
    show ?thesis
    proof (cases "ngx_tolower c = ngx_tolower d")
      case True
      then have "dns_rank c = dns_rank d" by (simp add: dns_rank_def)
      then show ?thesis using True Cons c d Cons.IH [of t'] by (auto simp: dns_key_def Let_def tolower_zero)
    next
      case False
      let ?l = "\<lambda>c. if ngx_tolower c = c_dot then c_SP else ngx_tolower c"
      have "dns_rank c \<noteq> dns_rank d" using dns_rank_facts(1) c d False by blast
      moreover have "uint (?l c) = int (dns_rank c)" "uint (?l d) = int (dns_rank d)" by (simp_all add: dns_rank_def Let_def)
      ultimately show ?thesis using False Cons by (auto simp: dns_key_def Let_def)
    qed
  qed
qed

interpretation dns_wildcards: comparison ngx_http_cmp_dns_wildcards dns_names
proof
  have key: "ngx_http_cmp_dns_wildcards s t \<le> 0 \<longleftrightarrow> dns_key s \<le> dns_key t" if "s \<in> dns_names" "t \<in> dns_names" for s t
    using dns_strcmp_key [OF that] by (auto simp: ngx_http_cmp_dns_wildcards_def)
  show "ngx_http_cmp_dns_wildcards s t \<le> 0 \<or> ngx_http_cmp_dns_wildcards t s \<le> 0" if "s \<in> dns_names" "t \<in> dns_names" for s t
    using key that by (auto simp: linear)
  show "ngx_http_cmp_dns_wildcards s u \<le> 0"
    if "s \<in> dns_names" "t \<in> dns_names" "u \<in> dns_names" "ngx_http_cmp_dns_wildcards s t \<le> 0" "ngx_http_cmp_dns_wildcards t u \<le> 0" for s t u
    using key that by (metis order_trans)
qed

subsection \<open>What is sorted\<close>

text \<open>The SRV records of the resolver, \<open>src/core/ngx_resolver.h\<close> and \<open>ngx_resolver_cmp_srvs\<close>.\<close>

record ngx_resolver_srv =
  srv_name :: bytes
  srv_priority :: "16 word"
  srv_weight :: "16 word"
  srv_port :: "16 word"

definition ngx_resolver_cmp_srvs :: "ngx_resolver_srv \<Rightarrow> ngx_resolver_srv \<Rightarrow> int" where
  "ngx_resolver_cmp_srvs one two = uint (srv_priority one) - uint (srv_priority two)"

text \<open>The listening addresses of a port, \<open>ngx_http_cmp_conf_addrs\<close> of \<open>src/http/ngx_http.c\<close>.\<close>

record ngx_http_conf_addr =
  addr_name :: bytes
  addr_wildcard :: bool
  addr_bind :: bool

definition ngx_http_cmp_conf_addrs :: "ngx_http_conf_addr \<Rightarrow> ngx_http_conf_addr \<Rightarrow> int" where
  "ngx_http_cmp_conf_addrs one two =
     (if addr_wildcard one then 1
      else if addr_wildcard two then -1
      else if addr_bind one \<and> \<not> addr_bind two then -1
      else if \<not> addr_bind one \<and> addr_bind two then 1
      else 0)"

interpretation srvs: comparison ngx_resolver_cmp_srvs UNIV
  by unfold_locales (auto simp: ngx_resolver_cmp_srvs_def)

interpretation conf_addrs: comparison ngx_http_cmp_conf_addrs "{a. \<not> addr_wildcard a}"
  by unfold_locales (auto simp: ngx_http_cmp_conf_addrs_def split: if_splits)

lemma srvs_alike: "srvs.alike (x :: ngx_resolver_srv) = (\<lambda>y. srv_priority x = srv_priority y)"
  by (intro ext) (auto simp: srvs.alike_def ngx_resolver_cmp_srvs_def word_uint_eq_iff)

text \<open>
  \<open>ngx_sort\<close> leaves the SRV records of a name in the order of their priorities, drops and doubles
  none, and keeps the records of one priority in the order in which they came.
\<close>

lemma srvs_sorted:
  "sorted_wrt (\<lambda>x y. uint (srv_priority x) \<le> uint (srv_priority y)) (ngx_sort ngx_resolver_cmp_srvs srvs) \<and>
   mset (ngx_sort ngx_resolver_cmp_srvs srvs) = mset srvs \<and>
   filter (\<lambda>y. srv_priority (x :: ngx_resolver_srv) = srv_priority y) (ngx_sort ngx_resolver_cmp_srvs srvs) =
     filter (\<lambda>y. srv_priority x = srv_priority y) srvs"
  using srvs.queue_sort_order [of srvs] srvs.queue_sort_mset [of srvs] srvs.queue_sort_stable [of x srvs]
  by (simp add: ngx_sort_queue_sort srvs_alike ngx_resolver_cmp_srvs_def)

text \<open>An address without the wildcard never stands behind one that is not bound while it is.\<close>

lemma conf_addrs_sorted:
  "set addrs \<subseteq> {a. \<not> addr_wildcard a} \<Longrightarrow>
     sorted_wrt (\<lambda>x y. addr_bind y \<longrightarrow> addr_bind x) (ngx_sort ngx_http_cmp_conf_addrs addrs)"
  using conf_addrs.queue_sort_order [of addrs] conf_addrs.queue_sort_set [of addrs]
  by (auto simp: ngx_sort_queue_sort ngx_http_cmp_conf_addrs_def elim!: sorted_wrt_mono_rel [rotated] split: if_splits)

end
