(* ===== verification/Ngx_Queue.thy ===== *)
theory Ngx_Queue
  imports Ngx_Sort
begin

text \<open>
  The circular doubly linked queue of \<open>src/core/ngx_queue.h\<close> and \<open>src/core/ngx_queue.c\<close> on an explicit
  store of links.  Addresses are numbers; a queue is its sentinel \<open>h\<close>.  Every macro is a sequence of
  assignments in the order of the source.  \<open>is_queue st h xs\<close> says that the links of \<open>st\<close> spell the list \<open>xs\<close>;
  the lemmas show that each operation changes the list as its name says and leaves other queues alone,
  and that the sort on links is the sort on lists of theory \<open>Ngx_Sort\<close>.
\<close>

subsection \<open>Links\<close>

type_synonym addr = nat

record links =
  prev :: "addr \<Rightarrow> addr"
  "next" :: "addr \<Rightarrow> addr"

definition set_prev :: "addr \<Rightarrow> addr \<Rightarrow> links \<Rightarrow> links" where
  "set_prev x p st = st\<lparr>prev := (prev st)(x := p)\<rparr>"

definition set_next :: "addr \<Rightarrow> addr \<Rightarrow> links \<Rightarrow> links" where
  "set_next x n st = st\<lparr>next := (next st)(x := n)\<rparr>"

lemma links_simps [simp]:
  "prev (set_prev x p st) = (prev st)(x := p)" "next (set_prev x p st) = next st"
  "next (set_next x n st) = (next st)(x := n)" "prev (set_next x n st) = prev st"
  by (simp_all add: set_prev_def set_next_def)

subsection \<open>The macros\<close>

definition ngx_queue_init :: "addr \<Rightarrow> links \<Rightarrow> links" where
  "ngx_queue_init q st = set_next q q (set_prev q q st)"

definition ngx_queue_empty :: "addr \<Rightarrow> links \<Rightarrow> bool" where
  "ngx_queue_empty h st \<longleftrightarrow> h = prev st h"

definition ngx_queue_insert_head :: "addr \<Rightarrow> addr \<Rightarrow> links \<Rightarrow> links" where
  "ngx_queue_insert_head h x st =
     (let st = set_next x (next st h) st;
          st = set_prev (next st x) x st;
          st = set_prev x h st
      in set_next h x st)"

definition ngx_queue_insert_tail :: "addr \<Rightarrow> addr \<Rightarrow> links \<Rightarrow> links" where
  "ngx_queue_insert_tail h x st =
     (let st = set_prev x (prev st h) st;
          st = set_next (prev st x) x st;
          st = set_next x h st
      in set_prev h x st)"

definition ngx_queue_remove :: "addr \<Rightarrow> links \<Rightarrow> links" where
  "ngx_queue_remove x st =
     (let st = set_prev (next st x) (prev st x) st
      in set_next (prev st x) (next st x) st)"

definition ngx_queue_split :: "addr \<Rightarrow> addr \<Rightarrow> addr \<Rightarrow> links \<Rightarrow> links" where
  "ngx_queue_split h q n st =
     (let st = set_prev n (prev st h) st;
          st = set_next (prev st n) n st;
          st = set_next n q st;
          st = set_prev h (prev st q) st;
          st = set_next (prev st h) h st
      in set_prev q n st)"

definition ngx_queue_add :: "addr \<Rightarrow> addr \<Rightarrow> links \<Rightarrow> links" where
  "ngx_queue_add h n st =
     (let st = set_next (prev st h) (next st n) st;
          st = set_prev (next st n) (prev st h) st;
          st = set_prev h (prev st n) st
      in set_next (prev st h) h st)"

subsection \<open>The functions\<close>

text \<open>\<open>ngx_queue_sort\<close>: the inner loop finds where to insert, the outer one takes one element after the other.\<close>

fun queue_sort_back :: "nat \<Rightarrow> (addr \<Rightarrow> addr \<Rightarrow> int) \<Rightarrow> addr \<Rightarrow> addr \<Rightarrow> addr \<Rightarrow> links \<Rightarrow> addr option" where
  "queue_sort_back 0 cmp h q p st = None"
| "queue_sort_back (Suc fuel) cmp h q p st =
     (if cmp p q \<le> 0 then Some p
      else if prev st p \<noteq> h then queue_sort_back fuel cmp h q (prev st p) st
      else Some (prev st p))"

fun queue_sort_links_loop :: "nat \<Rightarrow> (addr \<Rightarrow> addr \<Rightarrow> int) \<Rightarrow> addr \<Rightarrow> addr \<Rightarrow> links \<Rightarrow> links option" where
  "queue_sort_links_loop 0 cmp h q st = None"
| "queue_sort_links_loop (Suc fuel) cmp h q st =
     (if q = h then Some st
      else
        (let p = prev st q; n = next st q; st = ngx_queue_remove q st in
         case queue_sort_back fuel cmp h q p st of
           None \<Rightarrow> None
         | Some p \<Rightarrow> queue_sort_links_loop fuel cmp h n (ngx_queue_insert_head p q st)))"

definition queue_sort_links :: "nat \<Rightarrow> (addr \<Rightarrow> addr \<Rightarrow> int) \<Rightarrow> addr \<Rightarrow> links \<Rightarrow> links option" where
  "queue_sort_links fuel cmp h st =
     (if next st h = prev st h then Some st
      else queue_sort_links_loop fuel cmp h (next st (next st h)) st)"

text \<open>\<open>ngx_queue_middle\<close> on the links.\<close>

fun queue_middle_links_loop :: "nat \<Rightarrow> addr \<Rightarrow> addr \<Rightarrow> addr \<Rightarrow> links \<Rightarrow> addr option" where
  "queue_middle_links_loop 0 h middle nxt st = None"
| "queue_middle_links_loop (Suc fuel) h middle nxt st =
     (let middle = next st middle; nxt = next st nxt in
      if nxt = prev st h then Some middle
      else
        (let nxt = next st nxt in
         if nxt = prev st h then Some middle else queue_middle_links_loop fuel h middle nxt st))"

definition queue_middle_links :: "nat \<Rightarrow> addr \<Rightarrow> links \<Rightarrow> addr option" where
  "queue_middle_links fuel h st =
     (let middle = next st h in
      if middle = prev st h then Some middle else queue_middle_links_loop fuel h middle (next st h) st)"

subsection \<open>What the links spell\<close>

fun seg :: "links \<Rightarrow> addr \<Rightarrow> addr list \<Rightarrow> addr \<Rightarrow> bool" where
  "seg st a [] b \<longleftrightarrow> next st a = b \<and> prev st b = a"
| "seg st a (x # xs) b \<longleftrightarrow> next st a = x \<and> prev st x = a \<and> seg st x xs b"

definition is_queue :: "links \<Rightarrow> addr \<Rightarrow> addr list \<Rightarrow> bool" where
  "is_queue st h xs \<longleftrightarrow> seg st h xs h \<and> distinct (h # xs)"

lemma seg_append [simp]: "seg st a (xs @ y # ys) b \<longleftrightarrow> seg st a xs y \<and> seg st y ys b"
  by (induction xs arbitrary: a) auto

lemma seg_first: "seg st a xs b \<Longrightarrow> next st a = hd (xs @ [b])"
  by (cases xs) auto

lemma seg_last: "seg st a xs b \<Longrightarrow> prev st b = last (a # xs)"
  by (induction xs arbitrary: a) auto

text \<open>A segment depends on the forward links of all but its end and the backward links of all but its start.\<close>

lemma seg_frame:
  "seg st a xs b \<Longrightarrow> (\<And>x. x \<in> set (a # xs) \<Longrightarrow> next st' x = next st x) \<Longrightarrow>
     (\<And>x. x \<in> set (xs @ [b]) \<Longrightarrow> prev st' x = prev st x) \<Longrightarrow> seg st' a xs b"
  by (induction xs arbitrary: a) auto

text \<open>Only the links of the elements named change: another queue is left alone.\<close>

definition same_links :: "addr set \<Rightarrow> links \<Rightarrow> links \<Rightarrow> bool" where
  "same_links U st st' \<longleftrightarrow> (\<forall>x. x \<notin> U \<longrightarrow> next st' x = next st x \<and> prev st' x = prev st x)"

lemma same_queue: "same_links U st st' \<Longrightarrow> is_queue st h xs \<Longrightarrow> set (h # xs) \<inter> U = {} \<Longrightarrow> is_queue st' h xs"
  unfolding is_queue_def same_links_def by (elim conjE, intro conjI seg_frame [of st h xs h st']) auto

lemma same_links_trans: "same_links U st st' \<Longrightarrow> same_links U st' st'' \<Longrightarrow> same_links U st st''"
  by (auto simp: same_links_def)

lemma same_links_mono: "same_links U st st' \<Longrightarrow> U \<subseteq> V \<Longrightarrow> same_links V st st'"
  by (auto simp: same_links_def)

lemma queue_init: "is_queue (ngx_queue_init h st) h [] \<and> same_links {h} st (ngx_queue_init h st)"
  by (simp add: is_queue_def ngx_queue_init_def same_links_def)

lemma queue_empty: "is_queue st h xs \<Longrightarrow> ngx_queue_empty h st \<longleftrightarrow> xs = []"
  using seg_last [of st h xs h] by (cases xs rule: rev_cases) (auto simp: is_queue_def ngx_queue_empty_def)

text \<open>Insertion between two neighbours: both insertions are instances.\<close>

lemma seg_insert:
  assumes "seg st a xs b" "x \<notin> set (a # xs)" "x \<noteq> b" "distinct (a # xs)" "b \<notin> set xs"
  shows "seg (ngx_queue_insert_head a x st) a (x # xs) b"
proof -
  let ?st = "ngx_queue_insert_head a x st"
  note first = seg_first [OF assms(1)]
  have "seg ?st x xs b"
  proof (cases xs)
    case Nil
    then show ?thesis using first assms by (auto simp: ngx_queue_insert_head_def Let_def)
  next
    case (Cons y ys)
    have "seg st y ys b" using assms(1) Cons by simp
    then have "seg ?st y ys b"
      using assms first Cons by (rule_tac seg_frame) (auto simp: ngx_queue_insert_head_def Let_def)
    then show ?thesis using first assms Cons by (auto simp: ngx_queue_insert_head_def Let_def)
  qed
  then show ?thesis using assms by (auto simp: ngx_queue_insert_head_def Let_def)
qed

lemma queue_insert_links:
  assumes "is_queue st h (xs @ ys)" "x \<notin> set (h # xs @ ys)"
  shows "is_queue (ngx_queue_insert_head (last (h # xs)) x st) h (xs @ x # ys)"
    and "same_links (set (h # x # xs @ ys)) st (ngx_queue_insert_head (last (h # xs)) x st)"
proof -
  let ?a = "last (h # xs)"
  have q: "seg st h (xs @ ys) h" "distinct (h # xs @ ys)" using assms(1) by (simp_all add: is_queue_def)
  show "is_queue (ngx_queue_insert_head ?a x st) h (xs @ x # ys)"
  proof (cases xs rule: rev_cases)
    case Nil
    then show ?thesis using q assms(2) seg_insert [of st h ys h x] by (auto simp: is_queue_def)
  next
    case (snoc zs z)
    then have s: "seg st h zs z" "seg st z ys h" using q(1) by simp_all
    have z: "seg (ngx_queue_insert_head z x st) z (x # ys) h"
      using seg_insert [OF s(2)] q(2) assms(2) snoc by auto
    have "next st z = hd (ys @ [h])" using seg_first [OF s(2)] .
    then have "next st z \<notin> set (zs @ [z])" using q(2) snoc by (cases ys) auto
    then have "seg (ngx_queue_insert_head z x st) h zs z"
      using q(2) assms(2) snoc by (intro seg_frame [OF s(1)]) (auto simp: ngx_queue_insert_head_def Let_def)
    then show ?thesis using z snoc q(2) assms(2) by (auto simp: is_queue_def)
  qed
  have "?a \<in> set (h # xs)" by simp
  moreover have "next st ?a \<in> set (h # xs @ ys)"
  proof (cases xs rule: rev_cases)
    case Nil
    then show ?thesis using seg_first [OF q(1)] by (cases ys) auto
  next
    case (snoc zs z)
    then have "seg st z ys h" using q(1) by simp
    from seg_first [OF this] show ?thesis using snoc by (cases ys) auto
  qed
  ultimately show "same_links (set (h # x # xs @ ys)) st (ngx_queue_insert_head ?a x st)"
    by (auto simp: same_links_def ngx_queue_insert_head_def Let_def)
qed

text \<open>Two segments are joined by one forward and one backward link.\<close>

lemma seg_join:
  assumes "\<And>zs p. xs = zs @ [p] \<Longrightarrow> seg st a zs p" "seg st r ys b" "distinct (a # xs @ ys)" "b \<notin> set (xs @ ys)"
    and "next st' = (next st)(last (a # xs) := hd (ys @ [b]))" "prev st' = (prev st)(hd (ys @ [b]) := last (a # xs))"
  shows "seg st' a (xs @ ys) b"
proof (cases xs rule: rev_cases)
  case Nil
  show ?thesis
  proof (cases ys)
    case (Cons n ws)
    then have "seg st n ws b" using assms(2) by simp
    then have "seg st' n ws b" using assms(3-6) Nil Cons by (rule_tac seg_frame) auto
    then show ?thesis using assms(5,6) Nil Cons by simp
  qed (use assms(5,6) Nil in simp)
next
  case (snoc zs p)
  then have "seg st a zs p" using assms(1) by simp
  then have zs: "seg st' a zs p" using assms(3-6) snoc by (rule_tac seg_frame) (cases ys; auto)+
  show ?thesis
  proof (cases ys)
    case (Cons n ws)
    then have "seg st n ws b" using assms(2) by simp
    then have "seg st' n ws b" using assms(3-6) snoc Cons by (rule_tac seg_frame) auto
    then show ?thesis using zs assms(5,6) snoc Cons by simp
  qed (use zs assms(5,6) snoc in simp)
qed

lemma queue_remove_links:
  assumes "is_queue st h (xs @ q # ys)"
  shows "is_queue (ngx_queue_remove q st) h (xs @ ys)"
    and "same_links (set (h # xs @ ys)) st (ngx_queue_remove q st)"
proof -
  have s: "seg st h xs q" "seg st q ys h" and d: "distinct (h # xs @ q # ys)"
    using assms by (simp_all add: is_queue_def)
  note ends = seg_last [OF s(1)] seg_first [OF s(2)]
  have p: "prev st q \<in> set (h # xs)" "next st q \<in> set (ys @ [h])"
    using ends last_in_set [of "h # xs"] by (simp, cases ys) auto
  show "same_links (set (h # xs @ ys)) st (ngx_queue_remove q st)"
    using p d by (auto simp: same_links_def ngx_queue_remove_def Let_def)
  have "prev st q \<noteq> q" "next st q \<noteq> q" using p d by auto
  then have "next (ngx_queue_remove q st) = (next st)(last (h # xs) := hd (ys @ [h]))"
    "prev (ngx_queue_remove q st) = (prev st)(hd (ys @ [h]) := last (h # xs))"
    using ends by (auto simp: ngx_queue_remove_def Let_def)
  then have "seg (ngx_queue_remove q st) h (xs @ ys) h" using s d by (intro seg_join [OF _ s(2)]) auto
  then show "is_queue (ngx_queue_remove q st) h (xs @ ys)" using d by (auto simp: is_queue_def)
qed

lemma queue_insert_tail:
  assumes "is_queue st h xs" "x \<notin> set (h # xs)"
  shows "ngx_queue_insert_tail h x st = ngx_queue_insert_head (last (h # xs)) x st"
proof -
  have q: "seg st h xs h" "distinct (h # xs)" using assms(1) by (simp_all add: is_queue_def)
  have "next st (last (h # xs)) = h"
    using q(1) by (cases xs rule: rev_cases) auto
  moreover have "prev st h = last (h # xs)" using seg_last [OF q(1)] .
  moreover have "last (h # xs) \<in> set (h # xs)" by (rule last_in_set) simp
  then have "last (h # xs) \<noteq> x" using assms(2) by metis
  ultimately show ?thesis
    using assms(2) by (auto simp: ngx_queue_insert_tail_def ngx_queue_insert_head_def Let_def set_prev_def set_next_def fun_upd_twist intro!: links.equality)
qed

text \<open>A queue is cut before \<open>q\<close>; the rest hangs on the new sentinel.\<close>

lemma queue_split:
  assumes "is_queue st h (xs @ q # ys)" "n \<notin> set (h # xs @ q # ys)"
  shows "is_queue (ngx_queue_split h q n st) h xs \<and> is_queue (ngx_queue_split h q n st) n (q # ys) \<and>
    same_links (set (h # n # xs @ q # ys)) st (ngx_queue_split h q n st)"
proof -
  let ?st = "ngx_queue_split h q n st"
  have s: "seg st h xs q" "seg st q ys h" and d: "distinct (h # xs @ q # ys)"
    using assms by (simp_all add: is_queue_def)
  have e: "prev st h = last (q # ys)" "prev st q = last (h # xs)" using s seg_last by metis+
  have l: "last (q # ys) \<in> set (q # ys)" "last (h # xs) \<in> set (h # xs)" by (rule last_in_set, simp)+
  have nx: "next ?st = (next st)(last (q # ys) := n, n := q, last (h # xs) := h)"
    and pv: "prev ?st = (prev st)(n := last (q # ys), h := last (h # xs), q := n)"
    using e l d assms(2) by (auto simp: ngx_queue_split_def Let_def fun_upd_def fun_eq_iff)
  have "seg ?st h xs h"
  proof (cases xs rule: rev_cases)
    case Nil
    then show ?thesis using nx pv d assms(2) by auto
  next
    case (snoc zs p)
    then have "seg st h zs p" using s(1) by simp
    then have "seg ?st h zs p" using d assms(2) l snoc by (rule_tac seg_frame) (auto simp: nx pv)
    then show ?thesis using snoc nx pv d assms(2) l by auto
  qed
  moreover have "seg ?st n (q # ys) n"
  proof (cases ys rule: rev_cases)
    case Nil
    then show ?thesis using nx pv d assms(2) l by auto
  next
    case (snoc zs p)
    then have "seg st q zs p" using s(2) by simp
    then have "seg ?st q zs p" using d assms(2) l snoc by (rule_tac seg_frame) (auto simp: nx pv)
    then show ?thesis using snoc nx pv d assms(2) l by auto
  qed
  moreover have "same_links (set (h # n # xs @ q # ys)) st ?st"
    using l by (auto simp: same_links_def nx pv)
  ultimately show ?thesis using d assms(2) by (auto simp: is_queue_def)
qed

lemma queue_add:
  assumes "is_queue st h xs" "is_queue st n ys" "set (h # xs) \<inter> set (n # ys) = {}"
  shows "is_queue (ngx_queue_add h n st) h (xs @ ys) \<and> same_links (set (h # n # xs @ ys)) st (ngx_queue_add h n st)"
proof -
  let ?st = "ngx_queue_add h n st"
  have s: "seg st h xs h" "seg st n ys n" and d: "distinct (h # xs @ ys)" "n \<notin> set (h # xs @ ys)"
    using assms by (auto simp: is_queue_def)
  have e: "prev st h = last (h # xs)" "next st n = hd (ys @ [n])" "prev st n = last (n # ys)"
    using seg_last [OF s(1)] seg_first [OF s(2)] seg_last [OF s(2)] by simp_all
  have l: "last (n # ys) \<in> set (n # ys)" "last (h # xs) \<in> set (h # xs)" by (rule last_in_set, simp)+
  show ?thesis
  proof (cases ys)
    case Nil
    have nx: "next ?st = (next st)(last (h # xs) := h)"
      and pv: "prev ?st = (prev st)(n := last (h # xs), h := last (h # xs))"
      using e l d Nil by (auto simp: ngx_queue_add_def Let_def fun_eq_iff)
    have "next st (last (h # xs)) = h" using s(1) by (cases xs rule: rev_cases) auto
    then have "seg ?st h xs h" using d e by (intro seg_frame [OF s(1)]) (auto simp: nx pv)
    then show ?thesis using d Nil l by (auto simp: is_queue_def same_links_def nx pv)
  next
    case (Cons y ws)
    define st1 where "st1 = set_prev h (last ys) (set_next (last ys) h st)"
    have ll: "last (n # ys) = last ys" "last ys \<in> set ys" using Cons by simp_all
    have apart: "last (h # xs) \<noteq> y" "xs \<noteq> [] \<Longrightarrow> last xs \<noteq> y"
      using l(2) d Cons by auto
    have nx: "next ?st = (next st1)(last (h # xs) := hd (ys @ [h]))"
      and pv: "prev ?st = (prev st1)(hd (ys @ [h]) := last (h # xs))"
      using e l d Cons ll apart by (auto simp: ngx_queue_add_def Let_def fun_eq_iff st1_def)
    have "seg st1 n ys h"
    proof (cases ys rule: rev_cases)
      case (snoc zs p)
      then have "seg st n zs p" using s(2) by simp
      then have "seg st1 n zs p" using d snoc by (rule_tac seg_frame) (auto simp: st1_def)
      then show ?thesis using snoc d by (auto simp: st1_def)
    qed (simp add: Cons)
    moreover have "seg st1 h zs p" if "xs = zs @ [p]" for zs p
    proof -
      have "seg st h zs p" using s(1) that by simp
      then show ?thesis using d that ll by (rule_tac seg_frame) (auto simp: st1_def)
    qed
    ultimately have "seg ?st h (xs @ ys) h" using d nx pv by (intro seg_join [where st = st1 and r = n]) auto
    moreover have "hd (ys @ [h]) \<in> set (h # n # xs @ ys)" using Cons by simp
    ultimately show ?thesis
      using d l ll unfolding is_queue_def same_links_def nx pv by (auto simp: st1_def)
  qed
qed

subsection \<open>The sort on links\<close>

lemma sort_back_finds:
  "is_queue st h (rev before @ rest) \<Longrightarrow> before \<noteq> [] \<Longrightarrow> length before \<le> fuel \<Longrightarrow>
     \<exists>bs1 bs2. before = bs1 @ bs2 \<and> queue_insert cmp q before = bs1 @ q # bs2 \<and>
       queue_sort_back fuel cmp h q (hd before) st = Some (last (h # rev bs2))"
proof (induction before arbitrary: rest fuel)
  case (Cons b before)
  obtain f where f: "fuel = Suc f" using Cons.prems(3) by (cases fuel) auto
  have s: "seg st h (rev before) b" and d: "distinct (h # rev before @ b # rest)"
    using Cons.prems(1) by (simp_all add: is_queue_def)
  have p: "prev st b = last (h # rev before)" using seg_last [OF s] .
  have ih: "\<exists>bs1 bs2. before = bs1 @ bs2 \<and> queue_insert cmp q before = bs1 @ q # bs2 \<and>
       queue_sort_back f cmp h q (hd before) st = Some (last (h # rev bs2))" if "before \<noteq> []"
    using Cons.IH [of "b # rest" f] Cons.prems f that by simp
  show ?case
  proof (cases "cmp b q \<le> 0")
    case True
    then show ?thesis using f by (intro exI [of _ "[]"] exI [of _ "b # before"]) simp
  next
    case False
    show ?thesis
    proof (cases before)
      case Nil
      then show ?thesis using False f p by (intro exI [of _ "[b]"] exI [of _ "[]"]) simp
    next
      case (Cons c cs)
      then have "prev st b = hd before" "prev st b \<noteq> h" using p d by auto
      moreover obtain bs1 bs2 where "before = bs1 @ bs2" "queue_insert cmp q before = bs1 @ q # bs2"
        "queue_sort_back f cmp h q (hd before) st = Some (last (h # rev bs2))"
        using ih Cons by blast
      ultimately show ?thesis using False f by (intro exI [of _ "b # bs1"] exI [of _ bs2]) simp
    qed
  qed
qed simp

lemma sort_links_loop:
  "is_queue st h (rev before @ queue) \<Longrightarrow> before \<noteq> [] \<Longrightarrow> length before + 2 * length queue < fuel \<Longrightarrow>
     \<exists>st'. queue_sort_links_loop fuel cmp h (hd (queue @ [h])) st = Some st' \<and>
       is_queue st' h (queue_sort_loop cmp before queue) \<and> same_links (set (h # before @ queue)) st st'"
proof (induction queue arbitrary: before st fuel)
  case Nil
  then obtain f where "fuel = Suc f" by (cases fuel) auto
  then show ?case using Nil by (simp add: same_links_def)
next
  case (Cons q rest)
  obtain f where f: "fuel = Suc f" using Cons.prems(3) by (cases fuel) auto
  have s: "seg st h (rev before) q" "seg st q rest h" and d: "distinct (h # rev before @ q # rest)"
    using Cons.prems(1) by (simp_all add: is_queue_def)
  have p: "prev st q = hd before" using seg_last [OF s(1)] Cons.prems(2) by (simp add: last_rev)
  have n: "next st q = hd (rest @ [h])" using seg_first [OF s(2)] .
  let ?st1 = "ngx_queue_remove q st"
  have st1: "is_queue ?st1 h (rev before @ rest)" "same_links (set (h # rev before @ rest)) st ?st1"
    using queue_remove_links [OF Cons.prems(1)] by simp_all
  obtain bs1 bs2 where bs: "before = bs1 @ bs2" "queue_insert cmp q before = bs1 @ q # bs2"
      "queue_sort_back f cmp h q (hd before) ?st1 = Some (last (h # rev bs2))"
    using sort_back_finds [OF st1(1) Cons.prems(2), of f cmp q] Cons.prems(3) f by auto
  let ?st2 = "ngx_queue_insert_head (last (h # rev bs2)) q ?st1"
  have st2: "is_queue ?st2 h (rev bs2 @ q # rev bs1 @ rest)"
      "same_links (set (h # q # rev bs2 @ rev bs1 @ rest)) ?st1 ?st2"
    using queue_insert_links [of ?st1 h "rev bs2" "rev bs1 @ rest" q] st1(1) bs(1) d by auto
  obtain st' where st': "queue_sort_links_loop f cmp h (hd (rest @ [h])) ?st2 = Some st'"
      "is_queue st' h (queue_sort_loop cmp (queue_insert cmp q before) rest)"
      "same_links (set (h # queue_insert cmp q before @ rest)) ?st2 st'"
    using Cons.IH [of ?st2 "queue_insert cmp q before" f] st2(1) bs(1,2) Cons.prems(3) f by auto
  have "same_links (set (h # before @ q # rest)) st st'"
    using st1(2) st2(2) st'(3) [unfolded bs(2)] unfolding bs(1) same_links_def by auto
  moreover have "q \<noteq> h" using d by auto
  ultimately show ?case using st'(1,2) bs(3) f p n by (auto simp: Let_def)
qed

text \<open>
  C38: \<open>ngx_queue_sort\<close> on the links of a queue ends, leaves a well-formed queue that spells the sorted list,
  and touches no link outside the queue.
\<close>

theorem queue_sort_refines:
  assumes "is_queue st h xs" "2 * length xs < fuel"
  shows "\<exists>st'. queue_sort_links fuel cmp h st = Some st' \<and> is_queue st' h (ngx_queue_sort cmp xs) \<and>
     same_links (set (h # xs)) st st'"
proof -
  have s: "seg st h xs h" "distinct (h # xs)" using assms(1) by (simp_all add: is_queue_def)
  consider "xs = []" | x where "xs = [x]" | x y ys where "xs = x # y # ys" by (metis list.exhaust)
  then show ?thesis
  proof cases
    case 3
    have ne: "next st h \<noteq> prev st h" using seg_first [OF s(1)] seg_last [OF s(1)] s(2) 3 by auto
    have n: "next st (next st h) = y" using s(1) 3 by simp
    have "is_queue st h (rev [x] @ y # ys)" using assms(1) 3 by simp
    from sort_links_loop [OF this, of fuel cmp] show ?thesis
      using ne n assms(2) 3 by (simp add: queue_sort_links_def ngx_queue_sort_def)
  qed (use assms s in \<open>simp_all add: queue_sort_links_def ngx_queue_sort_def same_links_def\<close>)
qed

text \<open>The queue of the witness: three elements, each linked to its neighbours.\<close>

definition sample_queue :: links where
  "sample_queue = \<lparr> prev = (\<lambda>_. 0)(0 := 3, 2 := 1, 3 := 2), next = (\<lambda>_. 0)(0 := 1, 1 := 2, 2 := 3) \<rparr>"

theorem queue_sort_refines_witness:
  "\<exists>st'. queue_sort_links 7 (\<lambda>p q. int q - int p) 0 sample_queue = Some st' \<and> is_queue st' 0 [3, 2, 1]"
proof -
  have "is_queue sample_queue 0 [1, 2, 3]" by (simp add: is_queue_def sample_queue_def)
  from queue_sort_refines [OF this, of 7 "\<lambda>p q. int q - int p"] show ?thesis
    by (auto simp: ngx_queue_sort_def)
qed

subsection \<open>The middle on links\<close>

lemma queue_next: "is_queue st h xs \<Longrightarrow> i < length xs \<Longrightarrow> next st (xs ! i) = (xs @ [h]) ! Suc i"
proof -
  assume q: "is_queue st h xs" and i: "i < length xs"
  then have "xs = take i xs @ xs ! i # drop (Suc i) xs" by (simp add: id_take_nth_drop)
  then have "seg st (xs ! i) (drop (Suc i) xs) h" using q by (metis is_queue_def seg_append)
  from seg_first [OF this] show ?thesis using i by (cases "Suc i < length xs") (auto simp: hd_drop_conv_nth nth_append hd_append)
qed

lemma queue_middle_refines:
  assumes "is_queue st h xs" "xs \<noteq> []" "length xs \<le> fuel"
  shows "queue_middle_links fuel h st = Some (xs ! ngx_queue_middle (length xs))"
proof -
  have d: "distinct xs" and s: "seg st h xs h" using assms(1) by (simp_all add: is_queue_def)
  have last: "prev st h = xs ! (length xs - 1)" using seg_last [OF s] assms(2) by (simp add: last_conv_nth)
  have nx: "next st (xs ! i) = xs ! Suc i" if "Suc i < length xs" for i
    using queue_next [OF assms(1), of i] that by (simp add: nth_append)
  have eq: "xs ! i = xs ! (length xs - 1) \<longleftrightarrow> Suc i = length xs" if "i < length xs" for i
    using d that nth_eq_iff_index_eq [OF d that, of "length xs - 1"] by auto
  have loop: "queue_middle_links_loop fuel h (xs ! m) (xs ! k) st = Some (xs ! queue_middle_loop (length xs) m k)"
    if "m \<le> k" "k + 1 < length xs" "length xs \<le> fuel + k" for m k fuel
    using that
  proof (induction fuel arbitrary: m k)
    case (Suc fuel)
    show ?case
    proof (cases "k + 3 < length xs")
      case True
      then have "queue_middle_loop (length xs) m k = queue_middle_loop (length xs) (m + 1) (k + 2)"
        using queue_middle_loop.simps [of "length xs" m k] by simp
      then show ?thesis
        using Suc.IH [of "m + 1" "k + 2"] Suc.prems True nx last eq by (simp add: Let_def)
    next
      case False
      then have "length xs = k + 2 \<or> length xs = k + 3" using Suc.prems by linarith
      moreover from this have "queue_middle_loop (length xs) m k = m + 1"
        using queue_middle_loop.simps [of "length xs" m k] by auto
      ultimately show ?thesis using Suc.prems nx last eq by (auto simp: Let_def)
    qed
  qed simp
  have "next st h = xs ! 0" using seg_first [OF s] assms(2) by (cases xs) simp_all
  then show ?thesis
    using loop [of 0 0 fuel] assms(2,3) last eq [of 0]
    by (cases "length xs = 1") (auto simp: queue_middle_links_def ngx_queue_middle_def Let_def Suc_lessI)
qed

end
