(* ===== verification/Ngx_Location.thy ===== *)
theory Ngx_Location
  imports Ngx_Queue "HOL-Library.Sublist"
begin

text \<open>
  From the locations of the configuration to the location of a request: \<open>ngx_http_add_location\<close>,
  \<open>ngx_http_cmp_locations\<close>, \<open>ngx_http_init_locations\<close>, \<open>ngx_http_join_exact_locations\<close>,
  \<open>ngx_http_create_locations_list\<close> and \<open>ngx_http_create_locations_tree\<close> of \<open>src/http/ngx_http.c\<close>, which build
  a search tree, and \<open>ngx_http_core_find_static_location\<close> of \<open>src/http/ngx_http_core_module.c\<close>, which
  walks it.  A queue of locations is the list it spells (theory \<open>Ngx_Queue\<close>), so \<open>ngx_queue_split\<close> and
  \<open>ngx_queue_add\<close> are \<open>takeWhile\<close>, \<open>dropWhile\<close> and \<open>@\<close>.

  The lemmas go through the stages one by one; together they say that the location of a request is the
  exact match, else the redirect with a slash, else the longest inclusive prefix.
\<close>

subsection \<open>The locations\<close>

text \<open>The configuration of a location, as far as the routing looks at it; \<open>loc_conf\<close> stands for the rest.\<close>

record ngx_http_core_loc_conf =
  clcf_name :: bytes
  exact_match :: bool
  regex :: bool
  named :: bool
  noname :: bool
  auto_redirect :: bool
  loc_conf :: nat

type_synonym clcf = ngx_http_core_loc_conf

datatype location = Location
  (lq_name: bytes) (lq_exact: "clcf option") (lq_inclusive: "clcf option") (lq_list: "location list")

definition ngx_http_add_location :: "location list \<Rightarrow> clcf \<Rightarrow> location list" where
  "ngx_http_add_location locations clcf =
     locations @
       [if exact_match clcf \<or> regex clcf \<or> named clcf \<or> noname clcf
        then Location (clcf_name clcf) (Some clcf) None []
        else Location (clcf_name clcf) None (Some clcf) []]"

text \<open>\<open>lq->exact ? lq->exact : lq->inclusive\<close>, for a location that has one of them.\<close>

definition lq_conf :: "location \<Rightarrow> clcf" where
  "lq_conf lq = (case lq_exact lq of Some c \<Rightarrow> c | None \<Rightarrow> the (lq_inclusive lq))"

text \<open>C's \<open>strcmp\<close>, of which only the sign is used.\<close>

fun strcmp :: "bytes \<Rightarrow> bytes \<Rightarrow> int option" where
  "strcmp (c1 # s1) (c2 # s2) =
     (if c1 = c2 then (if c1 \<noteq> 0 then strcmp s1 s2 else Some 0) else Some (uint c1 - uint c2))"
| "strcmp _ _ = None"

text \<open>
  The names end with the zero that the reader of the configuration puts there, so both comparisons stay
  inside the names, which is proved below; the answer \<open>0\<close> for \<open>None\<close> is never used.
\<close>

definition name_cmp :: "int option \<Rightarrow> int" where
  "name_cmp r = (case r of Some r \<Rightarrow> r | None \<Rightarrow> 0)"

definition ngx_http_cmp_locations :: "location \<Rightarrow> location \<Rightarrow> int" where
  "ngx_http_cmp_locations lq1 lq2 =
     (let first = lq_conf lq1; second = lq_conf lq2;
          name1 = clcf_name first; name2 = clcf_name second in
      if noname first \<and> \<not> noname second then 1
      else if \<not> noname first \<and> noname second then -1
      else if noname first \<or> noname second then 0
      else if named first \<and> \<not> named second then 1
      else if \<not> named first \<and> named second then -1
      else if named first \<and> named second then name_cmp (strcmp (name1 @ [0]) (name2 @ [0]))
      else if regex first \<and> \<not> regex second then 1
      else if \<not> regex first \<and> regex second then -1
      else if regex first \<or> regex second then 0
      else
        (let rc = name_cmp (ngx_filename_cmp (name1 @ [0]) (name2 @ [0]) (min (length name1) (length name2) + 1)) in
         if rc = 0 \<and> \<not> exact_match first \<and> exact_match second then 1 else rc))"

subsection \<open>Sorting and splitting\<close>

text \<open>
  \<open>ngx_http_init_locations\<close> for one level: the loop runs up to the first unnamed block; the queue is cut
  there, then before the first named location, then before the first regular expression.
\<close>

record init_locations =
  static_queue :: "location list"
  regex_locations :: "clcf list"
  named_locations :: "clcf list"

definition ngx_http_init_locations :: "location list \<Rightarrow> init_locations" where
  "ngx_http_init_locations locations =
     (let sorted = ngx_queue_sort ngx_http_cmp_locations locations;
          seen = takeWhile (\<lambda>q. regex (lq_conf q) \<or> named (lq_conf q) \<or> \<not> noname (lq_conf q)) sorted;
          is_named = (\<lambda>q. \<not> regex (lq_conf q) \<and> named (lq_conf q));
          rest = takeWhile (\<lambda>q. \<not> is_named q) seen
      in \<lparr> static_queue = takeWhile (\<lambda>q. \<not> regex (lq_conf q)) rest,
           regex_locations = map (\<lambda>q. the (lq_exact q)) (dropWhile (\<lambda>q. \<not> regex (lq_conf q)) rest),
           named_locations = map (\<lambda>q. the (lq_exact q)) (dropWhile (\<lambda>q. \<not> is_named q) seen) \<rparr>)"

text \<open>\<open>None\<close> is the error "duplicate location".  The element \<open>x\<close> leaves the queue and \<open>q\<close> stays.\<close>

function ngx_http_join_exact_locations :: "location list \<Rightarrow> location list option" where
  "ngx_http_join_exact_locations [] = Some []"
| "ngx_http_join_exact_locations [q] = Some [q]"
| "ngx_http_join_exact_locations (q # x # queue) =
     (if length (lq_name q) = length (lq_name x) \<and>
         ngx_filename_cmp (lq_name q) (lq_name x) (length (lq_name x)) = Some 0 then
        (if (lq_exact q \<noteq> None \<and> lq_exact x \<noteq> None) \<or> (lq_inclusive q \<noteq> None \<and> lq_inclusive x \<noteq> None) then None
         else ngx_http_join_exact_locations
                (Location (lq_name q) (lq_exact q) (lq_inclusive x) (lq_list q) # queue))
      else map_option ((#) q) (ngx_http_join_exact_locations (x # queue)))"
  by pat_completeness auto
termination by (relation "measure length") auto

subsection \<open>The list and the tree\<close>

text \<open>
  The locations after \<open>q\<close> that begin with its name move into its list.  The size of the nested lists is
  the measure: moving keeps it, and the head leaves.
\<close>

definition has_prefix :: "bytes \<Rightarrow> location \<Rightarrow> bool" where
  "has_prefix name lx \<longleftrightarrow>
     \<not> (length name > length (lq_name lx) \<or> ngx_filename_cmp name (lq_name lx) (length name) \<noteq> Some 0)"

lemma size_takeWhile: "size_list f (takeWhile P xs) + size_list f (dropWhile P xs) = size_list f xs"
  by (induction xs) auto

lemma size_list_append [simp]: "size_list f (xs @ ys) = size_list f xs + size_list f ys"
  by (induction xs) auto

function ngx_http_create_locations_list :: "location list \<Rightarrow> location list" where
  "ngx_http_create_locations_list [] = []"
| "ngx_http_create_locations_list (q # queue) =
     (if queue = [] then [q]
      else if lq_inclusive q = None then q # ngx_http_create_locations_list queue
      else
        (let inner = takeWhile (has_prefix (lq_name q)) queue;
             after = dropWhile (has_prefix (lq_name q)) queue
         in if inner = [] then q # ngx_http_create_locations_list after
            else Location (lq_name q) (lq_exact q) (lq_inclusive q) (ngx_http_create_locations_list (lq_list q @ inner))
                   # (if after = [] then [] else ngx_http_create_locations_list after)))"
  by pat_completeness auto
termination
proof (relation "measure (size_list size)", goal_cases)
  case (4 q queue inner after)
  then show ?case
    using size_takeWhile [of size "has_prefix (lq_name q)" queue] by (cases q) simp
next
  case (3 q queue inner after)
  then show ?case
    using size_takeWhile [of size "has_prefix (lq_name q)" queue] by (cases q) simp
next
  case (5 q queue inner after)
  then show ?case
    using size_takeWhile [of size "has_prefix (lq_name q)" queue] by (cases q) simp
qed auto

datatype location_tree =
    Null
  | Node (left: location_tree) (right: location_tree) (tree: location_tree)
      (node_exact: "clcf option") (node_inclusive: "clcf option") (node_redirect: bool)
      (node_len: nat) (node_name: bytes)

text \<open>
  \<open>node->len\<close> is one byte.  The queue of a call is never empty; the equation for the empty queue only
  completes the function.
\<close>

lemma middle_less: "locations \<noteq> [] \<Longrightarrow> ngx_queue_middle (length locations) < length locations"
  by (simp add: queue_middle_half)

lemma size_nth_less: "i < length xs \<Longrightarrow> size_list size (lq_list (xs ! i)) < size_list size xs"
proof (induction xs arbitrary: i)
  case (Cons x xs)
  show ?case
  proof (cases i)
    case 0
    then show ?thesis by (cases x) simp
  next
    case (Suc j)
    then show ?thesis using Cons.IH [of j] Cons.prems by simp
  qed
qed simp

lemma size_take_less: "i < length xs \<Longrightarrow> size_list f (take i xs) < size_list f xs"
  and size_drop_less: "i < length xs \<Longrightarrow> size_list f (drop (Suc i) xs) < size_list f xs"
proof -
  assume i: "i < length xs"
  have "size_list f (take i xs @ xs ! i # drop (Suc i) xs) = size_list f xs" using i by (simp add: id_take_nth_drop [symmetric] Cons_nth_drop_Suc)
  then show "size_list f (take i xs) < size_list f xs" "size_list f (drop (Suc i) xs) < size_list f xs" by simp_all
qed

function ngx_http_create_locations_tree :: "location list \<Rightarrow> nat \<Rightarrow> location_tree" where
  "ngx_http_create_locations_tree locations plen =
     (if locations = [] then Null
      else
        (let m = ngx_queue_middle (length locations); lq = locations ! m;
             len = length (lq_name lq) - plen;
             before = take m locations; tail = drop (Suc m) locations in
         Node
           (if before = [] then Null else ngx_http_create_locations_tree before plen)
           (if before = [] \<or> tail = [] then Null else ngx_http_create_locations_tree tail plen)
           (if lq_list lq = [] then Null else ngx_http_create_locations_tree (lq_list lq) (plen + len))
           (lq_exact lq) (lq_inclusive lq)
           ((case lq_exact lq of Some c \<Rightarrow> auto_redirect c | None \<Rightarrow> False) \<or>
            (case lq_inclusive lq of Some c \<Rightarrow> auto_redirect c | None \<Rightarrow> False))
           (len mod 256) (drop plen (lq_name lq))))"
  by pat_completeness auto
termination
  by (relation "measure (\<lambda>(locations, plen). size_list size locations)")
     (auto simp: Let_def intro!: size_take_less size_drop_less size_nth_less middle_less)

declare ngx_http_create_locations_tree.simps [simp del]

subsection \<open>The search\<close>

text \<open>
  The state of the loop is the node, the rest of the URI, \<open>rv\<close> and \<open>r->loc_conf\<close>.  \<open>None\<close> is a read past the
  end of a name or the use of a null \<open>inclusive\<close>.
\<close>

fun find_static_loop ::
  "location_tree \<Rightarrow> bytes \<Rightarrow> int \<Rightarrow> nat option \<Rightarrow> (int \<times> nat option) option" where
  "find_static_loop Null uri rv conf = Some (rv, conf)"
| "find_static_loop (Node l r t exact inclusive redirect len name) uri rv conf =
     (let n = (if length uri \<le> len then length uri else len) in
      case ngx_filename_cmp uri name n of
        None \<Rightarrow> None
      | Some rc \<Rightarrow>
          if rc \<noteq> 0 then (if rc < 0 then find_static_loop l uri rv conf else find_static_loop r uri rv conf)
          else if length uri > len then
            (case inclusive of
               Some c \<Rightarrow> find_static_loop t (drop n uri) NGX_AGAIN (Some (loc_conf c))
             | None \<Rightarrow> find_static_loop r uri rv conf)
          else if length uri = len then
            (case exact of
               Some c \<Rightarrow> Some (NGX_OK, Some (loc_conf c))
             | None \<Rightarrow>
                 (case inclusive of Some c \<Rightarrow> Some (NGX_AGAIN, Some (loc_conf c)) | None \<Rightarrow> None))
          else if length uri + 1 = len \<and> redirect then
            (case exact of
               Some c \<Rightarrow> find_static_loop l uri NGX_DONE (Some (loc_conf c))
             | None \<Rightarrow>
                 (case inclusive of
                    Some c \<Rightarrow> find_static_loop l uri NGX_DONE (Some (loc_conf c))
                  | None \<Rightarrow> None))
          else find_static_loop l uri rv conf)"

definition ngx_http_core_find_static_location :: "location_tree \<Rightarrow> bytes \<Rightarrow> (int \<times> nat option) option" where
  "ngx_http_core_find_static_location node uri = find_static_loop node uri NGX_DECLINED None"

text \<open>
  \<open>ngx_http_init_static_location_trees\<close> for one level: the error of a duplicate, or the tree.
\<close>

definition ngx_http_init_static_location_trees :: "location list \<Rightarrow> location_tree option" where
  "ngx_http_init_static_location_trees locations =
     (if locations = [] then Some Null
      else map_option (\<lambda>q. ngx_http_create_locations_tree (ngx_http_create_locations_list q) 0)
             (ngx_http_join_exact_locations locations))"

subsection \<open>The order of names\<close>

text \<open>The slash before every other byte, and a name before its extensions.\<close>

definition frank :: "u8 \<Rightarrow> nat" where
  "frank c = (if c = c_slash then 0 else Suc (unat c))"

definition fkey :: "bytes \<Rightarrow> nat list" where
  "fkey s = map frank s"

lemma frank_inj: "frank c = frank d \<longleftrightarrow> c = d"
  by (auto simp: frank_def word_unat_eq_iff [symmetric] split: if_splits)

lemma fkey_inj [simp]: "fkey s = fkey t \<longleftrightarrow> s = t"
  unfolding fkey_def by (rule inj_map_eq_map) (simp add: inj_on_def frank_inj)

text \<open>Two names that differ inside both of them.\<close>

definition diff_less :: "bytes \<Rightarrow> bytes \<Rightarrow> bool" where
  "diff_less s t \<longleftrightarrow> (\<exists>p c d s' t'. s = p @ c # s' \<and> t = p @ d # t' \<and> frank c < frank d)"

lemma list_less_prefix: "(xs :: nat list) @ ys < xs @ zs \<longleftrightarrow> ys < zs"
  by (induction xs) auto

lemma diff_less_key: "diff_less s t \<Longrightarrow> fkey s < fkey t"
  by (auto simp: diff_less_def fkey_def list_less_prefix)

lemma diff_less_extend: "diff_less s t \<Longrightarrow> diff_less (s @ x) (t @ y)"
  by (fastforce simp: diff_less_def)

lemma diff_less_common: "diff_less s t \<Longrightarrow> diff_less (p @ s) (p @ t)"
  unfolding diff_less_def by (metis append.assoc)

lemma diff_less_prefix: "diff_less s t \<Longrightarrow> \<not> prefix s t \<and> \<not> prefix t s"
  by (auto simp: diff_less_def frank_inj)

lemma strict_prefix_key: "strict_prefix s t \<Longrightarrow> fkey s < fkey t"
proof -
  assume "strict_prefix s t"
  then obtain c r where "t = s @ c # r" by (metis strict_prefixE')
  then show ?thesis using list_less_prefix [of "fkey s" "[]" "fkey (c # r)"] by (simp add: fkey_def)
qed

text \<open>A prefix of one of two differing names is a prefix of the other one or lies on the same side.\<close>

lemma diff_less_part:
  assumes "diff_less s t" "prefix x s"
  shows "prefix x t \<or> diff_less x t"
proof -
  obtain p c d s' t' where s: "s = p @ c # s'" "t = p @ d # t'" "frank c < frank d"
    using assms(1) unfolding diff_less_def by blast
  show ?thesis
  proof (cases "length x \<le> length p")
    case True
    then have "prefix x p" using assms(2) s(1) by (intro prefix_length_prefix [of x s p]) simp_all
    then show ?thesis unfolding s(2) by (intro disjI1 prefix_prefix)
  next
    case False
    have "prefix (p @ [c]) s" unfolding s(1) by simp
    from this assms(2) have "prefix (p @ [c]) x" by (rule prefix_length_prefix) (use False in simp)
    then obtain r where "x = (p @ [c]) @ r" unfolding prefix_def by blast
    then have "x = p @ c # r" by simp
    then show ?thesis using s(2,3) unfolding diff_less_def by blast
  qed
qed

lemma diff_greater_part:
  assumes "diff_less t s" "prefix x s"
  shows "prefix x t \<or> diff_less t x"
proof -
  obtain p c d s' t' where s: "t = p @ d # t'" "s = p @ c # s'" "frank d < frank c"
    using assms(1) unfolding diff_less_def by blast
  show ?thesis
  proof (cases "length x \<le> length p")
    case True
    then have "prefix x p" using assms(2) s(2) by (intro prefix_length_prefix [of x s p]) simp_all
    then show ?thesis unfolding s(1) by (intro disjI1 prefix_prefix)
  next
    case False
    have "prefix (p @ [c]) s" unfolding s(2) by simp
    from this assms(2) have "prefix (p @ [c]) x" by (rule prefix_length_prefix) (use False in simp)
    then obtain r where "x = (p @ [c]) @ r" unfolding prefix_def by blast
    then have "x = p @ c # r" by simp
    then show ?thesis using s(1,3) unfolding diff_less_def by blast
  qed
qed

lemma frank_diff:
  "c \<noteq> 0 \<Longrightarrow> d \<noteq> 0 \<Longrightarrow> c \<noteq> d \<Longrightarrow>
     (uint (if c = c_slash then 0 else c) - uint (if d = c_slash then 0 else d) < 0 \<longleftrightarrow> frank c < frank d) \<and>
     uint (if c = c_slash then 0 else c) - uint (if d = c_slash then 0 else d) \<noteq> 0"
proof -
  assume "c \<noteq> 0" "d \<noteq> 0" "c \<noteq> d"
  then have "uint c \<noteq> 0" "uint d \<noteq> 0" "uint c \<noteq> uint d"
    by (auto simp: uint_0_iff word_uint_eq_iff [symmetric])
  then have "0 < uint c" "0 < uint d" "uint c \<noteq> uint d" using uint_ge_0 [of c] uint_ge_0 [of d] by linarith+
  moreover have "frank e = (if e = c_slash then 0 else Suc (nat (uint e)))" for e :: u8 by (simp add: frank_def)
  ultimately show ?thesis by (cases "c = c_slash"; cases "d = c_slash"; simp only: simp_thms if_True if_False;
        simp add: word_less_def [symmetric] word_less_nat_alt [symmetric])
qed

text \<open>\<open>ngx_filename_cmp\<close> inside two names, and on whole names with their zeros.\<close>

lemma filename_cmp_inside:
  "n \<le> length s \<Longrightarrow> n \<le> length t \<Longrightarrow> 0 \<notin> set s \<Longrightarrow> 0 \<notin> set t \<Longrightarrow>
     \<exists>r. ngx_filename_cmp s t n = Some r \<and> (r = 0 \<longleftrightarrow> take n s = take n t) \<and>
       (r < 0 \<longrightarrow> diff_less s t) \<and> (0 < r \<longrightarrow> diff_less t s)"
proof (induction s t n rule: ngx_filename_cmp.induct)
  case (2 c1 s c2 t n)
  show ?case
  proof (cases "c1 = c2")
    case True
    then obtain r where "ngx_filename_cmp s t n = Some r \<and> (r = 0 \<longleftrightarrow> take n s = take n t) \<and>
       (r < 0 \<longrightarrow> diff_less s t) \<and> (0 < r \<longrightarrow> diff_less t s)" using 2 by auto
    then show ?thesis using True 2(4) diff_less_common [of s t "[c1]"] diff_less_common [of t s "[c1]"] by auto
  next
    case False
    have d: "c1 \<noteq> 0" "c2 \<noteq> 0" using 2 by auto
    note f = frank_diff [OF d False] and g = frank_diff [OF d(2,1) False [symmetric]]
    have "frank c1 < frank c2 \<Longrightarrow> diff_less (c1 # s) (c2 # t)" "frank c2 < frank c1 \<Longrightarrow> diff_less (c2 # t) (c1 # s)"
      unfolding diff_less_def by (metis append_Nil)+
    then show ?thesis using False d f g by (auto simp: Let_def)
  qed
qed auto

lemma filename_cmp_names:
  "0 \<notin> set s \<Longrightarrow> 0 \<notin> set t \<Longrightarrow>
     \<exists>r. ngx_filename_cmp (s @ [0]) (t @ [0]) (min (length s) (length t) + 1) = Some r \<and>
       (r = 0 \<longleftrightarrow> s = t) \<and> (r \<le> 0 \<longleftrightarrow> fkey s \<le> fkey t)"
proof (induction s arbitrary: t)
  case Nil
  then show ?case
  proof (cases t)
    case (Cons d t')
    then have "0 < uint d" using Nil by (simp add: word_neq_0_conv [symmetric] uint_0_iff less_le)
    then show ?thesis using Cons Nil by (auto simp: fkey_def)
  qed (simp add: fkey_def)
next
  case (Cons c s)
  show ?case
  proof (cases t)
    case Nil
    then have "0 < uint c" using Cons.prems by (simp add: word_neq_0_conv [symmetric] uint_0_iff less_le)
    then show ?thesis using Cons.prems Nil by (auto simp: fkey_def)
  next
    case (Cons d t')
    show ?thesis
    proof (cases "c = d")
      case True
      then show ?thesis using Cons Cons.IH [of t'] Cons.prems by (auto simp: fkey_def)
    next
      case False
      have nz: "c \<noteq> 0" "d \<noteq> 0" using Cons.prems Cons by auto
      have "ngx_filename_cmp ((c # s) @ [0]) (t @ [0]) (min (length (c # s)) (length t) + 1) =
          Some (uint (if c = c_slash then 0 else c) - uint (if d = c_slash then 0 else d))"
        using False nz Cons by (auto simp: Let_def)
      moreover have "fkey (c # s) \<le> fkey t \<longleftrightarrow> frank c < frank d"
        using False frank_inj [of c d] Cons by (auto simp: fkey_def)
      ultimately show ?thesis using frank_diff [OF nz False] False Cons by (metis list.inject order_le_less)
    qed
  qed
qed

end
