(* ===== verification/Ngx_Routing.thy ===== *)
theory Ngx_Routing
  imports Ngx_Location
begin

text \<open>
  What the search tree of theory \<open>Ngx_Location\<close> answers.  A level of the tree is a list of locations in the
  order of their names (\<open>wf_level\<close>); one walk down the binary search of a level is read off the list
  (\<open>find_level\<close>), the walk through the levels off the locations of all levels (\<open>level_routed\<close>), and the
  stages that build the tree are followed from the configuration (\<open>location_routing\<close>).
\<close>

subsection \<open>Levels\<close>

text \<open>
  A location as the configuration makes it: the name has no zero and fewer than 256 bytes, \<open>exact\<close> or
  \<open>inclusive\<close> is set, and \<open>auto_redirect\<close> only on a name that ends with a slash.
\<close>

definition redirects :: "location \<Rightarrow> bool" where
  "redirects x \<longleftrightarrow> (case lq_exact x of Some c \<Rightarrow> auto_redirect c | None \<Rightarrow> False) \<or>
     (case lq_inclusive x of Some c \<Rightarrow> auto_redirect c | None \<Rightarrow> False)"

definition good_loc :: "location \<Rightarrow> bool" where
  "good_loc x \<longleftrightarrow> 0 \<notin> set (lq_name x) \<and> length (lq_name x) < 256 \<and>
     (lq_exact x \<noteq> None \<or> lq_inclusive x \<noteq> None) \<and>
     (redirects x \<longrightarrow> (\<exists>u. lq_name x = u @ [c_slash]))"

definition is_sorted :: "location list \<Rightarrow> bool" where
  "is_sorted L \<longleftrightarrow> sorted_wrt (\<lambda>x y. fkey (lq_name x) < fkey (lq_name y)) L"

inductive wf_level :: "bytes \<Rightarrow> location list \<Rightarrow> bool" where
  wf_levelI:
  "is_sorted L \<Longrightarrow>
   (\<And>x. x \<in> set L \<Longrightarrow> good_loc x \<and> prefix P (lq_name x)) \<Longrightarrow>
   (\<And>x y. x \<in> set L \<Longrightarrow> y \<in> set L \<Longrightarrow> lq_inclusive x \<noteq> None \<Longrightarrow> \<not> strict_prefix (lq_name x) (lq_name y)) \<Longrightarrow>
   (\<And>x. x \<in> set L \<Longrightarrow> lq_list x \<noteq> [] \<Longrightarrow> lq_inclusive x \<noteq> None) \<Longrightarrow>
   (\<And>x y. x \<in> set L \<Longrightarrow> y \<in> set (lq_list x) \<Longrightarrow> lq_name y \<noteq> lq_name x) \<Longrightarrow>
   (\<And>x. x \<in> set L \<Longrightarrow> wf_level (lq_name x) (lq_list x)) \<Longrightarrow>
   wf_level P L"

inductive_cases wf_levelE: "wf_level P L"

text \<open>The events of a walk at one level: the name is hit, an inclusive prefix, or the name with a slash.\<close>

definition hits :: "bytes \<Rightarrow> location \<Rightarrow> bool" where
  "hits u x \<longleftrightarrow> lq_name x = u"

definition covers :: "bytes \<Rightarrow> location \<Rightarrow> bool" where
  "covers u x \<longleftrightarrow> lq_inclusive x \<noteq> None \<and> strict_prefix (lq_name x) u"

definition slashed :: "bytes \<Rightarrow> location \<Rightarrow> bool" where
  "slashed u x \<longleftrightarrow> redirects x \<and> lq_name x = u @ [c_slash]"

definition hit_answer :: "location \<Rightarrow> int \<times> nat option" where
  "hit_answer x = (case lq_exact x of Some c \<Rightarrow> (NGX_OK, Some (loc_conf c))
     | None \<Rightarrow> (NGX_AGAIN, Some (loc_conf (the (lq_inclusive x)))))"

definition level_answer :: "location list \<Rightarrow> bytes \<Rightarrow> int \<Rightarrow> nat option \<Rightarrow> (int \<times> nat option) option" where
  "level_answer L u rv conf =
     (case find (hits u) L of
        Some x \<Rightarrow> Some (hit_answer x)
      | None \<Rightarrow>
          (case find (covers u) L of
             Some x \<Rightarrow> find_static_loop (ngx_http_create_locations_tree (lq_list x) (length (lq_name x)))
                         (drop (length (lq_name x)) u) NGX_AGAIN (Some (loc_conf (the (lq_inclusive x))))
           | None \<Rightarrow>
               (case find (slashed u) L of
                  Some x \<Rightarrow> Some (NGX_DONE, Some (loc_conf (lq_conf x)))
                | None \<Rightarrow> Some (rv, conf))))"

lemma create_tree_split:
  assumes "L \<noteq> []"
  obtains A x B where "L = A @ x # B"
    and "ngx_http_create_locations_tree L n =
      Node (ngx_http_create_locations_tree A n) (ngx_http_create_locations_tree B n)
        (ngx_http_create_locations_tree (lq_list x) (n + (length (lq_name x) - n)))
        (lq_exact x) (lq_inclusive x) (redirects x) ((length (lq_name x) - n) mod 256) (drop n (lq_name x))"
proof -
  let ?m = "ngx_queue_middle (length L)"
  have m: "?m < length L" and half: "?m = length L div 2" using assms by (simp_all add: queue_middle_half)
  have null: "ngx_http_create_locations_tree [] n = Null" for n
    by (simp add: ngx_http_create_locations_tree.simps [of "[]"])
  have tail: "take ?m L = [] \<Longrightarrow> drop (Suc ?m) L = []"
    using assms half by (cases L; cases "tl L") auto
  show ?thesis
  proof (rule that [of "take ?m L" "L ! ?m" "drop (Suc ?m) L"])
    show "L = take ?m L @ L ! ?m # drop (Suc ?m) L" using m by (simp add: id_take_nth_drop [symmetric])
    show "ngx_http_create_locations_tree L n =
      Node (ngx_http_create_locations_tree (take ?m L) n) (ngx_http_create_locations_tree (drop (Suc ?m) L) n)
        (ngx_http_create_locations_tree (lq_list (L ! ?m)) (n + (length (lq_name (L ! ?m)) - n)))
        (lq_exact (L ! ?m)) (lq_inclusive (L ! ?m)) (redirects (L ! ?m))
        ((length (lq_name (L ! ?m)) - n) mod 256) (drop n (lq_name (L ! ?m)))"
      using assms tail by (subst ngx_http_create_locations_tree.simps) (auto simp: Let_def null redirects_def)
  qed
qed

lemma find_append: "find P (A @ B) = (case find P A of Some x \<Rightarrow> Some x | None \<Rightarrow> find P B)"
  by (induction A) auto

lemma find_none: "(\<And>y. y \<in> set A \<Longrightarrow> \<not> P y) \<Longrightarrow> find P A = None"
  by (simp add: find_None_iff)

subsection \<open>One level\<close>

text \<open>What the order says about the events on the two sides of the location \<open>x\<close> in the middle.\<close>

lemma slash_first: "strict_prefix u x \<Longrightarrow> fkey (u @ [c_slash]) \<le> fkey x"
proof -
  assume "strict_prefix u x"
  then obtain c r where x: "x = u @ c # r" by (metis strict_prefixE')
  have "fkey u @ [0] \<le> fkey u @ frank c # fkey r"
    using list_less_prefix [of "fkey u" "[0]" "frank c # fkey r"] by (cases "frank c"; cases r) (auto simp: order_le_less fkey_def)
  then show ?thesis using x by (simp add: fkey_def frank_def)
qed

lemma key_slashed: "fkey u < fkey (u @ [c_slash])"
  by (intro strict_prefix_key) (simp add: strict_prefix_def)

lemma quiet_right:
  assumes "\<And>y. y \<in> set B \<Longrightarrow> fkey (u @ [c_slash]) < fkey (lq_name y)"
  shows "find (hits u) B = None" "find (covers u) B = None" "find (slashed u) B = None"
  using assms key_slashed [of u] strict_prefix_key
  by (force intro!: find_none simp: hits_def covers_def slashed_def)+

lemma quiet_left:
  assumes "\<And>y. y \<in> set A \<Longrightarrow> fkey (lq_name y) < fkey u"
  shows "find (hits u) A = None" "find (slashed u) A = None"
  using assms key_slashed [of u] by (force intro!: find_none simp: hits_def slashed_def)+

lemma is_sorted_split:
  "is_sorted (A @ x # B) \<Longrightarrow> is_sorted A \<and> is_sorted B \<and>
     (\<forall>y\<in>set A. fkey (lq_name y) < fkey (lq_name x)) \<and> (\<forall>y\<in>set B. fkey (lq_name x) < fkey (lq_name y))"
  by (auto simp: is_sorted_def sorted_wrt_append)

lemma covers_unique:
  assumes "covers u x" "covers u y" "\<not> strict_prefix (lq_name x) (lq_name y)" "\<not> strict_prefix (lq_name y) (lq_name x)"
  shows "lq_name x = lq_name y"
  using assms prefix_same_cases [of "lq_name x" u "lq_name y"] by (auto simp: covers_def strict_prefix_def)

text \<open>A part of a level is a level.\<close>

lemma wf_level_sub: "wf_level P L \<Longrightarrow> set K \<subseteq> set L \<Longrightarrow> is_sorted K \<Longrightarrow> wf_level P K"
  by (erule wf_levelE, rule wf_levelI) (simp_all add: subset_iff)

lemma wf_level_split:
  assumes "wf_level P (A @ x # B)"
  shows "wf_level P A" "wf_level P B"
proof -
  have "is_sorted (A @ x # B)" using assms by (rule wf_levelE)
  then have "is_sorted A" "is_sorted B" using is_sorted_split by blast+
  then show "wf_level P A" "wf_level P B" using assms by (auto intro: wf_level_sub)
qed

text \<open>
  One node: \<open>v\<close> is the rest of the URI and \<open>w\<close> the name of the node, both without the common part \<open>P\<close>.
  The outcome of the comparison is an order of the whole names.
\<close>

lemma node_cmp:
  assumes "0 \<notin> set v" "0 \<notin> set w"
  obtains r where "ngx_filename_cmp v w (min (length v) (length w)) = Some r"
    and "r < 0 \<Longrightarrow> diff_less (P @ v) (P @ w)" "0 < r \<Longrightarrow> diff_less (P @ w) (P @ v)"
    and "r = 0 \<Longrightarrow> prefix v w \<or> prefix w v"
proof -
  let ?n = "min (length v) (length w)"
  obtain r where r: "ngx_filename_cmp v w ?n = Some r" "r = 0 \<longleftrightarrow> take ?n v = take ?n w"
    "r < 0 \<longrightarrow> diff_less v w" "0 < r \<longrightarrow> diff_less w v"
    using filename_cmp_inside [of ?n v w] assms by auto
  have "r = 0 \<Longrightarrow> prefix v w \<or> prefix w v"
    using r(2) by (metis append_take_drop_id le_cases min.absorb1 min.absorb2 prefixI take_all_iff)
  then show ?thesis using that [of r] r diff_less_common by auto
qed

lemma level_answer_side:
  assumes "find (hits u) K = None" "find (covers u) K = None" "find (slashed u) K = None"
  shows "level_answer (A @ K) u rv conf = level_answer A u rv conf"
    "level_answer (K @ A) u rv conf = level_answer A u rv conf"
  by (simp_all add: level_answer_def find_append assms split: option.splits)

lemma go_left:
  assumes "wf_level P (A @ x # B)" "fkey (u @ [c_slash]) < fkey (lq_name x)"
  shows "level_answer (A @ x # B) u rv conf = level_answer A u rv conf"
proof -
  have "is_sorted (A @ x # B)" using assms(1) by (rule wf_levelE)
  then have "fkey (u @ [c_slash]) < fkey (lq_name y)" if "y \<in> set (x # B)" for y
    using that assms(2) is_sorted_split [of A x B] by auto
  from level_answer_side(1) [OF quiet_right [OF this]] show ?thesis .
qed

lemma go_right:
  assumes "wf_level P (A @ x # B)" "fkey (lq_name x) < fkey u" "\<And>y. y \<in> set (A @ [x]) \<Longrightarrow> \<not> covers u y"
  shows "level_answer (A @ x # B) u rv conf = level_answer B u rv conf"
proof -
  have "is_sorted (A @ x # B)" using assms(1) by (rule wf_levelE)
  then have "fkey (lq_name y) < fkey u" if "y \<in> set (A @ [x])" for y
    using that assms(2) is_sorted_split [of A x B] by auto
  note q = quiet_left [OF this]
  have "find (covers u) (A @ [x]) = None" using assms(3) by (rule find_none)
  from level_answer_side(2) [OF q(1) this q(2)] show ?thesis by simp
qed

text \<open>The node is an inclusive prefix: the walk goes into its list.\<close>

lemma go_down:
  assumes "wf_level P (A @ x # B)" "covers u x"
  shows "level_answer (A @ x # B) u rv conf =
    find_static_loop (ngx_http_create_locations_tree (lq_list x) (length (lq_name x)))
      (drop (length (lq_name x)) u) NGX_AGAIN (Some (loc_conf (the (lq_inclusive x))))"
proof -
  have s: "is_sorted (A @ x # B)" using assms(1) by (rule wf_levelE)
  have n: "\<not> strict_prefix (lq_name y) (lq_name z)"
    if "y \<in> set (A @ x # B)" "z \<in> set (A @ x # B)" "lq_inclusive y \<noteq> None" for y z
    using assms(1) that by (elim wf_levelE) blast
  have "find (hits u) (A @ x # B) = None"
    using n [of x] assms(2) by (intro find_none) (auto simp: hits_def covers_def)
  moreover have "find (covers u) A = None"
  proof (rule find_none)
    fix y assume y: "y \<in> set A"
    show "\<not> covers u y"
    proof
      assume "covers u y"
      with assms(2) have "lq_name y = lq_name x" using n [of x y] n [of y x] y
        by (intro covers_unique) (auto simp: covers_def)
      then show False using is_sorted_split [OF s] y by fastforce
    qed
  qed
  ultimately show ?thesis using assms(2) by (simp add: level_answer_def find_append)
qed

text \<open>The node lies behind the URI: it may be the redirect, and the walk goes left.\<close>

lemma go_left_slash:
  assumes "wf_level P (A @ x # B)" "strict_prefix u (lq_name x)"
  shows "level_answer (A @ x # B) u rv conf =
    (if slashed u x then level_answer A u NGX_DONE (Some (loc_conf (lq_conf x))) else level_answer A u rv conf)"
proof -
  have s: "is_sorted (A @ x # B)" using assms(1) by (rule wf_levelE)
  have key: "fkey (u @ [c_slash]) \<le> fkey (lq_name x)" using assms(2) by (rule slash_first)
  then have "fkey (u @ [c_slash]) < fkey (lq_name y)" if "y \<in> set B" for y
    using that is_sorted_split [OF s] by fastforce
  note b = quiet_right [OF this]
  have x: "\<not> hits u x" "\<not> covers u x"
    using assms(2) by (auto simp: hits_def covers_def strict_prefix_def dest: prefix_order.antisym)
  show ?thesis
  proof (cases "slashed u x")
    case True
    then have "find (slashed u) A = None"
      using is_sorted_split [OF s] by (intro find_none) (force simp: slashed_def)
    then show ?thesis using True b x by (simp add: level_answer_def find_append split: option.splits)
  next
    case False
    then show ?thesis using b x level_answer_side(1) [of u "x # B" A rv conf] by simp
  qed
qed

lemma wf_level_member:
  assumes "wf_level P L" "x \<in> set L"
  shows "good_loc x" "prefix P (lq_name x)" "wf_level (lq_name x) (lq_list x)"
    "\<And>y. y \<in> set L \<Longrightarrow> lq_inclusive x \<noteq> None \<Longrightarrow> \<not> strict_prefix (lq_name x) (lq_name y)"
    "lq_list x \<noteq> [] \<Longrightarrow> lq_inclusive x \<noteq> None"
    "\<And>y. y \<in> set (lq_list x) \<Longrightarrow> lq_name y \<noteq> lq_name x"
  using assms by (auto elim: wf_levelE)

text \<open>No location before a node that differs from the URI inside both names is an inclusive prefix of the URI.\<close>

lemma not_covers_before:
  assumes "wf_level P (A @ x # B)" "diff_less (lq_name x) u" "y \<in> set (A @ [x])"
  shows "\<not> covers u y"
proof
  assume c: "covers u y"
  have s: "is_sorted (A @ x # B)" using assms(1) by (rule wf_levelE)
  have n: "\<not> strict_prefix (lq_name y) (lq_name x)"
    using wf_level_member(4) [OF assms(1), of y x] assms(3) c by (auto simp: covers_def)
  have "prefix (lq_name y) (lq_name x) \<or> diff_less (lq_name x) (lq_name y)"
    using c by (intro diff_greater_part [OF assms(2)]) (simp add: covers_def strict_prefix_def)
  moreover have "\<not> diff_less (lq_name x) (lq_name y)"
    using diff_less_key [of "lq_name x" "lq_name y"] is_sorted_split [OF s] assms(3) by fastforce
  ultimately have "lq_name y = lq_name x" using n by (simp add: strict_prefix_def)
  then show False using c diff_less_prefix [OF assms(2)] by (auto simp: covers_def)
qed

text \<open>No exact-only node hides an inclusive prefix that lies before it.\<close>

lemma not_covers_exact:
  assumes "wf_level P (A @ x # B)" "strict_prefix (lq_name x) u" "lq_inclusive x = None" "y \<in> set (A @ [x])"
  shows "\<not> covers u y"
proof
  assume c: "covers u y"
  have s: "is_sorted (A @ x # B)" using assms(1) by (rule wf_levelE)
  have "y \<in> set A" using c assms(3,4) by (auto simp: covers_def)
  then have key: "fkey (lq_name y) < fkey (lq_name x)" using is_sorted_split [OF s] by simp
  have "lq_name y \<noteq> lq_name x" using key by (metis less_irrefl)
  moreover have "\<not> strict_prefix (lq_name x) (lq_name y)"
    using key strict_prefix_key [of "lq_name x" "lq_name y"] by (metis less_asym)
  moreover have "\<not> strict_prefix (lq_name y) (lq_name x)"
    using wf_level_member(4) [OF assms(1), of y x] assms(4) c by (auto simp: covers_def)
  ultimately show False
    using c assms(2) prefix_same_cases [of "lq_name x" u "lq_name y"] by (auto simp: covers_def strict_prefix_def)
qed

text \<open>The cases of one round of the loop at a node with the name \<open>w\<close>, where \<open>v\<close> is left of the URI.\<close>

lemma find_node:
  assumes "0 \<notin> set v" "0 \<notin> set w" "ex \<noteq> None \<or> inc \<noteq> None"
    and f: "f = find_static_loop (Node l r t ex inc red (length w) w) v rv conf"
  obtains (smaller) "diff_less v w" "f = find_static_loop l v rv conf"
  | (larger) "diff_less w v" "f = find_static_loop r v rv conf"
  | (down) c where "strict_prefix w v" "inc = Some c"
      "f = find_static_loop t (drop (length w) v) NGX_AGAIN (Some (loc_conf c))"
  | (beyond) "strict_prefix w v" "inc = None" "f = find_static_loop r v rv conf"
  | (hit) "v = w" "f = Some (case ex of Some c \<Rightarrow> (NGX_OK, Some (loc_conf c))
      | None \<Rightarrow> (NGX_AGAIN, Some (loc_conf (the inc))))"
  | (behind) "strict_prefix v w" "f = (if length v + 1 = length w \<and> red
      then find_static_loop l v NGX_DONE (Some (loc_conf (case ex of Some c \<Rightarrow> c | None \<Rightarrow> the inc)))
      else find_static_loop l v rv conf)"
proof -
  obtain rc where rc: "ngx_filename_cmp v w (min (length v) (length w)) = Some rc"
    and o: "rc < 0 \<Longrightarrow> diff_less v w" "0 < rc \<Longrightarrow> diff_less w v" "rc = 0 \<Longrightarrow> prefix v w \<or> prefix w v"
    using node_cmp [OF assms(1,2), of "[]"] by auto
  have n: "(if length v \<le> length w then length v else length w) = min (length v) (length w)" by simp
  consider "rc < 0" | "0 < rc" | "rc = 0" "strict_prefix w v" | "rc = 0" "v = w" | "rc = 0" "strict_prefix v w"
    using o(3) strict_prefixI by (metis linorder_neqE)
  then show ?thesis
  proof cases
    case 1
    then show ?thesis using smaller o rc by (simp add: f n Let_def)
  next
    case 2
    then show ?thesis using larger o rc by (simp add: f n Let_def)
  next
    case 3
    then have "length w < length v" by (intro prefix_length_less) simp
    then show ?thesis using 3 down beyond rc by (cases inc) (auto simp: f n Let_def min_def)
  next
    case 4
    then show ?thesis using hit rc assms(3) by (auto simp: f n Let_def split: option.splits)
  next
    case 5
    then have "length v < length w" by (intro prefix_length_less)
    then show ?thesis using 5 behind rc assms(3) by (auto simp: f n Let_def split: option.splits if_splits)
  qed
qed

text \<open>The walk through the binary search of one level.\<close>

lemma find_level:
  assumes "wf_level P L" "prefix P u" "0 \<notin> set u"
  shows "find_static_loop (ngx_http_create_locations_tree L (length P)) (drop (length P) u) rv conf =
    level_answer L u rv conf"
  using assms
proof (induction "length L" arbitrary: L rv conf rule: less_induct)
  case less
  show ?case
  proof (cases "L = []")
    case True
    then show ?thesis by (simp add: ngx_http_create_locations_tree.simps [of "[]"] level_answer_def)
  next
    case False
    obtain A x B where L: "L = A @ x # B" and t: "ngx_http_create_locations_tree L (length P) =
      Node (ngx_http_create_locations_tree A (length P)) (ngx_http_create_locations_tree B (length P))
        (ngx_http_create_locations_tree (lq_list x) (length P + (length (lq_name x) - length P)))
        (lq_exact x) (lq_inclusive x) (redirects x) ((length (lq_name x) - length P) mod 256)
        (drop (length P) (lq_name x))"
      using create_tree_split [OF False, of "length P"] by metis
    have wf: "wf_level P (A @ x # B)" using less.prems(1) L by simp
    note m = wf_level_member [OF wf, of x, simplified]
    obtain w where w: "lq_name x = P @ w" using m(2) by (auto simp: prefix_def)
    obtain v where v: "u = P @ v" using less.prems(2) by (auto simp: prefix_def)
    have small: "length w mod 256 = length w" "0 \<notin> set w" "0 \<notin> set v" "lq_exact x \<noteq> None \<or> lq_inclusive x \<noteq> None"
      "redirects x \<Longrightarrow> \<exists>u. lq_name x = u @ [c_slash]"
      using m(1) w v less.prems(3) by (auto simp: good_loc_def)
    have left: "find_static_loop (ngx_http_create_locations_tree A (length P)) v rv' conf' = level_answer A u rv' conf'"
      for rv' conf'
      using less.hyps [of A rv' conf'] L wf_level_split [OF wf] less.prems v by simp
    have right: "find_static_loop (ngx_http_create_locations_tree B (length P)) v rv' conf' = level_answer B u rv' conf'"
      for rv' conf'
      using less.hyps [of B rv' conf'] L wf_level_split [OF wf] less.prems v by simp
    have ux: "diff_less v w \<Longrightarrow> diff_less u (lq_name x)" "diff_less w v \<Longrightarrow> diff_less (lq_name x) u"
      "strict_prefix w v \<Longrightarrow> strict_prefix (lq_name x) u" "strict_prefix v w \<Longrightarrow> strict_prefix u (lq_name x)"
      unfolding v w by (simp_all add: diff_less_common strict_prefix_def)
    have f: "find_static_loop (ngx_http_create_locations_tree L (length P)) (drop (length P) u) rv conf =
      find_static_loop (Node (ngx_http_create_locations_tree A (length P)) (ngx_http_create_locations_tree B (length P))
        (ngx_http_create_locations_tree (lq_list x) (length (lq_name x))) (lq_exact x) (lq_inclusive x) (redirects x)
        (length w) w) v rv conf"
      by (simp only: t) (simp add: w v small(1))
    from small(3,2,4) f show ?thesis
    proof (cases rule: find_node)
      case smaller
      then have "diff_less (u @ [c_slash]) (lq_name x)" using diff_less_extend [OF ux(1), of "[c_slash]" "[]"] by simp
      with go_left [OF wf diff_less_key [OF this]] show ?thesis using smaller left by (simp add: L)
    next
      case larger
      then show ?thesis
        using go_right [OF wf diff_less_key [OF ux(2)] not_covers_before [OF wf ux(2)]] right by (simp add: L)
    next
      case (down c)
      then have "covers u x" using ux(3) by (simp add: covers_def)
      from go_down [OF wf this] show ?thesis using down by (simp add: L v w)
    next
      case beyond
      then show ?thesis
        using go_right [OF wf strict_prefix_key [OF ux(3)] not_covers_exact [OF wf ux(3)]] right by (simp add: L)
    next
      case hit
      then have "lq_name x = u" using v w by simp
      then have "find (hits u) L = Some x" 
        using wf quiet_left(1) [of A u] is_sorted_split [of A x B] by (auto simp: L find_append hits_def elim: wf_levelE)
      then show ?thesis using hit by (simp add: level_answer_def hit_answer_def)
    next
      case behind
      have "slashed u x \<longleftrightarrow> length v + 1 = length w \<and> redirects x"
      proof -
        obtain zs where zs: "w = v @ zs" "zs \<noteq> []" using behind(1) by (auto simp: strict_prefix_def prefix_def)
        have "redirects x \<Longrightarrow> last zs = c_slash" using small(5) zs w by (metis last_append last_snoc append_is_Nil_conv)
        then have "redirects x \<Longrightarrow> length zs = 1 \<longleftrightarrow> zs = [c_slash]"
          using zs(2) by (cases zs) (auto simp: length_0_conv)
        then show ?thesis using zs v w by (auto simp: slashed_def)
      qed
      then show ?thesis using go_left_slash [OF wf ux(4)] behind left by (simp add: L lq_conf_def)
    qed
  qed
qed

subsection \<open>All levels\<close>

text \<open>The locations of a level and of the levels under it.\<close>

inductive_set below :: "location list \<Rightarrow> location set" for L where
  here: "x \<in> set L \<Longrightarrow> x \<in> below L"
| deeper: "x \<in> below L \<Longrightarrow> y \<in> set (lq_list x) \<Longrightarrow> y \<in> below L"

lemma below_list: "z \<in> below (lq_list x) \<Longrightarrow> x \<in> set L \<Longrightarrow> z \<in> below L"
  by (induction rule: below.induct) (auto intro: below.intros)

lemma below_cases:
  assumes "z \<in> below L"
  obtains "z \<in> set L" | x where "x \<in> set L" "z \<in> below (lq_list x)"
proof -
  from assms have "z \<in> set L \<or> (\<exists>x\<in>set L. z \<in> below (lq_list x))"
    by (induction rule: below.induct) (auto intro: below.intros)
  then show ?thesis using that by blast
qed

lemma below_prefix: "z \<in> below L \<Longrightarrow> wf_level P L \<Longrightarrow> prefix P (lq_name z) \<and> good_loc z \<and> wf_level (lq_name z) (lq_list z)"
  by (induction rule: below.induct) (auto dest: wf_level_member intro: prefix_order.order_trans)

lemma below_strict:
  assumes "wf_level P L" "x \<in> set L" "z \<in> below (lq_list x)"
  shows "strict_prefix (lq_name x) (lq_name z)" "lq_inclusive x \<noteq> None"
proof -
  note m = wf_level_member [OF assms(1,2)]
  have p: "prefix (lq_name x) (lq_name y)" if "y \<in> set (lq_list x)" for y
    using wf_level_member(2) [OF m(3) that] .
  have s: "strict_prefix (lq_name x) (lq_name y)" if "y \<in> set (lq_list x)" for y
    using p [OF that] m(6) [OF that] by (auto simp: strict_prefix_def)
  from assms(3) show "strict_prefix (lq_name x) (lq_name z)"
  proof (cases rule: below_cases)
    case (2 y)
    then show ?thesis
      using s [of y] below_prefix [OF 2(2) wf_level_member(3) [OF m(3) 2(1)]]
      by (auto intro: prefix_order.less_le_trans)
  qed (rule s)
  from assms(3) have "lq_list x \<noteq> []" by (cases rule: below_cases) auto
  then show "lq_inclusive x \<noteq> None" by (rule m(5))
qed

text \<open>
  The answer over a set of locations: the location of the name; else the one with a slash more, when it
  redirects; else the longest inclusive prefix; else the answer from before.
\<close>

definition answered :: "location set \<Rightarrow> bytes \<Rightarrow> int \<times> nat option \<Rightarrow> int \<times> nat option \<Rightarrow> bool" where
  "answered E u d a \<longleftrightarrow>
     (\<exists>x\<in>E. hits u x \<and> a = hit_answer x) \<or>
     (\<forall>x\<in>E. \<not> hits u x) \<and>
       ((\<exists>x\<in>E. slashed u x \<and> a = (NGX_DONE, Some (loc_conf (lq_conf x)))) \<or>
        (\<forall>x\<in>E. \<not> slashed u x) \<and>
          ((\<exists>x\<in>E. covers u x \<and> (\<forall>y\<in>E. covers u y \<longrightarrow> length (lq_name y) \<le> length (lq_name x)) \<and>
              a = (NGX_AGAIN, Some (loc_conf (the (lq_inclusive x))))) \<or>
           (\<forall>x\<in>E. \<not> covers u x) \<and> a = d))"

lemma strict_prefix_slash: "strict_prefix s (u @ [c]) \<longleftrightarrow> prefix s u"
  by (auto simp: strict_prefix_def prefix_snoc dest: prefix_order.antisym)

text \<open>Every location that matters lies under the one that covers the URI.\<close>

lemma under_cover:
  assumes "wf_level P L" "\<forall>x\<in>set L. \<not> hits u x" "x \<in> set L" "z \<in> below (lq_list x)"
    and "hits u z \<or> slashed u z \<or> covers u z"
  shows "covers u x"
proof -
  have s: "strict_prefix (lq_name x) (lq_name z)" "lq_inclusive x \<noteq> None"
    using below_strict [OF assms(1,3,4)] by simp_all
  have "prefix (lq_name x) u"
    using assms(5) s(1) strict_prefix_slash [of "lq_name x" u c_slash]
    by (auto simp: hits_def slashed_def covers_def strict_prefix_def intro: prefix_order.order_trans)
  moreover have "lq_name x \<noteq> u" using assms(2,3) by (auto simp: hits_def)
  ultimately show ?thesis using s(2) by (simp add: covers_def strict_prefix_def)
qed

lemma level_covers_unique:
  assumes "wf_level P L" "x \<in> set L" "y \<in> set L" "covers u x" "covers u y"
  shows "x = y"
proof -
  have "lq_name x = lq_name y"
    using wf_level_member(4) [OF assms(1,2,3)] wf_level_member(4) [OF assms(1,3,2)] assms(4,5)
    by (intro covers_unique) (auto simp: covers_def)
  moreover have "is_sorted L" using assms(1) by (rule wf_levelE)
  ultimately show ?thesis using assms(2,3)
    by (auto simp: is_sorted_def in_set_conv_nth sorted_wrt_iff_nth_less) (metis linorder_neqE_nat less_irrefl)
qed

lemma answered_coverI:
  assumes "\<forall>z\<in>E. \<not> hits u z" "\<forall>z\<in>E. \<not> slashed u z" "x \<in> E" "covers u x"
    and "\<forall>y\<in>E. covers u y \<longrightarrow> length (lq_name y) \<le> length (lq_name x)"
    and "a = (NGX_AGAIN, Some (loc_conf (the (lq_inclusive x))))"
  shows "answered E u d a"
proof -
  have "\<exists>x\<in>E. covers u x \<and> (\<forall>y\<in>E. covers u y \<longrightarrow> length (lq_name y) \<le> length (lq_name x)) \<and>
      a = (NGX_AGAIN, Some (loc_conf (the (lq_inclusive x))))"
    using assms(3-6) by (intro bexI [of _ x]) simp_all
  then show ?thesis using assms(1,2) by (simp only: answered_def) simp
qed

lemma answered_cover:
  assumes "wf_level P L" "\<forall>x\<in>set L. \<not> hits u x" "x \<in> set L" "covers u x"
    and a: "answered (below (lq_list x)) u (NGX_AGAIN, Some (loc_conf (the (lq_inclusive x)))) a"
  shows "answered (below L) u d a"
proof -
  let ?B = "below (lq_list x)"
  have sub: "?B \<subseteq> below L" "x \<in> below L" using assms(3) below_list below.here by blast+
  have inside: "z \<in> ?B" if z: "z \<in> below L" "hits u z \<or> slashed u z \<or> covers u z" "z \<noteq> x" for z
    using z(1)
  proof (cases rule: below_cases)
    case 1
    have "\<not> strict_prefix (lq_name x) (lq_name z)"
      using wf_level_member(4) [OF assms(1,3) 1] assms(4) by (simp add: covers_def)
    then have "\<not> slashed u z"
      using assms(4) strict_prefix_slash [of "lq_name x" u c_slash] by (auto simp: slashed_def covers_def strict_prefix_def)
    then show ?thesis using z assms(2) 1 level_covers_unique [OF assms(1,3) 1 assms(4)] by auto
  next
    case (2 y)
    then have "covers u y" using under_cover [OF assms(1,2)] z(2) by blast
    then show ?thesis using level_covers_unique [OF assms(1,3) 2(1) assms(4)] 2(2) by simp
  qed
  have x: "\<not> hits u x" "\<not> slashed u x" using assms(4) by (auto simp: hits_def slashed_def covers_def strict_prefix_def)
  have eq: "(\<forall>z\<in>below L. \<not> hits u z) \<longleftrightarrow> (\<forall>z\<in>?B. \<not> hits u z)" "(\<forall>z\<in>below L. \<not> slashed u z) \<longleftrightarrow> (\<forall>z\<in>?B. \<not> slashed u z)"
    using sub inside x by blast+
  have longer: "length (lq_name x) \<le> length (lq_name z)" if "z \<in> ?B" for z
    using below_strict(1) [OF assms(1,3) that] by (simp add: prefix_length_le strict_prefix_def)
  from a consider (hit) y where "y \<in> ?B" "hits u y" "a = hit_answer y"
    | (slash) y where "\<forall>z\<in>?B. \<not> hits u z" "y \<in> ?B" "slashed u y" "a = (NGX_DONE, Some (loc_conf (lq_conf y)))"
    | (cover) y where "\<forall>z\<in>?B. \<not> hits u z" "\<forall>z\<in>?B. \<not> slashed u z" "y \<in> ?B" "covers u y"
        "\<forall>z\<in>?B. covers u z \<longrightarrow> length (lq_name z) \<le> length (lq_name y)"
        "a = (NGX_AGAIN, Some (loc_conf (the (lq_inclusive y))))"
    | (here) "\<forall>z\<in>?B. \<not> hits u z" "\<forall>z\<in>?B. \<not> slashed u z" "\<forall>z\<in>?B. \<not> covers u z"
        "a = (NGX_AGAIN, Some (loc_conf (the (lq_inclusive x))))"
    unfolding answered_def by blast
  then show ?thesis
  proof cases
    case hit
    then show ?thesis unfolding answered_def using sub(1) by (intro disjI1 bexI [of _ y]) auto
  next
    case slash
    then show ?thesis unfolding answered_def eq using sub(1) by (intro disjI2 conjI disjI1 bexI [of _ y]) auto
  next
    case cover
    have "\<forall>z\<in>below L. covers u z \<longrightarrow> length (lq_name z) \<le> length (lq_name y)"
      using inside cover(5) longer [OF cover(3)] by metis
    with cover show ?thesis using sub(1) eq by (intro answered_coverI [of _ _ y]) blast+
  next
    case here
    have "\<forall>z\<in>below L. covers u z \<longrightarrow> length (lq_name z) \<le> length (lq_name x)"
      using inside here(3) by (metis order_refl)
    with here show ?thesis using sub(2) assms(4) eq by (intro answered_coverI [of _ _ x]) blast+
  qed
qed

lemma answered_cong:
  assumes "\<And>z. hits u z \<or> slashed u z \<or> covers u z \<Longrightarrow> z \<in> E \<longleftrightarrow> z \<in> F"
  shows "answered E u d a \<longleftrightarrow> answered F u d a"
proof -
  have "(\<exists>z\<in>E. hits u z \<and> p z) \<longleftrightarrow> (\<exists>z\<in>F. hits u z \<and> p z)" "(\<exists>z\<in>E. slashed u z \<and> p z) \<longleftrightarrow> (\<exists>z\<in>F. slashed u z \<and> p z)"
    "(\<exists>z\<in>E. covers u z \<and> p z) \<longleftrightarrow> (\<exists>z\<in>F. covers u z \<and> p z)"
    "(\<forall>z\<in>E. \<not> hits u z) \<longleftrightarrow> (\<forall>z\<in>F. \<not> hits u z)" "(\<forall>z\<in>E. \<not> slashed u z) \<longleftrightarrow> (\<forall>z\<in>F. \<not> slashed u z)"
    "(\<forall>z\<in>E. \<not> covers u z) \<longleftrightarrow> (\<forall>z\<in>F. \<not> covers u z)" "(\<forall>z\<in>E. covers u z \<longrightarrow> p z) \<longleftrightarrow> (\<forall>z\<in>F. covers u z \<longrightarrow> p z)" for p
    using assms by blast+
  then show ?thesis by (simp only: answered_def)
qed

lemma answered_level:
  assumes "wf_level P L" "\<forall>x\<in>set L. \<not> hits u x" "\<forall>x\<in>set L. \<not> covers u x"
  shows "answered (below L) u d a \<longleftrightarrow> answered (set L) u d a"
proof -
  have "z \<in> set L" if z: "z \<in> below L" "hits u z \<or> slashed u z \<or> covers u z" for z
    using z(1)
  proof (cases rule: below_cases)
    case (2 x)
    then show ?thesis using under_cover [OF assms(1,2) 2] z(2) assms(3) by blast
  qed
  then show ?thesis by (intro answered_cong) (blast intro: below.here)
qed

text \<open>The walk ends, stays inside the names, and answers over all levels.\<close>

lemma level_routed:
  assumes "wf_level P L" "prefix P u" "0 \<notin> set u"
  shows "\<exists>a. find_static_loop (ngx_http_create_locations_tree L (length P)) (drop (length P) u) rv conf = Some a \<and>
    answered (below L) u (rv, conf) a"
  using assms
proof (induction arbitrary: rv conf)
  case (wf_levelI L P)
  have wf: "wf_level P L" by (rule wf_level.wf_levelI) (fact wf_levelI.hyps)+
  note walk = find_level [OF wf wf_levelI.prems, of rv conf]
  consider (hit) x where "find (hits u) L = Some x" | (cover) x where "find (hits u) L = None" "find (covers u) L = Some x"
    | (flat) "find (hits u) L = None" "find (covers u) L = None" by fastforce
  then show ?case
  proof cases
    case (hit x)
    then have "x \<in> set L" "hits u x" by (auto simp: find_Some_iff)
    then show ?thesis using hit by (auto simp: walk level_answer_def answered_def intro: below.here)
  next
    case (cover x)
    then have x: "x \<in> set L" "covers u x" and n: "\<forall>x\<in>set L. \<not> hits u x" by (auto simp: find_Some_iff find_None_iff)
    have "prefix (lq_name x) u" using x(2) by (simp add: covers_def strict_prefix_def)
    from wf_levelI.IH [OF x(1) this wf_levelI.prems(2)]
    obtain a where "find_static_loop (ngx_http_create_locations_tree (lq_list x) (length (lq_name x)))
        (drop (length (lq_name x)) u) NGX_AGAIN (Some (loc_conf (the (lq_inclusive x)))) = Some a"
      "answered (below (lq_list x)) u (NGX_AGAIN, Some (loc_conf (the (lq_inclusive x)))) a" by blast
    then show ?thesis using cover answered_cover [OF wf n x] by (intro exI [of _ a]) (simp add: walk level_answer_def)
  next
    case flat
    then have n: "\<forall>x\<in>set L. \<not> hits u x" "\<forall>x\<in>set L. \<not> covers u x" by (auto simp: find_None_iff)
    show ?thesis unfolding answered_level [OF wf n]
      using flat n by (auto simp: walk level_answer_def answered_def find_Some_iff find_None_iff split: option.splits)
  qed
qed

subsection \<open>The list of lists\<close>

text \<open>Names with a common prefix stand together in the order.\<close>

lemma list_between: "xs \<le> ys \<Longrightarrow> ys \<le> xs @ zs \<Longrightarrow> take (length xs) ys = (xs :: nat list)"
proof (induction xs arbitrary: ys)
  case (Cons x xs)
  then show ?case by (cases ys) (auto simp: order_le_less)
qed simp

lemma prefix_between:
  assumes "fkey q \<le> fkey y" "fkey y \<le> fkey z" "prefix q z"
  shows "prefix q y"
proof -
  obtain r where "z = q @ r" using assms(3) by (auto simp: prefix_def)
  then have "take (length (fkey q)) (fkey y) = fkey q" using assms(1,2) by (intro list_between [of _ _ "fkey r"]) (simp_all add: fkey_def)
  then have "fkey (take (length q) y) = fkey q" by (simp add: fkey_def take_map)
  then have "take (length q) y = q" by simp
  then show ?thesis by (metis take_is_prefix)
qed

lemma has_prefix_iff: "0 \<notin> set n \<Longrightarrow> good_loc x \<Longrightarrow> has_prefix n x \<longleftrightarrow> prefix n (lq_name x)"
proof -
  assume a: "0 \<notin> set n" "good_loc x"
  have "prefix n (lq_name x) \<longleftrightarrow> length n \<le> length (lq_name x) \<and> take (length n) (lq_name x) = n"
    by (metis prefix_length_le append_eq_conv_conj prefix_def take_is_prefix)
  then show ?thesis
    using filename_cmp_inside [of "length n" n "lq_name x"] a by (auto simp: has_prefix_def good_loc_def)
qed

text \<open>At the start every list is empty, and then the equations of the function are simpler.\<close>

lemma create_list_leaf:
  assumes "lq_list q = []"
  shows "ngx_http_create_locations_list (q # queue) =
     (if lq_inclusive q = None then q # ngx_http_create_locations_list queue
      else Location (lq_name q) (lq_exact q) (lq_inclusive q)
             (ngx_http_create_locations_list (takeWhile (has_prefix (lq_name q)) queue))
           # ngx_http_create_locations_list (dropWhile (has_prefix (lq_name q)) queue))"
proof -
  have "Location (lq_name q) (lq_exact q) (lq_inclusive q) [] = q" using assms by (metis location.collapse)
  then show ?thesis using assms
    by (cases "dropWhile (has_prefix (lq_name q)) queue = []";
        cases "queue = []"; cases "takeWhile (has_prefix (lq_name q)) queue = []")
      (simp_all add: Let_def del: dropWhile_eq_Nil_conv takeWhile_eq_Nil_iff)
qed

definition leaf :: "location \<Rightarrow> location" where
  "leaf x = Location (lq_name x) (lq_exact x) (lq_inclusive x) []"

lemma leaf_simps [simp]:
  "lq_name (leaf x) = lq_name x" "lq_exact (leaf x) = lq_exact x" "lq_inclusive (leaf x) = lq_inclusive x"
  "lq_list (leaf x) = []" "redirects (leaf x) = redirects x" "lq_conf (leaf x) = lq_conf x"
  by (simp_all add: leaf_def redirects_def lq_conf_def split: option.splits)

lemma leaf_id: "lq_list x = [] \<Longrightarrow> leaf x = x"
  by (cases x) (simp add: leaf_def)

lemma below_Cons: "below (x # L) = insert x (below (lq_list x) \<union> below L)"
proof (intro equalityI subsetI)
  fix z assume "z \<in> below (x # L)"
  then show "z \<in> insert x (below (lq_list x) \<union> below L)" by (cases rule: below_cases) (auto intro: below.here below_list)
next
  fix z assume "z \<in> insert x (below (lq_list x) \<union> below L)"
  then show "z \<in> below (x # L)"
  proof (elim insertE UnE)
    assume "z \<in> below L"
    then show ?thesis by (cases rule: below_cases) (auto intro: below.here below_list)
  qed (auto intro: below.here below_list)
qed

lemma below_Nil [simp]: "below [] = {}"
  by (auto elim: below_cases)

text \<open>A level gets a new first location: one without a list, or one with the names it is a prefix of.\<close>

lemma wf_level_ConsI:
  assumes "wf_level P L" "good_loc q" "prefix P (lq_name q)"
    and "\<And>y. y \<in> set L \<Longrightarrow> fkey (lq_name q) < fkey (lq_name y)"
    and "\<And>y. y \<in> set L \<Longrightarrow> lq_inclusive q \<noteq> None \<Longrightarrow> \<not> prefix (lq_name q) (lq_name y)"
    and "lq_list q \<noteq> [] \<Longrightarrow> lq_inclusive q \<noteq> None"
    and "\<And>y. y \<in> set (lq_list q) \<Longrightarrow> lq_name y \<noteq> lq_name q" "wf_level (lq_name q) (lq_list q)"
  shows "wf_level P (q # L)"
proof (rule wf_levelI)
  have "is_sorted L" using assms(1) by (rule wf_levelE)
  then show "is_sorted (q # L)" using assms(4) by (simp add: is_sorted_def)
  show "good_loc x \<and> prefix P (lq_name x)" if "x \<in> set (q # L)" for x
    using that assms(2,3) wf_level_member [OF assms(1)] by auto
  show "\<not> strict_prefix (lq_name x) (lq_name y)" if "x \<in> set (q # L)" "y \<in> set (q # L)" "lq_inclusive x \<noteq> None" for x y
  proof
    assume s: "strict_prefix (lq_name x) (lq_name y)"
    then have k: "fkey (lq_name x) < fkey (lq_name y)" by (rule strict_prefix_key)
    have "x \<in> set L \<Longrightarrow> y \<noteq> q" using assms(4) [of x] k by (metis less_asym)
    then show False
      using that s assms(5) wf_level_member(4) [OF assms(1)] by (auto simp: strict_prefix_def)
  qed
qed (use assms wf_level_member(3,5,6) [OF assms(1)] in auto)

lemma is_sorted_sub: "is_sorted (q # L) \<Longrightarrow> is_sorted (takeWhile p L) \<and> is_sorted (dropWhile p L)"
  by (auto simp: is_sorted_def intro: sorted_wrt_takeWhile sorted_wrt_dropWhile)

lemma create_list_wf:
  assumes "is_sorted L" "\<And>x. x \<in> set L \<Longrightarrow> good_loc x \<and> prefix P (lq_name x) \<and> lq_list x = []"
  shows "wf_level P (ngx_http_create_locations_list L) \<and> leaf ` below (ngx_http_create_locations_list L) = set L"
  using assms
proof (induction "length L" arbitrary: L P rule: less_induct)
  case less
  show ?case
  proof (cases L)
    case Nil
    then show ?thesis by (auto simp: is_sorted_def intro: wf_levelI)
  next
    case (Cons q queue)
    let ?in = "takeWhile (has_prefix (lq_name q)) queue" and ?af = "dropWhile (has_prefix (lq_name q)) queue"
    let ?c = ngx_http_create_locations_list
    have q: "good_loc q" "prefix P (lq_name q)" "lq_list q = []" "0 \<notin> set (lq_name q)"
      using less.prems(2) [of q] Cons by (simp_all add: good_loc_def)
    have sub: "is_sorted ?in" "is_sorted ?af" "is_sorted queue" using less.prems(1) Cons is_sorted_sub by (auto simp: is_sorted_def)
    have first: "fkey (lq_name q) < fkey (lq_name y)" if "y \<in> set queue" for y
      using less.prems(1) that Cons by (simp add: is_sorted_def)
    have names: "\<exists>z\<in>set K. lq_name z = lq_name y" if "y \<in> set (?c K)" "leaf ` below (?c K) = set K" for y K
      using that below.here [of y "?c K"] by (metis imageI leaf_simps(1))
    show ?thesis
    proof (cases "lq_inclusive q = None")
      case True
      have ih: "wf_level P (?c queue) \<and> leaf ` below (?c queue) = set queue"
        using less.hyps [of queue P] less.prems(2) Cons sub by simp
      have "fkey (lq_name q) < fkey (lq_name y)" if "y \<in> set (?c queue)" for y
        using names [OF that] ih first by metis
      then have "wf_level P (q # ?c queue)"
        using ih q True by (intro wf_level_ConsI) (auto simp: is_sorted_def intro: wf_levelI)
      then show ?thesis using ih True q(3) Cons 
        by (simp add: create_list_leaf [OF q(3)] below_Cons leaf_id image_Un del: ngx_http_create_locations_list.simps(2))
    next
      case False
      have in_prefix: "prefix (lq_name q) (lq_name y)" if "y \<in> set ?in" for y
        using set_takeWhileD [OF that] has_prefix_iff [OF q(4)] less.prems(2) Cons by auto
      have af_prefix: "\<not> prefix (lq_name q) (lq_name y)" if "y \<in> set ?af" for y
      proof
        assume p: "prefix (lq_name q) (lq_name y)"
        have "?af \<noteq> []" using that by (intro notI) (simp only: list.set empty_iff)
        then obtain z af where af: "?af = z # af" by (auto simp only: neq_Nil_conv)
        have z: "\<not> has_prefix (lq_name q) z" using af dropWhile_eq_Cons_conv by (simp only: dropWhile_eq_Cons_conv simp_thms)
        have zq: "z \<in> set queue" using set_dropWhileD [of z "has_prefix (lq_name q)" queue] by (simp only: af list.set insert_iff simp_thms)
        have "fkey (lq_name z) \<le> fkey (lq_name y)" using sub(2) that af by (auto simp: is_sorted_def)
        then have "prefix (lq_name q) (lq_name z)" using prefix_between p first [OF zq] by (metis less_imp_le)
        then show False using z zq has_prefix_iff [OF q(4)] less.prems(2) Cons by auto
      qed
      have ih_in: "wf_level (lq_name q) (?c ?in) \<and> leaf ` below (?c ?in) = set ?in"
        using less.prems(2) Cons sub in_prefix
        by (intro less.hyps) (auto simp: less_Suc_eq_le length_takeWhile_le dest: set_takeWhileD)
      have ih_af: "wf_level P (?c ?af) \<and> leaf ` below (?c ?af) = set ?af"
        using less.prems(2) Cons sub
        by (intro less.hyps) (auto simp: less_Suc_eq_le length_dropWhile_le dest: set_dropWhileD)
      let ?q = "Location (lq_name q) (lq_exact q) (lq_inclusive q) (?c ?in)"
      have in_name: "\<exists>z\<in>set ?in. lq_name z = lq_name y" if "y \<in> set (?c ?in)" for y using names [OF that] ih_in by blast
      have af_name: "\<exists>z\<in>set ?af. lq_name z = lq_name y" if "y \<in> set (?c ?af)" for y using names [OF that] ih_af by blast
      have "wf_level P (?q # ?c ?af)"
      proof (intro wf_level_ConsI)
        show "good_loc ?q" using q(1) by (simp add: good_loc_def redirects_def)
        show "fkey (lq_name ?q) < fkey (lq_name y)" if "y \<in> set (?c ?af)" for y
          using af_name [OF that] first by (metis location.sel(1) set_dropWhileD)
        show "\<not> prefix (lq_name ?q) (lq_name y)" if "y \<in> set (?c ?af)" for y
          using af_name [OF that] af_prefix by (metis location.sel(1))
        show "lq_name y \<noteq> lq_name ?q" if "y \<in> set (lq_list ?q)" for y
          using in_name [of y] that first by (metis less_irrefl location.sel(1,4) set_takeWhileD)
      qed (use q ih_in ih_af False in simp_all)
      moreover have "leaf ` below (?q # ?c ?af) = set L"
        using ih_in ih_af Cons leaf_id [OF q(3)] by (simp add: below_Cons image_Un leaf_def) (metis set_append takeWhile_dropWhile_id)
      moreover have "?c L = ?q # ?c ?af" unfolding Cons create_list_leaf [OF q(3)] using False by (rule if_not_P)
      ultimately show ?thesis by (simp only: simp_thms)
    qed
  qed
qed

end
