(* ===== verification/Ngx_Route.thy ===== *)
theory Ngx_Route
  imports Ngx_Routing
begin

text \<open>
  From the configuration to the answer: the order in which \<open>ngx_http_cmp_locations\<close> sorts, the split of the
  sorted queue in \<open>ngx_http_init_locations\<close>, the merge of exact and inclusive locations, and the theorem
  \<open>location_routing\<close>, which follows a request from the locations of a server to its answer.
\<close>

subsection \<open>The order of locations\<close>

text \<open>
  The unnamed last, before them the named ones by their names, before them the regular expressions, and
  first the plain ones by their names, an exact one before the inclusive one.
\<close>

definition plain :: "clcf \<Rightarrow> bool" where
  "plain c \<longleftrightarrow> \<not> noname c \<and> \<not> named c \<and> \<not> regex c"

definition loc_key :: "clcf \<Rightarrow> nat list" where
  "loc_key c =
     (if noname c then [3] else if named c then 2 # map unat (clcf_name c) else if regex c then [1]
      else 0 # map (\<lambda>b. frank b + 2) (clcf_name c) @ [if exact_match c then 0 else 1])"

definition zero_free :: "location set" where
  "zero_free = {x. 0 \<notin> set (clcf_name (lq_conf x))}"

lemma strcmp_names:
  "0 \<notin> set s \<Longrightarrow> 0 \<notin> set t \<Longrightarrow> \<exists>r. strcmp (s @ [0]) (t @ [0]) = Some r \<and> (r \<le> 0 \<longleftrightarrow> map unat s \<le> map unat t)"
proof (induction s arbitrary: t)
  case Nil
  then show ?case by (cases t) auto
next
  case (Cons c s)
  show ?case
  proof (cases t)
    case Nil
    then have "uint c \<noteq> 0" using Cons.prems by (simp add: uint_0_iff)
    then have "0 < uint c" using uint_ge_0 [of c] by linarith
    then show ?thesis using Cons.prems Nil by auto
  next
    case (Cons d t')
    then show ?thesis using Cons.IH [of t'] Cons.prems
      by (auto simp: word_less_nat_alt [symmetric] word_less_def [symmetric] word_unat_eq_iff [symmetric] word_uint_eq_iff [symmetric] order_le_less)
  qed
qed

lemma plain_key_le:
  "a \<le> 1 \<Longrightarrow> b \<le> 1 \<Longrightarrow>
     map (\<lambda>b. frank b + 2) s @ [a] \<le> map (\<lambda>b. frank b + 2) t @ [b] \<longleftrightarrow> (if s = t then a \<le> b else fkey s \<le> fkey t)"
proof (induction s arbitrary: t)
  case Nil
  then show ?case by (cases t) (auto simp: fkey_def)
next
  case (Cons c s)
  then show ?case by (cases t) (auto simp: fkey_def frank_inj)
qed

lemma cmp_locations_key:
  assumes "x \<in> zero_free" "y \<in> zero_free"
  shows "ngx_http_cmp_locations x y \<le> 0 \<longleftrightarrow> loc_key (lq_conf x) \<le> loc_key (lq_conf y)"
proof -
  let ?s = "clcf_name (lq_conf x)" and ?t = "clcf_name (lq_conf y)"
  have z: "0 \<notin> set ?s" "0 \<notin> set ?t" using assms by (simp_all add: zero_free_def)
  obtain r where r: "strcmp (?s @ [0]) (?t @ [0]) = Some r" "r \<le> 0 \<longleftrightarrow> map unat ?s \<le> map unat ?t"
    using strcmp_names [OF z] by auto
  obtain q where q: "ngx_filename_cmp (?s @ [0]) (?t @ [0]) (min (length ?s) (length ?t) + 1) = Some q"
    "q = 0 \<longleftrightarrow> ?s = ?t" "q \<le> 0 \<longleftrightarrow> fkey ?s \<le> fkey ?t" using filename_cmp_names [OF z] by auto
  show ?thesis
  proof (cases "plain (lq_conf x) \<and> plain (lq_conf y)")
    case True
    then show ?thesis
      using q plain_key_le [of "if exact_match (lq_conf x) then 0 else 1" "if exact_match (lq_conf y) then 0 else 1" ?s ?t]
      by (auto simp: ngx_http_cmp_locations_def Let_def name_cmp_def plain_def loc_key_def)
  next
    case False
    then show ?thesis using r by (auto simp: ngx_http_cmp_locations_def Let_def name_cmp_def plain_def loc_key_def)
  qed
qed

interpretation locations: comparison ngx_http_cmp_locations zero_free
  by unfold_locales (use cmp_locations_key linear order_trans in \<open>metis\<close>)+

subsection \<open>The sorted queue\<close>

definition special :: "clcf \<Rightarrow> bool" where
  "special c \<longleftrightarrow> exact_match c \<or> regex c \<or> named c \<or> noname c"

definition loc_of :: "clcf \<Rightarrow> location" where
  "loc_of c = (if special c then Location (clcf_name c) (Some c) None [] else Location (clcf_name c) None (Some c) [])"

lemma loc_of_simps [simp]:
  "lq_name (loc_of c) = clcf_name c" "lq_conf (loc_of c) = c" "lq_list (loc_of c) = []"
  "lq_exact (loc_of c) = (if special c then Some c else None)" "lq_inclusive (loc_of c) = (if special c then None else Some c)"
  by (simp_all add: loc_of_def lq_conf_def)

definition queue_of :: "clcf list \<Rightarrow> location list" where
  "queue_of cs = foldl ngx_http_add_location [] cs"

lemma queue_of_map: "queue_of cs = map loc_of cs"
proof -
  have "foldl ngx_http_add_location ls cs = ls @ map loc_of cs" for ls
    by (induction cs arbitrary: ls) (auto simp: ngx_http_add_location_def loc_of_def special_def)
  then show ?thesis by (simp add: queue_of_def)
qed

lemma takeWhile_both: "takeWhile p (takeWhile q xs) = takeWhile (\<lambda>x. q x \<and> p x) xs"
  by (induction xs) auto

lemma takeWhile_filter: "sorted_wrt (\<lambda>x y. p y \<longrightarrow> p x) xs \<Longrightarrow> takeWhile p xs = filter p xs"
  by (induction xs) (auto simp: filter_False)

lemma dropWhile_filter: "sorted_wrt (\<lambda>x y. p x \<longrightarrow> p y) xs \<Longrightarrow> dropWhile (\<lambda>x. \<not> p x) xs = filter p xs"
  by (induction xs) (auto simp: filter_True)

text \<open>The class of a location is the first number of its key.\<close>

lemma plain_first: "loc_key c \<le> loc_key d \<Longrightarrow> plain d \<Longrightarrow> plain c"
  by (auto simp: plain_def loc_key_def split: if_splits)

lemma static_sorted:
  assumes "\<forall>c\<in>set cs. 0 \<notin> set (clcf_name c)"
  shows "static_queue (ngx_http_init_locations (queue_of cs)) =
    filter (\<lambda>x. plain (lq_conf x)) (ngx_queue_sort ngx_http_cmp_locations (queue_of cs))"
    and "sorted_wrt (\<lambda>x y. loc_key (lq_conf x) \<le> loc_key (lq_conf y)) (ngx_queue_sort ngx_http_cmp_locations (queue_of cs))"
proof -
  let ?q = "ngx_queue_sort ngx_http_cmp_locations (queue_of cs)"
  have z: "set (queue_of cs) \<subseteq> zero_free" using assms by (auto simp: queue_of_map zero_free_def)
  have s: "set ?q \<subseteq> zero_free" using z by (simp add: locations.queue_sort_set)
  show key: "sorted_wrt (\<lambda>x y. loc_key (lq_conf x) \<le> loc_key (lq_conf y)) ?q"
    using locations.queue_sort_order [OF z] s by (auto simp: cmp_locations_key subset_iff elim!: sorted_wrt_mono_rel [rotated])
  have "(\<lambda>q. ((regex (lq_conf q) \<or> named (lq_conf q) \<or> \<not> noname (lq_conf q)) \<and>
      \<not> (\<not> regex (lq_conf q) \<and> named (lq_conf q))) \<and> \<not> regex (lq_conf q)) = (\<lambda>q. plain (lq_conf q))"
    by (auto simp: plain_def)
  then have "static_queue (ngx_http_init_locations (queue_of cs)) = takeWhile (\<lambda>q. plain (lq_conf q)) ?q"
    by (simp add: ngx_http_init_locations_def Let_def takeWhile_both)
  also have "\<dots> = filter (\<lambda>q. plain (lq_conf q)) ?q"
    using key by (intro takeWhile_filter) (auto elim!: sorted_wrt_mono_rel [rotated] intro: plain_first)
  finally show "static_queue (ngx_http_init_locations (queue_of cs)) = filter (\<lambda>x. plain (lq_conf x)) ?q" .
qed

text \<open>The regular expressions stay in the order of the configuration.\<close>

lemma regex_order:
  assumes "\<forall>c\<in>set cs. 0 \<notin> set (clcf_name c) \<and> (regex c \<longrightarrow> \<not> named c \<and> \<not> noname c)"
  shows "regex_locations (ngx_http_init_locations (queue_of cs)) = filter regex cs"
proof -
  let ?q = "ngx_queue_sort ngx_http_cmp_locations (queue_of cs)"
  let ?early = "\<lambda>q. plain (lq_conf q) \<or> regex (lq_conf q)"
  have z: "set (queue_of cs) \<subseteq> zero_free" using assms by (auto simp: queue_of_map zero_free_def)
  have set: "set ?q = loc_of ` set cs" by (simp add: locations.queue_sort_set queue_of_map)
  have key: "sorted_wrt (\<lambda>x y. loc_key (lq_conf x) \<le> loc_key (lq_conf y)) ?q" using static_sorted(2) assms by blast
  have early: "?early y \<Longrightarrow> ?early x" and late: "?early y \<Longrightarrow> regex (lq_conf x) \<Longrightarrow> regex (lq_conf y)"
    if "x \<in> set ?q" "y \<in> set ?q" "loc_key (lq_conf x) \<le> loc_key (lq_conf y)" for x y
    using that assms by (auto simp: set plain_def loc_key_def split: if_splits)
  have "sorted_wrt (\<lambda>x y. ?early y \<longrightarrow> ?early x) ?q"
    using key early by (auto elim!: sorted_wrt_mono_rel [rotated])
  then have f: "takeWhile ?early ?q = filter ?early ?q" by (rule takeWhile_filter)
  have "sorted_wrt (\<lambda>x y. ?early y \<longrightarrow> regex (lq_conf x) \<longrightarrow> regex (lq_conf y)) ?q"
    using key late by (auto elim!: sorted_wrt_mono_rel [rotated])
  from sorted_wrt_filter [OF this, of ?early]
  have "sorted_wrt (\<lambda>x y. regex (lq_conf x) \<longrightarrow> regex (lq_conf y)) (filter ?early ?q)"
    by (auto elim!: sorted_wrt_mono_rel [rotated])
  then have d: "dropWhile (\<lambda>q. \<not> regex (lq_conf q)) (filter ?early ?q) = filter (\<lambda>q. regex (lq_conf q)) (filter ?early ?q)"
    by (rule dropWhile_filter)
  have "(\<lambda>q. (regex (lq_conf q) \<or> named (lq_conf q) \<or> \<not> noname (lq_conf q)) \<and>
      \<not> (\<not> regex (lq_conf q) \<and> named (lq_conf q))) = ?early" by (auto simp: plain_def)
  then have "regex_locations (ngx_http_init_locations (queue_of cs)) =
      map (\<lambda>q. the (lq_exact q)) (filter (\<lambda>q. regex (lq_conf q)) ?q)"
    by (simp add: ngx_http_init_locations_def Let_def takeWhile_both f d conj_comms) (metis (mono_tags, lifting) filter_cong)
  moreover have "filter (\<lambda>q. regex (lq_conf q)) ?q = filter (\<lambda>q. regex (lq_conf q)) (queue_of cs)"
  proof (cases "\<exists>c\<in>set cs. regex c")
    case True
    then obtain c where c: "c \<in> set cs" "regex c" by blast
    have alike: "locations.alike (loc_of c) y \<longleftrightarrow> regex (lq_conf y)" if y: "y \<in> set (queue_of cs)" for y
    proof -
      have "y \<in> zero_free" "loc_of c \<in> zero_free" using z y c by (auto simp: queue_of_map)
      then show ?thesis using y c assms by (auto simp: locations.alike_def cmp_locations_key loc_key_def queue_of_map)
    qed
    have "filter (locations.alike (loc_of c)) ?q = filter (locations.alike (loc_of c)) (queue_of cs)"
      using z c by (intro locations.queue_sort_stable) (auto simp: queue_of_map)
    then show ?thesis using alike by (metis (mono_tags, lifting) filter_cong locations.queue_sort_set)
  next
    case False
    then show ?thesis using set by (simp add: queue_of_map filter_False)
  qed
  moreover have "map (\<lambda>q. the (lq_exact q)) (filter (\<lambda>q. regex (lq_conf q)) (queue_of cs)) = filter regex cs"
    by (induction cs) (auto simp: queue_of_map special_def)
  ultimately show ?thesis by simp
qed

subsection \<open>The merge\<close>

text \<open>The locations of a list, one entry for each configuration, with the exact ones marked.\<close>

definition entry :: "location \<Rightarrow> (bytes \<times> bool \<times> clcf) list" where
  "entry x = (case lq_exact x of Some c \<Rightarrow> [(lq_name x, True, c)] | None \<Rightarrow> []) @
     (case lq_inclusive x of Some c \<Rightarrow> [(lq_name x, False, c)] | None \<Rightarrow> [])"

definition entries :: "location list \<Rightarrow> (bytes \<times> bool \<times> clcf) list" where
  "entries L = concat (map entry L)"

definition used_name :: "bytes \<times> bool \<times> clcf \<Rightarrow> bytes \<times> bool" where
  "used_name e = (fst e, fst (snd e))"

lemma entries_simps [simp]: "entries [] = []" "entries (x # L) = entry x @ entries L" "entries (K @ L) = entries K @ entries L"
  by (simp_all add: entries_def)

definition in_place :: "location \<Rightarrow> location \<Rightarrow> bool" where
  "in_place x y \<longleftrightarrow> fkey (lq_name x) \<le> fkey (lq_name y) \<and> (lq_name x = lq_name y \<and> lq_exact x = None \<longrightarrow> lq_exact y = None)"

definition occupied :: "location \<Rightarrow> bool" where
  "occupied x \<longleftrightarrow> (lq_exact x \<noteq> None \<or> lq_inclusive x \<noteq> None) \<and> lq_list x = [] \<and> 0 \<notin> set (lq_name x)"

lemma same_name:
  assumes "0 \<notin> set s" "0 \<notin> set t" "length s = length t"
  shows "ngx_filename_cmp s t (length t) = Some 0 \<longleftrightarrow> s = t"
  using filename_cmp_inside [of "length t" s t] assms by auto

text \<open>A merge keeps the entries; it fails only where two entries of one kind have one name.\<close>

lemma join_exact:
  assumes "sorted_wrt in_place L" "\<forall>x\<in>set L. occupied x"
  shows "case ngx_http_join_exact_locations L of
      None \<Rightarrow> \<not> distinct (map used_name (entries L))
    | Some J \<Rightarrow> entries J = entries L \<and> is_sorted J \<and> (\<forall>x\<in>set J. occupied x) \<and> set (map lq_name J) = set (map lq_name L)"
  using assms
proof (induction L rule: ngx_http_join_exact_locations.induct)
  case (3 q x queue)
  have o: "occupied q" "occupied x" "in_place q x" using 3 by simp_all
  show ?case
  proof (cases "lq_name q = lq_name x")
    case True
    then have same: "length (lq_name q) = length (lq_name x) \<and> ngx_filename_cmp (lq_name q) (lq_name x) (length (lq_name x)) = Some 0"
      using same_name [of "lq_name q" "lq_name x"] o by (simp add: occupied_def)
    show ?thesis
    proof (cases "(lq_exact q \<noteq> None \<and> lq_exact x \<noteq> None) \<or> (lq_inclusive q \<noteq> None \<and> lq_inclusive x \<noteq> None)")
      case dup: True
      then have "\<not> distinct (map used_name (entries (q # x # queue)))"
        using True by (auto simp: entry_def used_name_def split: option.splits)
      then show ?thesis using same dup by simp
    next
      case False
      then have kind: "lq_exact q \<noteq> None" "lq_inclusive q = None" "lq_exact x = None" "lq_inclusive x \<noteq> None"
        using o True by (auto simp: occupied_def in_place_def)
      let ?m = "Location (lq_name q) (lq_exact q) (lq_inclusive x) (lq_list q)"
      have "entries (?m # queue) = entries (q # x # queue)" using kind True by (auto simp: entry_def)
      moreover have "\<forall>y\<in>set queue. in_place ?m y" "\<forall>x\<in>set (?m # queue). occupied x"
        using 3(3,4) kind by (auto simp: in_place_def occupied_def)
      then have "sorted_wrt in_place (?m # queue)" "\<forall>x\<in>set (?m # queue). occupied x" using 3(3) by simp_all
      moreover have "set (map lq_name (?m # queue)) = set (map lq_name (q # x # queue))" using True by auto
      moreover have "ngx_http_join_exact_locations (q # x # queue) = ngx_http_join_exact_locations (?m # queue)"
        unfolding ngx_http_join_exact_locations.simps if_P [OF same] if_not_P [OF False] ..
      ultimately show ?thesis using 3(1) [OF same False] by metis
    qed
  next
    case False
    then have differ: "\<not> (length (lq_name q) = length (lq_name x) \<and> ngx_filename_cmp (lq_name q) (lq_name x) (length (lq_name x)) = Some 0)"
      using same_name [of "lq_name q" "lq_name x"] o by (auto simp: occupied_def)
    have above: "fkey (lq_name q) < fkey (lq_name y)" if "lq_name y \<in> lq_name ` set (x # queue)" for y
    proof -
      have "fkey (lq_name q) < fkey (lq_name x)" using o(3) False by (simp add: in_place_def order_le_less)
      moreover have "fkey (lq_name x) \<le> fkey (lq_name y)" using that 3(3) by (auto simp: in_place_def)
      ultimately show ?thesis by (rule less_le_trans)
    qed
    have apart: "ngx_http_join_exact_locations (q # x # queue) = map_option ((#) q) (ngx_http_join_exact_locations (x # queue))"
      unfolding ngx_http_join_exact_locations.simps if_not_P [OF differ] ..
    show ?thesis
    proof (cases "ngx_http_join_exact_locations (x # queue)")
      case (Some J)
      then have ih: "entries J = entries (x # queue)" "is_sorted J" "\<forall>x\<in>set J. occupied x"
        "lq_name ` set J = lq_name ` set (x # queue)" using 3(2) [OF differ] 3(3,4) by simp_all
      then have "is_sorted (q # J)" using above by (auto simp: is_sorted_def)
      then show ?thesis unfolding apart using ih o(1) Some by simp
    next
      case None
      then show ?thesis unfolding apart using 3(2) [OF differ] 3(3,4) by auto
    qed
  qed
qed (auto simp: is_sorted_def)

text \<open>The queue that \<open>ngx_http_init_locations\<close> leaves to the tree is fit for the merge.\<close>

lemma in_place_key:
  assumes "loc_key c \<le> loc_key d" "plain c" "plain d"
  shows "in_place (loc_of c) (loc_of d)"
  using assms plain_key_le [of "if exact_match c then 0 else 1" "if exact_match d then 0 else 1" "clcf_name c" "clcf_name d"]
  by (auto simp: in_place_def loc_key_def plain_def special_def split: if_splits)

lemma static_in_place:
  assumes "\<forall>c\<in>set cs. 0 \<notin> set (clcf_name c)"
  shows "sorted_wrt in_place (static_queue (ngx_http_init_locations (queue_of cs)))"
    and "set (static_queue (ngx_http_init_locations (queue_of cs))) = loc_of ` {c \<in> set cs. plain c}"
    and "mset (entries (static_queue (ngx_http_init_locations (queue_of cs)))) =
      mset (map (\<lambda>c. (clcf_name c, exact_match c, c)) (filter plain cs))"
proof -
  let ?q = "ngx_queue_sort ngx_http_cmp_locations (queue_of cs)"
  let ?s = "filter (\<lambda>x. plain (lq_conf x)) ?q"
  note s = static_sorted(1) [OF assms]
  have q: "set ?q = loc_of ` set cs" by (simp add: locations.queue_sort_set queue_of_map)
  show "set (static_queue (ngx_http_init_locations (queue_of cs))) = loc_of ` {c \<in> set cs. plain c}"
    unfolding s by (auto simp: q)
  have "sorted_wrt (\<lambda>x y. loc_key (lq_conf x) \<le> loc_key (lq_conf y)) ?s"
    using static_sorted(2) [OF assms] by (rule sorted_wrt_filter)
  then show "sorted_wrt in_place (static_queue (ngx_http_init_locations (queue_of cs)))"
    unfolding s using q by (auto elim!: sorted_wrt_mono_rel [rotated] intro!: in_place_key)
  have e: "mset (entries K) = (\<Sum>x\<in>#mset K. mset (entry x))" for K by (induction K) auto
  have "mset ?s = mset (map loc_of (filter plain cs))"
    by (simp add: mset_filter locations.queue_sort_mset queue_of_map filter_mset_image_mset comp_def)
  then have "mset (entries ?s) = mset (entries (map loc_of (filter plain cs)))" unfolding e by simp
  also have "entries (map loc_of (filter plain cs)) = map (\<lambda>c. (clcf_name c, exact_match c, c)) (filter plain cs)"
    by (induction cs) (auto simp: entry_def special_def plain_def)
  finally show "mset (entries (static_queue (ngx_http_init_locations (queue_of cs)))) =
      mset (map (\<lambda>c. (clcf_name c, exact_match c, c)) (filter plain cs))" unfolding s .
qed

subsection \<open>The answer of a server\<close>

text \<open>
  What a reader of the configuration expects: the exact location of the URI, else the inclusive one of that
  name, else the redirect to the name with a slash, else the longest inclusive prefix.
\<close>

definition find_named :: "clcf list \<Rightarrow> bool \<Rightarrow> bytes \<Rightarrow> clcf option" where
  "find_named cs ex n = find (\<lambda>c. plain c \<and> exact_match c = ex \<and> clcf_name c = n) cs"

fun longest_inclusive :: "clcf list \<Rightarrow> bytes \<Rightarrow> nat \<Rightarrow> clcf option" where
  "longest_inclusive cs u 0 = find_named cs False []"
| "longest_inclusive cs u (Suc n) =
     (case find_named cs False (take (Suc n) u) of Some c \<Rightarrow> Some c | None \<Rightarrow> longest_inclusive cs u n)"

definition slash_redirect :: "clcf list \<Rightarrow> bytes \<Rightarrow> clcf option" where
  "slash_redirect cs u =
     (let e = find_named cs True (u @ [c_slash]); i = find_named cs False (u @ [c_slash]) in
      if (case e of Some c \<Rightarrow> auto_redirect c | None \<Rightarrow> False) \<or> (case i of Some c \<Rightarrow> auto_redirect c | None \<Rightarrow> False)
      then (case e of Some c \<Rightarrow> Some c | None \<Rightarrow> i) else None)"

definition route :: "clcf list \<Rightarrow> bytes \<Rightarrow> int \<times> nat option" where
  "route cs u =
     (case find_named cs True u of
        Some c \<Rightarrow> (NGX_OK, Some (loc_conf c))
      | None \<Rightarrow>
          (case find_named cs False u of
             Some c \<Rightarrow> (NGX_AGAIN, Some (loc_conf c))
           | None \<Rightarrow>
               (case slash_redirect cs u of
                  Some c \<Rightarrow> (NGX_DONE, Some (loc_conf c))
                | None \<Rightarrow>
                    (case longest_inclusive cs u (length u) of
                       Some c \<Rightarrow> (NGX_AGAIN, Some (loc_conf c))
                     | None \<Rightarrow> (NGX_DECLINED, None)))))"

text \<open>The directives: names without a zero and not too long, \<open>auto_redirect\<close> only with a slash at the end.\<close>

definition good_conf :: "clcf \<Rightarrow> bool" where
  "good_conf c \<longleftrightarrow> 0 \<notin> set (clcf_name c) \<and>
     (plain c \<longrightarrow> length (clcf_name c) < 256 \<and> (auto_redirect c \<longrightarrow> (\<exists>u. clcf_name c = u @ [c_slash])))"

definition unique_names :: "clcf list \<Rightarrow> bool" where
  "unique_names cs \<longleftrightarrow> distinct (map (\<lambda>c. (clcf_name c, exact_match c)) (filter plain cs))"

definition ngx_http_core_locations :: "clcf list \<Rightarrow> location_tree option" where
  "ngx_http_core_locations cs = ngx_http_init_static_location_trees (static_queue (ngx_http_init_locations (queue_of cs)))"

lemma entries_exact: "(n, True, c) \<in> set (entries J) \<longleftrightarrow> (\<exists>x\<in>set J. lq_name x = n \<and> lq_exact x = Some c)"
  and entries_inclusive: "(n, False, c) \<in> set (entries J) \<longleftrightarrow> (\<exists>x\<in>set J. lq_name x = n \<and> lq_inclusive x = Some c)"
  by (auto simp: entries_def entry_def split: option.splits) force+

lemma find_named_iff:
  assumes "unique_names cs"
  shows "find_named cs ex n = Some c \<longleftrightarrow> c \<in> set cs \<and> plain c \<and> exact_match c = ex \<and> clcf_name c = n"
proof
  assume r: "c \<in> set cs \<and> plain c \<and> exact_match c = ex \<and> clcf_name c = n"
  have "find_named cs ex n \<noteq> None" using r by (auto simp: find_named_def find_None_iff)
  then obtain d where d: "find_named cs ex n = Some d" by blast
  then have "d \<in> set (filter plain cs)" "c \<in> set (filter plain cs)" "(clcf_name d, exact_match d) = (clcf_name c, exact_match c)"
    using r by (auto simp: find_named_def find_Some_iff)
  then have "d = c" using assms unfolding unique_names_def distinct_map inj_on_def by blast
  then show "find_named cs ex n = Some c" using d by simp
qed (auto simp: find_named_def find_Some_iff)

lemma longest_some:
  "k \<le> n \<Longrightarrow> find_named cs False (take k u) = Some c \<Longrightarrow> (\<And>j. k < j \<Longrightarrow> j \<le> n \<Longrightarrow> find_named cs False (take j u) = None) \<Longrightarrow>
     longest_inclusive cs u n = Some c"
proof (induction n)
  case (Suc n)
  then show ?case by (cases "k = Suc n") (auto split: option.splits)
qed simp

lemma longest_none: "(\<And>j. j \<le> n \<Longrightarrow> find_named cs False (take j u) = None) \<Longrightarrow> longest_inclusive cs u n = None"
  by (induction n) (auto split: option.splits)

text \<open>The answer does not look at the nested lists.\<close>

lemma answered_leaf: "answered (leaf ` E) u d a \<longleftrightarrow> answered E u d a"
proof -
  have e: "hits u (leaf x) = hits u x" "slashed u (leaf x) = slashed u x" "covers u (leaf x) = covers u x"
    "hit_answer (leaf x) = hit_answer x" for x
    by (simp_all add: hits_def slashed_def covers_def hit_answer_def split: option.splits)
  show ?thesis unfolding answered_def by (simp add: e)
qed

lemma answered_route:
  assumes "unique_names cs" "mset (entries J) = mset (map (\<lambda>c. (clcf_name c, exact_match c, c)) (filter plain cs))"
    and "is_sorted J" "\<forall>x\<in>set J. occupied x" and a: "answered (set J) u (NGX_DECLINED, None) a"
  shows "a = route cs u"
proof -
  have set: "set (entries J) = (\<lambda>c. (clcf_name c, exact_match c, c)) ` {c \<in> set cs. plain c}"
    using arg_cong [OF assms(2), of set_mset] by simp
  have ex: "find_named cs True n = Some c \<longleftrightarrow> (\<exists>x\<in>set J. lq_name x = n \<and> lq_exact x = Some c)"
    and inc: "find_named cs False n = Some c \<longleftrightarrow> (\<exists>x\<in>set J. lq_name x = n \<and> lq_inclusive x = Some c)" for n c
    unfolding find_named_iff [OF assms(1)] entries_exact [symmetric] entries_inclusive [symmetric] set by auto
  have one: "x = y" if "x \<in> set J" "y \<in> set J" "lq_name x = lq_name y" for x y
    using that assms(3) by (auto simp: is_sorted_def in_set_conv_nth sorted_wrt_iff_nth_less) (metis linorder_neqE_nat less_irrefl)
  have at: "find_named cs True (lq_name x) = lq_exact x" "find_named cs False (lq_name x) = lq_inclusive x" if "x \<in> set J" for x
    using ex [of "lq_name x"] inc [of "lq_name x"] one that by (metis option.exhaust)+
  have off: "find_named cs True n = None" "find_named cs False n = None" if "\<forall>x\<in>set J. lq_name x \<noteq> n" for n
    using ex [of n] inc [of n] that by (metis option.exhaust)+
  have unslashed: "slash_redirect cs u = None" if "\<forall>x\<in>set J. \<not> slashed u x"
  proof (cases "\<exists>x\<in>set J. lq_name x = u @ [c_slash]")
    case True
    then obtain x where x: "x \<in> set J" "lq_name x = u @ [c_slash]" by blast
    then have "\<not> redirects x" using that by (auto simp: slashed_def)
    then show ?thesis using at [OF x(1)] x(2) by (auto simp: slash_redirect_def redirects_def Let_def split: option.splits)
  next
    case False
    then show ?thesis using off [of "u @ [c_slash]"] by (auto simp: slash_redirect_def)
  qed
  have uncovered: "\<exists>y\<in>set J. covers u y \<and> length (lq_name y) = j"
    if found: "find_named cs False (take j u) \<noteq> None" "j \<le> length u" "\<forall>x\<in>set J. \<not> hits u x" for j
  proof -
    obtain c where "find_named cs False (take j u) = Some c" using found(1) by auto
    then obtain y where y: "y \<in> set J" "lq_name y = take j u" "lq_inclusive y \<noteq> None" using inc by blast
    then have "take j u \<noteq> u" using that(3) by (auto simp: hits_def)
    then show ?thesis using y that(2) by (intro bexI [of _ y]) (auto simp: covers_def strict_prefix_def take_is_prefix)
  qed
  consider (hit) x where "x \<in> set J" "hits u x" "a = hit_answer x"
    | (slash) x where "\<forall>x\<in>set J. \<not> hits u x" "x \<in> set J" "slashed u x" "a = (NGX_DONE, Some (loc_conf (lq_conf x)))"
    | (cover) x where "\<forall>x\<in>set J. \<not> hits u x" "\<forall>x\<in>set J. \<not> slashed u x" "x \<in> set J" "covers u x"
        "\<forall>y\<in>set J. covers u y \<longrightarrow> length (lq_name y) \<le> length (lq_name x)"
        "a = (NGX_AGAIN, Some (loc_conf (the (lq_inclusive x))))"
    | (none) "\<forall>x\<in>set J. \<not> hits u x" "\<forall>x\<in>set J. \<not> slashed u x" "\<forall>x\<in>set J. \<not> covers u x" "a = (NGX_DECLINED, None)"
    using a unfolding answered_def by blast
  then show ?thesis
  proof cases
    case hit
    then show ?thesis using at [OF hit(1)] assms(4)
      by (auto simp: hits_def hit_answer_def route_def occupied_def split: option.splits)
  next
    case slash
    then have n: "find_named cs True u = None" "find_named cs False u = None" using off [of u] by (auto simp: hits_def)
    have "slash_redirect cs u = Some (lq_conf x)"
      using at [OF slash(2)] slash(3) by (auto simp: slash_redirect_def slashed_def redirects_def lq_conf_def Let_def split: option.splits)
    then show ?thesis using n slash(4) by (simp add: route_def)
  next
    case cover
    then have n: "find_named cs True u = None" "find_named cs False u = None" using off [of u] by (auto simp: hits_def)
    note s = unslashed [OF cover(2)]
    let ?k = "length (lq_name x)"
    have k: "?k \<le> length u" "take ?k u = lq_name x"
      using cover(4) by (auto simp: covers_def strict_prefix_def prefix_def)
    have "find_named cs False (take j u) = None" if "?k < j" "j \<le> length u" for j
      using uncovered [OF _ that(2) cover(1)] cover(5) that(1) by fastforce
    moreover have "find_named cs False (take ?k u) = lq_inclusive x" using at(2) [OF cover(3)] k(2) by simp
    moreover obtain c where "lq_inclusive x = Some c" using cover(4) by (auto simp: covers_def)
    ultimately have "longest_inclusive cs u (length u) = lq_inclusive x" using k(1) longest_some [of ?k "length u" cs u c] by simp
    then show ?thesis using n s cover(4,6) by (auto simp: route_def covers_def)
  next
    case none
    then have n: "find_named cs True u = None" "find_named cs False u = None" using off [of u] by (auto simp: hits_def)
    note s = unslashed [OF none(2)]
    have "longest_inclusive cs u (length u) = None"
      using uncovered [OF _ _ none(1)] none(3) by (intro longest_none) blast
    then show ?thesis using n s none by (simp add: route_def)
  qed
qed

lemma sorted_entries: "is_sorted J \<Longrightarrow> distinct (map used_name (entries J))"
proof (induction J)
  case (Cons x J)
  have rest: "fst e \<in> lq_name ` set J" if "e \<in> used_name ` set (entries J)" for e
    using that by (auto simp: entries_def entry_def used_name_def split: option.splits)
  have own: "fst e = lq_name x" if "e \<in> used_name ` set (entry x)" for e
    using that by (auto simp: entry_def used_name_def split: option.splits)
  have "lq_name x \<notin> lq_name ` set J" using Cons.prems by (auto simp: is_sorted_def)
  with rest own have "used_name ` set (entry x) \<inter> used_name ` set (entries J) = {}" by (metis disjoint_iff)
  moreover have "distinct (map used_name (entry x))" by (simp add: entry_def used_name_def split: option.splits)
  moreover have "is_sorted J" using Cons.prems by (simp add: is_sorted_def)
  ultimately show ?case using Cons.IH by simp
qed simp

text \<open>
  C1: The tree that a server builds from its locations answers every request with the location a reader
  of the configuration expects: the exact one, else the inclusive one of that name, else the redirect to
  the name with a slash, else the longest inclusive prefix.  The search ends and stays inside the names.
  The tree is refused only when two locations of one kind have one name.
\<close>

theorem location_routing:
  assumes "\<forall>c\<in>set cs. good_conf c" "0 \<notin> set u"
  shows "if unique_names cs
    then \<exists>t. ngx_http_core_locations cs = Some t \<and> ngx_http_core_find_static_location t u = Some (route cs u)
    else ngx_http_core_locations cs = None"
proof -
  let ?S = "static_queue (ngx_http_init_locations (queue_of cs))"
  have z: "\<forall>c\<in>set cs. 0 \<notin> set (clcf_name c)" using assms(1) by (auto simp: good_conf_def)
  note st = static_in_place [OF z]
  have o: "\<forall>x\<in>set ?S. occupied x" using z unfolding st(2) by (auto simp: occupied_def)
  have names: "mset (map used_name (entries ?S)) = mset (map (\<lambda>c. (clcf_name c, exact_match c)) (filter plain cs))"
    using arg_cong [OF st(3), of "image_mset used_name"] by (simp add: used_name_def image_mset.compositionality comp_def)
  then have uniq: "distinct (map used_name (entries ?S)) \<longleftrightarrow> unique_names cs"
    unfolding unique_names_def by (rule mset_eq_imp_distinct_iff)
  show ?thesis
  proof (cases "ngx_http_join_exact_locations ?S")
    case None
    then have "?S \<noteq> []" "\<not> unique_names cs" using join_exact [OF st(1) o] uniq by auto
    then show ?thesis using None by (simp add: ngx_http_core_locations_def ngx_http_init_static_location_trees_def)
  next
    case (Some J)
    note j = join_exact [OF st(1) o, unfolded Some, simplified]
    have good: "good_loc x \<and> lq_list x = []" if "x \<in> set J" for x
    proof -
      have "set (entry x) \<subseteq> set (entries J)" using that by (auto simp: entries_def)
      then have "set (entry x) \<subseteq> set (entries ?S)" using j by simp
      then have e: "set (entry x) \<subseteq> (\<lambda>c. (clcf_name c, exact_match c, c)) ` {c \<in> set cs. plain c}"
        using arg_cong [OF st(3), of set_mset] by simp
      then have "c \<in> set cs \<and> plain c \<and> clcf_name c = lq_name x" if "lq_exact x = Some c \<or> lq_inclusive x = Some c" for c
        using that by (auto simp: entry_def)
      then have c: "length (lq_name x) < 256 \<and> (auto_redirect c \<longrightarrow> (\<exists>u. lq_name x = u @ [c_slash]))"
        if "lq_exact x = Some c \<or> lq_inclusive x = Some c" for c
        using that assms(1) unfolding good_conf_def by metis
      have "occupied x" using j that by blast
      then show ?thesis using c unfolding occupied_def good_loc_def redirects_def
        by (cases "lq_exact x"; cases "lq_inclusive x") (simp_all, blast)
    qed
    let ?C = "ngx_http_create_locations_list J"
    have wf: "wf_level [] ?C" "leaf ` below ?C = set J" using create_list_wf [of J "[]"] j good by auto
    obtain a where a: "find_static_loop (ngx_http_create_locations_tree ?C 0) u NGX_DECLINED None = Some a"
      "answered (below ?C) u (NGX_DECLINED, None) a"
      using level_routed [OF wf(1), of u NGX_DECLINED None] assms(2) by auto
    have un: "unique_names cs" using uniq j sorted_entries [of J] by simp
    have "answered (set J) u (NGX_DECLINED, None) a" using a(2) wf(2) answered_leaf [of "below ?C"] by simp
    with un have "a = route cs u" using st(3) j by (intro answered_route [of cs J]) simp_all
    moreover have "ngx_http_core_locations cs = Some (if ?S = [] then Null else ngx_http_create_locations_tree ?C 0)"
      using Some by (simp add: ngx_http_core_locations_def ngx_http_init_static_location_trees_def)
    moreover have "?S = [] \<Longrightarrow> ngx_http_create_locations_tree ?C 0 = Null"
      using Some by (simp add: ngx_http_create_locations_tree.simps)
    ultimately show ?thesis using a(1) un by (auto simp: ngx_http_core_find_static_location_def)
  qed
qed

text \<open>A server of the witness: \<open>location = /a\<close>, \<open>location /a/\<close> with a redirect, \<open>location /\<close> and a regular expression.\<close>

definition sample_locations :: "clcf list" where
  "sample_locations =
     [\<lparr> clcf_name = [c_slash], exact_match = False, regex = False, named = False, noname = False, auto_redirect = False, loc_conf = 1 \<rparr>,
      \<lparr> clcf_name = [94, 98], exact_match = False, regex = True, named = False, noname = False, auto_redirect = False, loc_conf = 2 \<rparr>,
      \<lparr> clcf_name = [c_slash, 98, c_slash], exact_match = False, regex = False, named = False, noname = False, auto_redirect = True, loc_conf = 3 \<rparr>,
      \<lparr> clcf_name = [c_slash, 97], exact_match = True, regex = False, named = False, noname = False, auto_redirect = False, loc_conf = 4 \<rparr>]"

theorem location_routing_witness:
  "\<exists>t. ngx_http_core_locations sample_locations = Some t \<and>
     ngx_http_core_find_static_location t [c_slash, 98] = Some (NGX_DONE, Some 3)"
proof -
  have "\<forall>c\<in>set sample_locations. good_conf c"
    by (simp add: sample_locations_def good_conf_def plain_def)
  moreover have "unique_names sample_locations" by code_simp
  moreover have "route sample_locations [c_slash, 98] = (NGX_DONE, Some 3)" by code_simp
  ultimately show ?thesis using location_routing [of sample_locations "[c_slash, 98]"] by simp
qed

text \<open>
  C30: The regular expressions of a server stay in the order of its configuration: the sort moves them behind
  the plain locations and swaps no two of them.
\<close>

theorem regex_locations_order:
  assumes "\<forall>c\<in>set cs. 0 \<notin> set (clcf_name c) \<and> (regex c \<longrightarrow> \<not> named c \<and> \<not> noname c)"
  shows "regex_locations (ngx_http_init_locations (queue_of cs)) = filter regex cs"
  using assms by (rule regex_order)

theorem regex_locations_order_witness:
  "regex_locations (ngx_http_init_locations (queue_of sample_locations)) = filter regex sample_locations \<and>
   map loc_conf (filter regex sample_locations) = [2]"
  using regex_locations_order [of sample_locations] by (simp add: sample_locations_def)

text \<open>
  A name of 256 bytes is cut to the empty name in the tree, because \<open>node->len\<close> is one byte: a request of
  this name does not find its exact location.
\<close>

definition long_name :: bytes where
  "long_name = c_slash # replicate 255 97"

definition long_location :: clcf where
  "long_location = \<lparr> clcf_name = long_name, exact_match = True, regex = False, named = False, noname = False,
     auto_redirect = False, loc_conf = 1 \<rparr>"

lemma long_name_lost:
  "route [long_location] long_name = (NGX_OK, Some 1) \<and>
   (\<exists>t. ngx_http_core_locations [long_location] = Some t \<and>
     ngx_http_core_find_static_location t long_name = Some (NGX_DECLINED, None))"
proof
  show "route [long_location] long_name = (NGX_OK, Some 1)"
    by (simp add: route_def find_named_def long_location_def plain_def)
  have l: "length long_name = 256" by (simp add: long_name_def)
  have "ngx_http_core_locations [long_location] =
      Some (Node Null Null Null (Some long_location) None False 0 long_name)"
    by (simp add: ngx_http_core_locations_def queue_of_map loc_of_def special_def ngx_http_init_locations_def
        ngx_queue_sort_def ngx_http_init_static_location_trees_def ngx_http_create_locations_tree.simps queue_middle_half
        l long_location_def lq_conf_def Let_def)
  then show "\<exists>t. ngx_http_core_locations [long_location] = Some t \<and>
      ngx_http_core_find_static_location t long_name = Some (NGX_DECLINED, None)"
    by (simp add: ngx_http_core_find_static_location_def l)
qed

end
