(* ===== verification/Ngx_Loop.thy ===== *)
theory Ngx_Loop
  imports Ngx_Prelude
begin

text \<open>
  The loop that the HTTP parsers of \<open>src/http/ngx_http_parse.c\<close> share:
  \<open>for (p = b->pos; p < b->last; p++) { ch = *p; switch (state) ... }\<close>.  The buffer is the list
  \<open>mem\<close> of the bytes received so far and a pointer into it is its index; the body of the switch is
  a function \<open>step\<close> from the parser's state, \<open>p\<close> and \<open>ch\<close> to either the next iteration or an
  exit (\<open>goto done\<close>, \<open>return NGX_HTTP_PARSE_...\<close>).  When the bytes run out the caller keeps the state
  and calls again with more bytes in the buffer.

  The locale \<open>byte_parser\<close> is the contract of a step that keeps an invariant; \<open>resumable\<close>
  adds that the step reads no byte beyond \<open>p\<close>, and gives that the parser may be stopped and resumed
  anywhere.
\<close>

datatype ('s, 'x) verdict = Next 's | Exit 'x 's

fun parse_loop :: "('s \<Rightarrow> nat \<Rightarrow> u8 \<Rightarrow> ('s, 'x) verdict) \<Rightarrow> 's \<Rightarrow> nat \<Rightarrow> bytes \<Rightarrow> ('s, 'x) verdict \<times> nat" where
  "parse_loop step s p [] = (Next s, p)"
| "parse_loop step s p (c # cs) =
     (case step s p c of
        Next s' \<Rightarrow> parse_loop step s' (p + 1) cs
      | Exit x s' \<Rightarrow> (Exit x s', p))"

lemma parse_loop_append:
  "parse_loop step s p (xs @ ys) =
     (case parse_loop step s p xs of
        (Next s', p') \<Rightarrow> parse_loop step s' p' ys
      | (Exit x s', p') \<Rightarrow> (Exit x s', p'))"
  by (induction xs arbitrary: s p) (auto split: verdict.splits)

lemma parse_loop_append_Next:
  "parse_loop step s p xs = (Next s', p') \<Longrightarrow> parse_loop step s p (xs @ ys) = parse_loop step s' p' ys"
  by (simp add: parse_loop_append)

lemma parse_loop_pos: "parse_loop step s p xs = (Next s', p') \<Longrightarrow> p' = p + length xs"
  by (induction xs arbitrary: s p) (fastforce split: verdict.splits)+

text \<open>The loop on a run of bytes that only update the state.\<close>

lemma parse_loop_run:
  assumes "\<And>s p c. I s \<Longrightarrow> c \<in> set xs \<Longrightarrow> \<exists>s'. step s p c = Next s' \<and> s' = f s c \<and> I s'"
    and "I s"
  shows "parse_loop step s p xs = (Next (foldl f s xs), p + length xs) \<and> I (foldl f s xs)"
  using assms
proof (induction xs arbitrary: s p)
  case (Cons c xs)
  obtain s' where s': "step s p c = Next s'" "s' = f s c" "I s'"
    using Cons.prems by (metis list.set_intros(1))
  have "\<And>s p c. I s \<Longrightarrow> c \<in> set xs \<Longrightarrow> \<exists>s'. step s p c = Next s' \<and> s' = f s c \<and> I s'"
    using Cons.prems(1) by (metis list.set_intros(2))
  from Cons.IH [OF this s'(3), of "p + 1"] s' show ?case by simp
qed simp

definition run :: "(bytes \<Rightarrow> 's \<Rightarrow> nat \<Rightarrow> u8 \<Rightarrow> ('s, 'x) verdict) \<Rightarrow> bytes \<Rightarrow> 's \<Rightarrow> nat \<Rightarrow> ('s, 'x) verdict \<times> nat" where
  "run step mem s p = parse_loop (step mem) s p (drop p mem)"

lemma run_unfold:
  "run step mem s p =
     (if p < length mem then
        (case step mem s p (mem ! p) of
           Next s' \<Rightarrow> run step mem s' (p + 1)
         | Exit x s' \<Rightarrow> (Exit x s', p))
      else (Next s, p))"
  by (simp add: run_def Cons_nth_drop_Suc [symmetric] split: verdict.splits)

lemma run_Exit_step: "run step mem s p = (Exit x s', q) \<Longrightarrow> \<exists>s0 c. step mem s0 q c = Exit x s'"
proof -
  have "parse_loop (step mem) s p cs = (Exit x s', q) \<Longrightarrow> \<exists>s0 c. step mem s0 q c = Exit x s'" for cs
    by (induction cs arbitrary: s p) (auto split: verdict.splits)
  then show "run step mem s p = (Exit x s', q) \<Longrightarrow> \<exists>s0 c. step mem s0 q c = Exit x s'"
    by (simp add: run_def)
qed

subsection \<open>Contracts\<close>

locale byte_parser =
  fixes step :: "bytes \<Rightarrow> 's \<Rightarrow> nat \<Rightarrow> u8 \<Rightarrow> ('s, 'x) verdict"
    and inv :: "bytes \<Rightarrow> nat \<Rightarrow> 's \<Rightarrow> bool"
  assumes step_inv: "inv mem p s \<Longrightarrow> p < length mem \<Longrightarrow> step mem s p (mem ! p) = Next s' \<Longrightarrow> inv mem (Suc p) s'"
begin

lemma run_Next:
  "run step mem s p = (Next s', p') \<Longrightarrow> inv mem p s \<Longrightarrow> p \<le> length mem \<Longrightarrow> inv mem p' s' \<and> p' = length mem"
proof (induction "length mem - p" arbitrary: p s)
  case 0
  then show ?case by (simp add: run_unfold [of step mem s])
next
  case (Suc n)
  then have p: "p < length mem" by simp
  then obtain s1 where s1: "step mem s p (mem ! p) = Next s1" "run step mem s1 (Suc p) = (Next s', p')"
    using Suc.prems(1) by (auto simp: run_unfold [of step mem s] split: verdict.splits)
  have n: "n = length mem - Suc p" "Suc p \<le> length mem" using Suc.hyps(2) by simp_all
  show ?case by (rule Suc.hyps(1) [OF n(1) s1(2) step_inv [OF Suc.prems(2) p s1(1)] n(2)])
qed

lemma run_Exit:
  "run step mem s p = (Exit x s', p') \<Longrightarrow> inv mem p s \<Longrightarrow> p \<le> length mem \<Longrightarrow>
     \<exists>s0. inv mem p' s0 \<and> p \<le> p' \<and> p' < length mem \<and> step mem s0 p' (mem ! p') = Exit x s'"
proof (induction "length mem - p" arbitrary: p s)
  case 0
  then show ?case by (simp add: run_unfold [of step mem s])
next
  case (Suc n)
  then have p: "p < length mem" by simp
  have n: "n = length mem - Suc p" "Suc p \<le> length mem" using Suc.hyps(2) by simp_all
  show ?case
  proof (cases "step mem s p (mem ! p)")
    case (Next s1)
    then have "run step mem s1 (Suc p) = (Exit x s', p')"
      using Suc.prems(1) p by (simp add: run_unfold [of step mem s])
    then show ?thesis
      using Suc.hyps(1) [OF n(1) _ step_inv [OF Suc.prems(2) p Next] n(2)] by (meson Suc_leD)
  next
    case (Exit y t)
    then show ?thesis using Suc.prems p by (auto simp: run_unfold [of step mem s])
  qed
qed

end

locale resumable = byte_parser +
  assumes step_local:
      "inv mem p s \<Longrightarrow> p < length mem \<Longrightarrow> step (mem @ more) s p (mem ! p) = step mem s p (mem ! p)"
    and inv_more: "inv mem p s \<Longrightarrow> p \<le> length mem \<Longrightarrow> inv (mem @ more) p s"
begin

lemma run_more:
  "inv mem p s \<Longrightarrow> p \<le> length mem \<Longrightarrow>
     run step (mem @ more) s p =
       (case run step mem s p of
          (Next s', p') \<Rightarrow> run step (mem @ more) s' p'
        | (Exit x s', p') \<Rightarrow> (Exit x s', p'))"
proof (induction "length mem - p" arbitrary: p s)
  case 0
  then show ?case by (simp add: run_unfold [of step mem s])
next
  case (Suc n)
  then have p: "p < length mem" by simp
  have e: "step (mem @ more) s p ((mem @ more) ! p) = step mem s p (mem ! p)"
    using step_local [OF Suc.prems(1) p] p by (simp add: nth_append)
  show ?case
  proof (cases "step mem s p (mem ! p)")
    case (Next s1)
    then show ?thesis
      using Suc.hyps(1) [of "Suc p" s1] Suc.hyps(2) step_inv [OF Suc.prems(1) p Next] p e
      by (simp add: run_unfold [of step mem s] run_unfold [of step "mem @ more" s])
  next
    case (Exit x t)
    then show ?thesis using p e
      by (simp add: run_unfold [of step mem s] run_unfold [of step "mem @ more" s])
  qed
qed

end

text \<open>A byte or a word at an address, as \<open>ngx_str4cmp\<close> and its sisters compare it.\<close>

definition str_at :: "bytes \<Rightarrow> nat \<Rightarrow> bytes \<Rightarrow> bool" where
  "str_at mem m lit \<longleftrightarrow> take (length lit) (drop m mem) = lit"

lemma str_at_more: "m + length lit \<le> length mem \<Longrightarrow> str_at (mem @ more) m lit = str_at mem m lit"
  by (simp add: str_at_def)

end
