(* ===== verification/Ngx_Http.thy ===== *)
theory Ngx_Http
  imports Ngx_Loop
begin

text \<open>
  What the HTTP parsers share, \<open>src/http/ngx_http_request.h\<close> and the head of
  \<open>src/http/ngx_http_parse.c\<close>: the codes, the methods, the table \<open>usual\<close> of the bytes that need no
  attention in a URI, and the fields of \<open>ngx_http_request_t\<close> that the request line and the URI fill
  in.  A pointer field is the index of the byte in \<open>r->header_in\<close>, \<open>None\<close> when it is \<open>NULL\<close>.
\<close>

definition NGX_HTTP_PARSE_HEADER_DONE :: int where "NGX_HTTP_PARSE_HEADER_DONE = 1"
definition NGX_HTTP_PARSE_INVALID_METHOD :: int where "NGX_HTTP_PARSE_INVALID_METHOD = 10"
definition NGX_HTTP_PARSE_INVALID_REQUEST :: int where "NGX_HTTP_PARSE_INVALID_REQUEST = 11"
definition NGX_HTTP_PARSE_INVALID_09_METHOD :: int where "NGX_HTTP_PARSE_INVALID_09_METHOD = 12"
definition NGX_HTTP_PARSE_INVALID_HEADER :: int where "NGX_HTTP_PARSE_INVALID_HEADER = 13"

lemmas ngx_http_codes = NGX_HTTP_PARSE_HEADER_DONE_def NGX_HTTP_PARSE_INVALID_METHOD_def
  NGX_HTTP_PARSE_INVALID_REQUEST_def NGX_HTTP_PARSE_INVALID_09_METHOD_def NGX_HTTP_PARSE_INVALID_HEADER_def
  ngx_codes

lemmas ngx_http_codes_eval [ngx_eval] = ngx_http_codes

text \<open>\<open>r->method\<close> is a bit mask; the constants keep their values.\<close>

definition NGX_HTTP_UNKNOWN :: nat where "NGX_HTTP_UNKNOWN = 0x0001"
definition NGX_HTTP_GET :: nat where "NGX_HTTP_GET = 0x0002"
definition NGX_HTTP_HEAD :: nat where "NGX_HTTP_HEAD = 0x0004"
definition NGX_HTTP_POST :: nat where "NGX_HTTP_POST = 0x0008"
definition NGX_HTTP_PUT :: nat where "NGX_HTTP_PUT = 0x0010"
definition NGX_HTTP_DELETE :: nat where "NGX_HTTP_DELETE = 0x0020"
definition NGX_HTTP_MKCOL :: nat where "NGX_HTTP_MKCOL = 0x0040"
definition NGX_HTTP_COPY :: nat where "NGX_HTTP_COPY = 0x0080"
definition NGX_HTTP_MOVE :: nat where "NGX_HTTP_MOVE = 0x0100"
definition NGX_HTTP_OPTIONS :: nat where "NGX_HTTP_OPTIONS = 0x0200"
definition NGX_HTTP_PROPFIND :: nat where "NGX_HTTP_PROPFIND = 0x0400"
definition NGX_HTTP_PROPPATCH :: nat where "NGX_HTTP_PROPPATCH = 0x0800"
definition NGX_HTTP_LOCK :: nat where "NGX_HTTP_LOCK = 0x1000"
definition NGX_HTTP_UNLOCK :: nat where "NGX_HTTP_UNLOCK = 0x2000"
definition NGX_HTTP_PATCH :: nat where "NGX_HTTP_PATCH = 0x4000"
definition NGX_HTTP_TRACE :: nat where "NGX_HTTP_TRACE = 0x8000"

lemmas ngx_http_methods = NGX_HTTP_UNKNOWN_def NGX_HTTP_GET_def NGX_HTTP_HEAD_def NGX_HTTP_POST_def
  NGX_HTTP_PUT_def NGX_HTTP_DELETE_def NGX_HTTP_MKCOL_def NGX_HTTP_COPY_def NGX_HTTP_MOVE_def
  NGX_HTTP_OPTIONS_def NGX_HTTP_PROPFIND_def NGX_HTTP_PROPPATCH_def NGX_HTTP_LOCK_def
  NGX_HTTP_UNLOCK_def NGX_HTTP_PATCH_def NGX_HTTP_TRACE_def

lemmas ngx_http_methods_eval [ngx_eval] = ngx_http_methods

text \<open>Where a parser leaves its loop: \<open>goto done\<close>, \<open>goto header_done\<close> or \<open>return code\<close>.\<close>

datatype exit_label = Done | Header_done | Fail int

subsection \<open>The table of usual bytes\<close>

definition usual_map :: "u32 list" where
  "usual_map = [0xffffdbfe, 0x7fff37d6, 0xffffffff, 0xffffffff,
                0xffffffff, 0xffffffff, 0xffffffff, 0xffffffff]"

definition usual :: "u8 \<Rightarrow> bool" where
  "usual ch = bitmap_get usual_map ch"

lemma usual_iff:
  "usual ch \<longleftrightarrow> ch \<notin> {0, c_LF, c_CR, c_SP, c_hash, c_pct, c_plus, c_dot, c_slash, c_quest}"
proof -
  have "usual ch = (ch \<notin> {0, c_LF, c_CR, c_SP, c_hash, c_pct, c_plus, c_dot, c_slash, c_quest})"
    if "unat ch < 64"
    using that by (rule u8_below_allI [rotated])
      (simp add: usual_def usual_map_def bitmap_get_def u8_all_def take_Cons_numeral)
  moreover have "usual ch" if "64 \<le> unat ch"
  proof -
    have "usual_map ! n = - 1" if "2 \<le> n" "n < 8" for n
      using that unfolding less8_cases by (auto simp: usual_map_def)
    moreover have "unat (drop_bit 5 ch) = unat ch div 32"
      unfolding unsigned_drop_bit_eq using u8_less [of ch] by (simp add: take_bit_nat_eq_self drop_bit_eq_div)
    moreover have "push_bit (unat (ch AND 0x1f)) 1 \<noteq> (0 :: u32)"
    proof -
      have "unat (ch AND 0x1f) \<le> 31" using word_and_le1 [of ch "0x1f"] by (simp add: word_le_nat_alt)
      then show ?thesis by (simp add: push_bit_eq_0_iff)
    qed
    ultimately show ?thesis
      using that u8_less [of ch] by (simp add: usual_def bitmap_get_def)
  qed
  moreover have "ch \<notin> {0, c_LF, c_CR, c_SP, c_hash, c_pct, c_plus, c_dot, c_slash, c_quest}"
    if "64 \<le> unat ch"
    using that by auto
  ultimately show ?thesis by (meson not_le)
qed

subsection \<open>Bytes that end nothing\<close>

definition clean :: "bytes \<Rightarrow> nat \<Rightarrow> nat \<Rightarrow> bool" where
  "clean mem a b \<longleftrightarrow> (\<forall>k. a \<le> k \<and> k < b \<longrightarrow> mem ! k \<noteq> 0 \<and> mem ! k \<noteq> c_CR \<and> mem ! k \<noteq> c_LF)"

lemma clean_Suc: "a \<le> b \<Longrightarrow>
  clean mem a (Suc b) \<longleftrightarrow> clean mem a b \<and> mem ! b \<noteq> 0 \<and> mem ! b \<noteq> c_CR \<and> mem ! b \<noteq> c_LF"
  by (auto simp: clean_def less_Suc_eq)

lemma clean_empty [simp]: "clean mem a a"
  by (auto simp: clean_def)

lemma clean_more: "b \<le> length mem \<Longrightarrow> clean (mem @ ys) a b = clean mem a b"
  by (auto simp: clean_def nth_append)

subsection \<open>The caller\<close>

text \<open>
  The caller's view: it calls \<open>parse\<close> with the buffer, the parser's state and \<open>b->pos\<close>, and while
  the answer is \<open>NGX_AGAIN\<close> it appends the next piece it has read and calls again.
\<close>

fun feed :: "(bytes \<Rightarrow> 's \<Rightarrow> nat \<Rightarrow> int \<times> 's \<times> nat) \<Rightarrow> bytes \<Rightarrow> 's \<Rightarrow> nat \<Rightarrow> bytes list \<Rightarrow> int \<times> 's \<times> nat" where
  "feed parse mem s pos [] = parse mem s pos"
| "feed parse mem s pos (x # xs) =
     (case parse mem s pos of
        (rc, s', pos') \<Rightarrow>
          if rc = NGX_AGAIN then feed parse (mem @ x) s' pos' xs else (rc, s', pos'))"

text \<open>
  What the caller uses of an answer: the code, the request after a line and before the next call, and
  unless there was an error the new \<open>b->pos\<close>.
\<close>

definition outcome :: "int \<times> 's \<times> nat \<Rightarrow> int \<times> 's option \<times> nat option" where
  "outcome a =
     (case a of (rc, s, pos) \<Rightarrow>
        (rc, if rc \<in> {NGX_OK, NGX_AGAIN} then Some s else None,
         if rc \<in> {NGX_OK, NGX_AGAIN, NGX_HTTP_PARSE_HEADER_DONE} then Some pos else None))"

locale resumable_call =
  fixes parse :: "bytes \<Rightarrow> 's \<Rightarrow> nat \<Rightarrow> int \<times> 's \<times> nat"
    and inv :: "bytes \<Rightarrow> nat \<Rightarrow> 's \<Rightarrow> bool"
  assumes again: "inv mem pos s \<Longrightarrow> pos \<le> length mem \<Longrightarrow> parse mem s pos = (NGX_AGAIN, s', pos') \<Longrightarrow>
       inv (mem @ more) pos' s' \<and> pos' \<le> length mem \<and> outcome (parse (mem @ more) s pos) = outcome (parse (mem @ more) s' pos')"
    and final: "inv mem pos s \<Longrightarrow> pos \<le> length mem \<Longrightarrow> parse mem s pos = (rc, s', pos') \<Longrightarrow> rc \<noteq> NGX_AGAIN \<Longrightarrow>
       parse (mem @ more) s pos = (rc, s', pos')"
begin

lemma pieces:
  "inv mem pos s \<Longrightarrow> pos \<le> length mem \<Longrightarrow> outcome (feed parse mem s pos xs) = outcome (parse (mem @ concat xs) s pos)"
proof (induction xs arbitrary: mem s pos)
  case Nil
  then show ?case by simp
next
  case (Cons x xs)
  obtain rc s' pos' where e: "parse mem s pos = (rc, s', pos')" by (cases "parse mem s pos") auto
  show ?case
  proof (cases "rc = NGX_AGAIN")
    case True
    have a: "inv (mem @ x) pos' s'" "pos' \<le> length mem"
      "outcome (parse (mem @ x @ concat xs) s pos) = outcome (parse (mem @ x @ concat xs) s' pos')"
      using again [OF Cons.prems] e True by blast+
    show ?thesis using Cons.IH [OF a(1)] a(2,3) e True by simp
  next
    case False
    then show ?thesis using final [OF Cons.prems e False] e by simp
  qed
qed

end

end
