(* ===== verification/Ngx_Request_Line.thy ===== *)
theory Ngx_Request_Line
  imports Ngx_Http
begin

text \<open>
  \<open>ngx_http_parse_request_line\<close> of \<open>src/http/ngx_http_parse.c\<close>: the request line, in whatever
  pieces it arrives.  The switch is one function per group of states, in the order of the source;
  \<open>request_line_step\<close> is the dispatch.  The local \<open>state\<close> lives in the record beside the request's
  fields; a \<open>return\<close> of an error leaves \<open>r->state\<close> as it was when the function was called.

  The lemmas: the parser may be stopped and resumed anywhere; what an accepted line guarantees of its
  positions and of the bytes of its URI; and the fields it sets on a printed request line.
\<close>

subsection \<open>State\<close>

datatype request_line_state =
    rl_start | rl_method | rl_spaces_before_uri | rl_schema | rl_schema_slash | rl_schema_slash_slash
  | rl_host_start | rl_host | rl_host_end | rl_host_ip_literal | rl_port | rl_host_http_09
  | rl_after_slash_in_uri | rl_check_uri | rl_check_uri_http_09 | rl_uri | rl_http_09
  | rl_http_H | rl_http_HT | rl_http_HTT | rl_http_HTTP
  | rl_first_major_digit | rl_major_digit | rl_first_minor_digit | rl_minor_digit
  | rl_spaces_after_digit | rl_almost_done

record request_line =
  state :: request_line_state
  request_start :: "nat option"
  request_end :: "nat option"
  http_method :: nat
  method_end :: "nat option"
  schema_start :: "nat option"
  schema_end :: "nat option"
  host_start :: "nat option"
  host_end :: "nat option"
  port_end :: "nat option"
  uri_start :: "nat option"
  uri_end :: "nat option"
  uri_ext :: "nat option"
  args_start :: "nat option"
  http_protocol :: "nat option"
  complex_uri :: bool
  quoted_uri :: bool
  plus_in_uri :: bool
  space_in_uri :: bool
  http_major :: nat
  http_minor :: nat
  http_version :: nat

text \<open>The request as \<open>ngx_http_create_request\<close> makes it.\<close>

definition fresh_request :: request_line where
  [ngx_eval]: "fresh_request =
    \<lparr> state = rl_start, request_start = None, request_end = None, http_method = NGX_HTTP_UNKNOWN,
      method_end = None, schema_start = None, schema_end = None, host_start = None, host_end = None,
      port_end = None, uri_start = None, uri_end = None, uri_ext = None, args_start = None,
      http_protocol = None, complex_uri = False, quoted_uri = False, plus_in_uri = False,
      space_in_uri = False, http_major = 0, http_minor = 0, http_version = 0 \<rparr>"

type_synonym rl_verdict = "(request_line, exit_label) verdict"

definition goto_state :: "request_line_state \<Rightarrow> request_line \<Rightarrow> rl_verdict" where
  [ngx_eval]: "goto_state s r = Next (r\<lparr>state := s\<rparr>)"

definition invalid_request :: "request_line \<Rightarrow> rl_verdict" where
  [ngx_eval]: "invalid_request r = Exit (Fail NGX_HTTP_PARSE_INVALID_REQUEST) r"

text \<open>\<open>c = (u_char) (ch | 0x20); c >= 'a' && c <= 'z'\<close>\<close>

definition is_letter :: "u8 \<Rightarrow> bool" where
  [ngx_eval]: "is_letter ch \<longleftrightarrow> 0x61 \<le> ch OR 0x20 \<and> ch OR 0x20 \<le> 0x7A"

text \<open>A byte of a method name: a capital letter or an underscore.\<close>

definition is_method_char :: "u8 \<Rightarrow> bool" where
  [ngx_eval]: "is_method_char ch \<longleftrightarrow> \<not> ((ch < 0x41 \<or> ch > 0x5A) \<and> ch \<noteq> c_uscore)"

subsection \<open>The method\<close>

text \<open>
  The switch on \<open>p - m\<close>, on a little-endian machine that may read words at any address (the build of
  the README): \<open>ngx_str3_cmp\<close>, \<open>ngx_str3Ocmp\<close> and \<open>ngx_str4cmp\<close> compare four bytes, \<open>ngx_str7_cmp\<close> eight.
\<close>

definition method_of :: "bytes \<Rightarrow> nat \<Rightarrow> nat \<Rightarrow> nat \<Rightarrow> nat" where
  "method_of mem m n old =
     (if n = 3 then
        if str_at mem m (asc ''GET '') then NGX_HTTP_GET
        else if str_at mem m (asc ''PUT '') then NGX_HTTP_PUT
        else old
      else if n = 4 then
        if mem ! (m + 1) = of_char CHR ''O'' then
          if str_at mem m (asc ''POST'') then NGX_HTTP_POST
          else if str_at mem m (asc ''COPY'') then NGX_HTTP_COPY
          else if str_at mem m (asc ''MOVE'') then NGX_HTTP_MOVE
          else if str_at mem m (asc ''LOCK'') then NGX_HTTP_LOCK
          else old
        else if str_at mem m (asc ''HEAD'') then NGX_HTTP_HEAD
        else old
      else if n = 5 then
        if str_at mem m (asc ''MKCOL'') then NGX_HTTP_MKCOL
        else if str_at mem m (asc ''PATCH'') then NGX_HTTP_PATCH
        else if str_at mem m (asc ''TRACE'') then NGX_HTTP_TRACE
        else old
      else if n = 6 then
        if str_at mem m (asc ''DELETE'') then NGX_HTTP_DELETE
        else if str_at mem m (asc ''UNLOCK'') then NGX_HTTP_UNLOCK
        else old
      else if n = 7 then
        if str_at mem m (asc ''OPTIONS '') then NGX_HTTP_OPTIONS else old
      else if n = 8 then
        if str_at mem m (asc ''PROPFIND'') then NGX_HTTP_PROPFIND else old
      else if n = 9 then
        if str_at mem m (asc ''PROPPATCH'') then NGX_HTTP_PROPPATCH else old
      else old)"

definition rl_step_method :: "bytes \<Rightarrow> request_line \<Rightarrow> nat \<Rightarrow> u8 \<Rightarrow> rl_verdict" where
  "rl_step_method mem r p ch =
     (case state r of
        rl_start \<Rightarrow>
          (let r = r\<lparr>request_start := Some p\<rparr> in
           if ch = c_CR \<or> ch = c_LF then Next r
           else if \<not> is_method_char ch then Exit (Fail NGX_HTTP_PARSE_INVALID_METHOD) r
           else goto_state rl_method r)
      | _ \<Rightarrow>
          (if ch = c_SP then
             let m = the (request_start r) in
             goto_state rl_spaces_before_uri
               (r\<lparr>method_end := Some (p - 1), http_method := method_of mem m (p - m) (http_method r)\<rparr>)
           else if \<not> is_method_char ch then Exit (Fail NGX_HTTP_PARSE_INVALID_METHOD) r
           else Next r))"

subsection \<open>The absolute form\<close>

definition rl_step_schema :: "request_line \<Rightarrow> nat \<Rightarrow> u8 \<Rightarrow> rl_verdict" where
  "rl_step_schema r p ch =
     (case state r of
        rl_spaces_before_uri \<Rightarrow>
          (if ch = c_slash then goto_state rl_after_slash_in_uri (r\<lparr>uri_start := Some p\<rparr>)
           else if is_letter ch then goto_state rl_schema (r\<lparr>schema_start := Some p\<rparr>)
           else if ch = c_SP then Next r
           else invalid_request r)
      | rl_schema \<Rightarrow>
          (if is_letter ch then Next r
           else if ch = c_colon then goto_state rl_schema_slash (r\<lparr>schema_end := Some p\<rparr>)
           else invalid_request r)
      | rl_schema_slash \<Rightarrow>
          (if ch = c_slash then goto_state rl_schema_slash_slash r else invalid_request r)
      | _ \<Rightarrow>
          (if ch = c_slash then goto_state rl_host_start r else invalid_request r))"

text \<open>The end of the host or of the port without a path: the URI is the first slash of \<open>"://"\<close>.\<close>

definition rl_single_slash :: "request_line \<Rightarrow> rl_verdict" where
  "rl_single_slash r =
     goto_state rl_host_http_09 (r\<lparr>uri_start := Some (the (schema_end r) + 1),
                           uri_end := Some (the (schema_end r) + 2)\<rparr>)"

definition rl_host_end_case :: "request_line \<Rightarrow> nat \<Rightarrow> u8 \<Rightarrow> rl_verdict" where
  "rl_host_end_case r p ch =
     (let r = r\<lparr>host_end := Some p\<rparr> in
      if ch = c_colon then goto_state rl_port r
      else if ch = c_slash then goto_state rl_after_slash_in_uri (r\<lparr>uri_start := Some p\<rparr>)
      else if ch = c_SP then rl_single_slash r
      else invalid_request r)"

definition rl_host_case :: "request_line \<Rightarrow> nat \<Rightarrow> u8 \<Rightarrow> rl_verdict" where
  "rl_host_case r p ch =
     (if is_letter ch then Next r
      else if is_digit ch \<or> ch = c_dot \<or> ch = c_minus then Next r
      else rl_host_end_case r p ch)"

definition is_ip_literal_char :: "u8 \<Rightarrow> bool" where
  "is_ip_literal_char ch \<longleftrightarrow>
     ch \<in> {c_minus, c_dot, c_uscore, 0x7E, 0x21, 0x24, c_amp, 0x27, 0x28, 0x29, c_star, c_plus,
           c_comma, c_semi, c_eq}"

definition rl_step_host :: "request_line \<Rightarrow> nat \<Rightarrow> u8 \<Rightarrow> rl_verdict" where
  "rl_step_host r p ch =
     (case state r of
        rl_host_start \<Rightarrow>
          (let r = r\<lparr>host_start := Some p\<rparr> in
           if ch = 0x5B then goto_state rl_host_ip_literal r
           else rl_host_case (r\<lparr>state := rl_host\<rparr>) p ch)
      | rl_host \<Rightarrow> rl_host_case r p ch
      | rl_host_end \<Rightarrow> rl_host_end_case r p ch
      | _ \<Rightarrow>
          (if is_digit ch then Next r
           else if is_letter ch then Next r
           else if ch = c_colon then Next r
           else if ch = 0x5D then goto_state rl_host_end r
           else if is_ip_literal_char ch then Next r
           else invalid_request r))"

definition rl_step_port :: "request_line \<Rightarrow> nat \<Rightarrow> u8 \<Rightarrow> rl_verdict" where
  "rl_step_port r p ch =
     (case state r of
        rl_port \<Rightarrow>
          (if is_digit ch then Next r
           else if ch = c_slash then
             goto_state rl_after_slash_in_uri (r\<lparr>port_end := Some p, uri_start := Some p\<rparr>)
           else if ch = c_SP then rl_single_slash (r\<lparr>port_end := Some p\<rparr>)
           else invalid_request r)
      | _ \<Rightarrow>
          (if ch = c_SP then Next r
           else if ch = c_CR then goto_state rl_almost_done (r\<lparr>http_minor := 9\<rparr>)
           else if ch = c_LF then Exit Done (r\<lparr>http_minor := 9\<rparr>)
           else if ch = of_char CHR ''H'' then goto_state rl_http_H (r\<lparr>http_protocol := Some p\<rparr>)
           else invalid_request r))"

subsection \<open>The URI\<close>

definition rl_after_slash_case :: "request_line \<Rightarrow> nat \<Rightarrow> u8 \<Rightarrow> rl_verdict" where
  "rl_after_slash_case r p ch =
     (if usual ch then goto_state rl_check_uri r
      else if ch = c_SP then goto_state rl_check_uri_http_09 (r\<lparr>uri_end := Some p\<rparr>)
      else if ch = c_CR then goto_state rl_almost_done (r\<lparr>uri_end := Some p, http_minor := 9\<rparr>)
      else if ch = c_LF then Exit Done (r\<lparr>uri_end := Some p, http_minor := 9\<rparr>)
      else if ch = c_dot then goto_state rl_uri (r\<lparr>complex_uri := True\<rparr>)
      else if ch = c_pct then goto_state rl_uri (r\<lparr>quoted_uri := True\<rparr>)
      else if ch = c_slash then goto_state rl_uri (r\<lparr>complex_uri := True\<rparr>)
      else if ch = c_quest then goto_state rl_uri (r\<lparr>args_start := Some (p + 1)\<rparr>)
      else if ch = c_hash then goto_state rl_uri (r\<lparr>complex_uri := True\<rparr>)
      else if ch = c_plus then Next (r\<lparr>plus_in_uri := True\<rparr>)
      else if ch = 0 then invalid_request r
      else goto_state rl_check_uri r)"

definition rl_check_uri_case :: "request_line \<Rightarrow> nat \<Rightarrow> u8 \<Rightarrow> rl_verdict" where
  "rl_check_uri_case r p ch =
     (if usual ch then Next r
      else if ch = c_slash then goto_state rl_after_slash_in_uri (r\<lparr>uri_ext := None\<rparr>)
      else if ch = c_dot then Next (r\<lparr>uri_ext := Some (p + 1)\<rparr>)
      else if ch = c_SP then goto_state rl_check_uri_http_09 (r\<lparr>uri_end := Some p\<rparr>)
      else if ch = c_CR then goto_state rl_almost_done (r\<lparr>uri_end := Some p, http_minor := 9\<rparr>)
      else if ch = c_LF then Exit Done (r\<lparr>uri_end := Some p, http_minor := 9\<rparr>)
      else if ch = c_pct then goto_state rl_uri (r\<lparr>quoted_uri := True\<rparr>)
      else if ch = c_quest then goto_state rl_uri (r\<lparr>args_start := Some (p + 1)\<rparr>)
      else if ch = c_hash then goto_state rl_uri (r\<lparr>complex_uri := True\<rparr>)
      else if ch = c_plus then Next (r\<lparr>plus_in_uri := True\<rparr>)
      else if ch = 0 then invalid_request r
      else Next r)"

definition rl_uri_case :: "request_line \<Rightarrow> nat \<Rightarrow> u8 \<Rightarrow> rl_verdict" where
  "rl_uri_case r p ch =
     (if usual ch then Next r
      else if ch = c_SP then goto_state rl_http_09 (r\<lparr>uri_end := Some p\<rparr>)
      else if ch = c_CR then goto_state rl_almost_done (r\<lparr>uri_end := Some p, http_minor := 9\<rparr>)
      else if ch = c_LF then Exit Done (r\<lparr>uri_end := Some p, http_minor := 9\<rparr>)
      else if ch = c_hash then Next (r\<lparr>complex_uri := True\<rparr>)
      else if ch = 0 then invalid_request r
      else Next r)"

text \<open>
  After a space the URI either ends or goes on: \<open>p--\<close> makes the next iteration read the same byte
  again, in the state that is left, which is the call of that state's case here.
\<close>

definition rl_step_uri :: "request_line \<Rightarrow> nat \<Rightarrow> u8 \<Rightarrow> rl_verdict" where
  "rl_step_uri r p ch =
     (case state r of
        rl_after_slash_in_uri \<Rightarrow> rl_after_slash_case r p ch
      | rl_check_uri \<Rightarrow> rl_check_uri_case r p ch
      | rl_check_uri_http_09 \<Rightarrow>
          (if ch = c_SP then Next r
           else if ch = c_CR then goto_state rl_almost_done (r\<lparr>http_minor := 9\<rparr>)
           else if ch = c_LF then Exit Done (r\<lparr>http_minor := 9\<rparr>)
           else if ch = of_char CHR ''H'' then goto_state rl_http_H (r\<lparr>http_protocol := Some p\<rparr>)
           else rl_check_uri_case (r\<lparr>space_in_uri := True, state := rl_check_uri\<rparr>) p ch)
      | rl_uri \<Rightarrow> rl_uri_case r p ch
      | _ \<Rightarrow>
          (if ch = c_SP then Next r
           else if ch = c_CR then goto_state rl_almost_done (r\<lparr>http_minor := 9\<rparr>)
           else if ch = c_LF then Exit Done (r\<lparr>http_minor := 9\<rparr>)
           else if ch = of_char CHR ''H'' then goto_state rl_http_H (r\<lparr>http_protocol := Some p\<rparr>)
           else rl_uri_case (r\<lparr>space_in_uri := True, state := rl_uri\<rparr>) p ch))"

subsection \<open>The version\<close>

definition rl_step_version :: "request_line \<Rightarrow> nat \<Rightarrow> u8 \<Rightarrow> rl_verdict" where
  "rl_step_version r p ch =
     (case state r of
        rl_http_H \<Rightarrow> (if ch = of_char CHR ''T'' then goto_state rl_http_HT r else invalid_request r)
      | rl_http_HT \<Rightarrow> (if ch = of_char CHR ''T'' then goto_state rl_http_HTT r else invalid_request r)
      | rl_http_HTT \<Rightarrow> (if ch = of_char CHR ''P'' then goto_state rl_http_HTTP r else invalid_request r)
      | rl_http_HTTP \<Rightarrow> (if ch = c_slash then goto_state rl_first_major_digit r else invalid_request r)
      | rl_first_major_digit \<Rightarrow>
          (if ch < 0x31 \<or> ch > c_9 then invalid_request r
           else goto_state rl_major_digit (r\<lparr>http_major := digit_val ch\<rparr>))
      | rl_major_digit \<Rightarrow>
          (if ch = c_dot then goto_state rl_first_minor_digit r
           else if \<not> is_digit ch then invalid_request r
           else if http_major r > 99 then invalid_request r
           else Next (r\<lparr>http_major := http_major r * 10 + digit_val ch\<rparr>))
      | rl_first_minor_digit \<Rightarrow>
          (if \<not> is_digit ch then invalid_request r
           else goto_state rl_minor_digit (r\<lparr>http_minor := digit_val ch\<rparr>))
      | _ \<Rightarrow>
          (if ch = c_CR then goto_state rl_almost_done r
           else if ch = c_LF then Exit Done r
           else if ch = c_SP then goto_state rl_spaces_after_digit r
           else if \<not> is_digit ch then invalid_request r
           else if http_minor r > 99 then invalid_request r
           else Next (r\<lparr>http_minor := http_minor r * 10 + digit_val ch\<rparr>)))"

definition rl_step_end :: "request_line \<Rightarrow> nat \<Rightarrow> u8 \<Rightarrow> rl_verdict" where
  "rl_step_end r p ch =
     (case state r of
        rl_spaces_after_digit \<Rightarrow>
          (if ch = c_SP then Next r
           else if ch = c_CR then goto_state rl_almost_done r
           else if ch = c_LF then Exit Done r
           else invalid_request r)
      | _ \<Rightarrow>
          (let r = r\<lparr>request_end := Some (p - 1)\<rparr> in
           if ch = c_LF then Exit Done r else invalid_request r))"

subsection \<open>The parser\<close>

definition request_line_step :: "bytes \<Rightarrow> request_line \<Rightarrow> nat \<Rightarrow> u8 \<Rightarrow> rl_verdict" where
  "request_line_step mem r p ch =
     (if state r \<in> {rl_start, rl_method} then rl_step_method mem r p ch
      else if state r \<in> {rl_spaces_before_uri, rl_schema, rl_schema_slash, rl_schema_slash_slash} then
        rl_step_schema r p ch
      else if state r \<in> {rl_host_start, rl_host, rl_host_end, rl_host_ip_literal} then rl_step_host r p ch
      else if state r \<in> {rl_port, rl_host_http_09} then rl_step_port r p ch
      else if state r \<in> {rl_after_slash_in_uri, rl_check_uri, rl_check_uri_http_09, rl_uri, rl_http_09} then
        rl_step_uri r p ch
      else if state r \<in> {rl_spaces_after_digit, rl_almost_done} then rl_step_end r p ch
      else rl_step_version r p ch)"

text \<open>The code after the label \<open>done\<close>.\<close>

definition request_line_done :: "request_line \<Rightarrow> nat \<Rightarrow> int \<times> request_line \<times> nat" where
  "request_line_done r p =
     (let r = r\<lparr>request_end := (case request_end r of None \<Rightarrow> Some p | Some e \<Rightarrow> Some e),
                http_version := http_major r * 1000 + http_minor r,
                state := rl_start\<rparr>
      in (if http_version r = 9 \<and> http_method r \<noteq> NGX_HTTP_GET then NGX_HTTP_PARSE_INVALID_09_METHOD
          else NGX_OK,
          r, p + 1))"

definition ngx_http_parse_request_line :: "bytes \<Rightarrow> request_line \<Rightarrow> nat \<Rightarrow> int \<times> request_line \<times> nat" where
  "ngx_http_parse_request_line mem r pos =
     (case run request_line_step mem r pos of
        (Next r', p) \<Rightarrow> (NGX_AGAIN, r', p)
      | (Exit (Fail rc) r', p) \<Rightarrow> (rc, r'\<lparr>state := state r\<rparr>, pos)
      | (Exit _ r', p) \<Rightarrow> request_line_done r' p)"

lemmas request_line_steps = rl_step_method_def rl_step_schema_def rl_step_host_def rl_step_port_def
  rl_step_uri_def rl_step_version_def rl_step_end_def

lemmas request_line_cases = rl_host_case_def rl_host_end_case_def rl_single_slash_def
  rl_after_slash_case_def rl_check_uri_case_def rl_uri_case_def

lemmas request_line_evals [ngx_eval] = request_line_steps request_line_cases request_line_step_def
  method_of_def is_ip_literal_char_def usual_iff str_at_def ngx_http_parse_request_line_def
  request_line_done_def

subsection \<open>The invariant\<close>

text \<open>
  What the parser knows at \<open>p\<close>: where the request line and the URI began, that the URI begins with a
  slash and holds no \<open>NUL\<close>, \<open>CR\<close> or \<open>LF\<close>, where it ended, and that both version numbers are small.
\<close>

definition line_open :: "nat \<Rightarrow> request_line \<Rightarrow> bool" where
  "line_open p r \<longleftrightarrow> (case request_start r of None \<Rightarrow> False | Some m \<Rightarrow> m < p)"

definition schema_seen :: "bytes \<Rightarrow> nat \<Rightarrow> nat \<Rightarrow> request_line \<Rightarrow> bool" where
  "schema_seen mem n p r \<longleftrightarrow>
     (case (request_start r, schema_end r) of
        (Some m, Some e) \<Rightarrow> m < e \<and> e + n \<le> p \<and> (n = 1 \<or> mem ! Suc e = c_slash)
      | _ \<Rightarrow> False)"

definition uri_open :: "bytes \<Rightarrow> nat \<Rightarrow> request_line \<Rightarrow> bool" where
  "uri_open mem p r \<longleftrightarrow>
     (case (request_start r, uri_start r) of
        (Some m, Some us) \<Rightarrow> m < us \<and> us < p \<and> mem ! us = c_slash \<and> clean mem us p
      | _ \<Rightarrow> False)"

definition uri_closed :: "bytes \<Rightarrow> nat \<Rightarrow> request_line \<Rightarrow> bool" where
  "uri_closed mem p r \<longleftrightarrow>
     (case (request_start r, uri_start r, uri_end r) of
        (Some m, Some us, Some ue) \<Rightarrow> m < us \<and> us < ue \<and> ue < p \<and> mem ! us = c_slash \<and> clean mem us ue
      | _ \<Rightarrow> False)"

definition rl_state_inv :: "bytes \<Rightarrow> nat \<Rightarrow> request_line \<Rightarrow> bool" where
  "rl_state_inv mem p r =
     (case state r of
        rl_start \<Rightarrow> True
      | rl_method \<Rightarrow> line_open p r
      | rl_spaces_before_uri \<Rightarrow> line_open p r
      | rl_schema \<Rightarrow> line_open p r
      | rl_schema_slash \<Rightarrow> schema_seen mem 1 p r \<and> p = the (schema_end r) + 1
      | rl_schema_slash_slash \<Rightarrow> schema_seen mem 2 p r \<and> p = the (schema_end r) + 2
      | rl_host_start \<Rightarrow> schema_seen mem 3 p r
      | rl_host \<Rightarrow> schema_seen mem 3 p r
      | rl_host_end \<Rightarrow> schema_seen mem 3 p r
      | rl_host_ip_literal \<Rightarrow> schema_seen mem 3 p r
      | rl_port \<Rightarrow> schema_seen mem 3 p r
      | rl_after_slash_in_uri \<Rightarrow> uri_open mem p r
      | rl_check_uri \<Rightarrow> uri_open mem p r
      | rl_uri \<Rightarrow> uri_open mem p r
      | rl_check_uri_http_09 \<Rightarrow> uri_open mem p r \<and> uri_closed mem p r
      | rl_http_09 \<Rightarrow> uri_open mem p r \<and> uri_closed mem p r
      | _ \<Rightarrow> uri_closed mem p r)"

definition rl_inv :: "bytes \<Rightarrow> nat \<Rightarrow> request_line \<Rightarrow> bool" where
  "rl_inv mem p r \<longleftrightarrow> rl_state_inv mem p r \<and> request_end r = None \<and> http_major r \<le> 999 \<and> http_minor r \<le> 999"

lemmas rl_inv_defs = line_open_def schema_seen_def uri_open_def uri_closed_def

lemma fresh_inv: "rl_inv mem p fresh_request"
  by (simp add: rl_inv_def rl_state_inv_def fresh_request_def)

lemma digit_val_le_9: "\<not> c > c_9 \<Longrightarrow> digit_val c \<le> 9"
  by (auto simp: digit_val_def word_less_nat_alt word_le_nat_alt not_less)

lemma rl_step_method_inv:
  assumes "rl_inv mem p r" "rl_step_method mem r p (mem ! p) = Next r'" "state r \<in> {rl_start, rl_method}"
  shows "rl_inv mem (Suc p) r'"
  using assms
  by (auto simp: rl_inv_def rl_state_inv_def rl_step_method_def goto_state_def line_open_def Let_def
      split: if_splits option.splits)

lemma rl_step_schema_inv:
  assumes "rl_inv mem p r" "rl_step_schema r p (mem ! p) = Next r'"
    "state r \<in> {rl_spaces_before_uri, rl_schema, rl_schema_slash, rl_schema_slash_slash}"
  shows "rl_inv mem (Suc p) r'"
  using assms
  by (auto simp: rl_inv_def rl_state_inv_def rl_step_schema_def goto_state_def invalid_request_def rl_inv_defs
      clean_Suc split: if_splits option.splits)

text \<open>The two ways a URI begins.\<close>

lemma schema_seen_Suc: "schema_seen mem n p r \<Longrightarrow> schema_seen mem n (Suc p) r"
  by (auto simp: schema_seen_def split: option.splits)

lemma uri_opens:
  "schema_seen mem 3 p r \<Longrightarrow> mem ! p = c_slash \<Longrightarrow> uri_open mem (Suc p) (r\<lparr>uri_start := Some p\<rparr>)"
  by (auto simp: schema_seen_def uri_open_def clean_Suc split: option.splits)

lemma uri_open_update [simp]:
  "uri_open mem p (r\<lparr>state := s\<rparr>) = uri_open mem p r"
  "uri_open mem p (r\<lparr>space_in_uri := b\<rparr>) = uri_open mem p r"
  by (simp_all add: uri_open_def)

lemma single_slash_closed:
  "schema_seen mem 3 p r \<Longrightarrow> rl_single_slash r = Next r' \<Longrightarrow> uri_closed mem (Suc p) r' \<and> state r' = rl_host_http_09
     \<and> request_end r' = request_end r \<and> http_major r' = http_major r \<and> http_minor r' = http_minor r"
  by (auto simp: schema_seen_def uri_closed_def rl_single_slash_def goto_state_def clean_Suc split: option.splits)

lemma schema_seen_update [simp]:
  "schema_seen mem n p (r\<lparr>state := s\<rparr>) = schema_seen mem n p r"
  "schema_seen mem n p (r\<lparr>host_start := h\<rparr>) = schema_seen mem n p r"
  "schema_seen mem n p (r\<lparr>host_end := h\<rparr>) = schema_seen mem n p r"
  "schema_seen mem n p (r\<lparr>port_end := h\<rparr>) = schema_seen mem n p r"
  by (simp_all add: schema_seen_def)

lemma rl_host_end_case_inv:
  assumes "schema_seen mem 3 p r" "rl_host_end_case r p (mem ! p) = Next r'"
    "request_end r = None" "http_major r \<le> 999" "http_minor r \<le> 999"
  shows "rl_inv mem (Suc p) r'"
  using assms single_slash_closed [of mem p "r\<lparr>host_end := Some p\<rparr>" r']
    uri_opens [of mem p "r\<lparr>host_end := Some p\<rparr>"]
    schema_seen_Suc [of mem 3 p r]
  by (auto simp: rl_host_end_case_def Let_def goto_state_def invalid_request_def rl_inv_def rl_state_inv_def
      split: if_splits)

lemma rl_step_host_inv:
  assumes "rl_inv mem p r" "rl_step_host r p (mem ! p) = Next r'"
    "state r \<in> {rl_host_start, rl_host, rl_host_end, rl_host_ip_literal}"
  shows "rl_inv mem (Suc p) r'"
proof -
  have s: "schema_seen mem 3 p r" "request_end r = None" "http_major r \<le> 999" "http_minor r \<le> 999"
    using assms(1,3) by (auto simp: rl_inv_def rl_state_inv_def)
  then have "schema_seen mem 3 (Suc p) r" by (simp add: schema_seen_Suc)
  then show ?thesis
    using assms(2,3) s rl_host_end_case_inv [of mem p r r']
      rl_host_end_case_inv [of mem p "r\<lparr>host_start := Some p, state := rl_host\<rparr>" r']
    by (elim insertE emptyE; auto simp: rl_step_host_def rl_host_case_def Let_def goto_state_def invalid_request_def
        rl_inv_def rl_state_inv_def split: if_splits)
qed

lemma rl_step_port_inv:
  assumes "rl_inv mem p r" "rl_step_port r p (mem ! p) = Next r'" "state r \<in> {rl_port, rl_host_http_09}"
  shows "rl_inv mem (Suc p) r'"
proof (cases "state r = rl_port")
  case True
  then have s: "schema_seen mem 3 p r" "request_end r = None" "http_major r \<le> 999" "http_minor r \<le> 999"
    using assms(1) by (simp_all add: rl_inv_def rl_state_inv_def)
  then show ?thesis
    using True assms(2) single_slash_closed [of mem p "r\<lparr>port_end := Some p\<rparr>" r'] schema_seen_Suc [of mem 3 p r]
      uri_opens [of mem p "r\<lparr>port_end := Some p\<rparr>"]
    by (auto simp: rl_step_port_def goto_state_def invalid_request_def rl_inv_def rl_state_inv_def split: if_splits)
next
  case False
  then show ?thesis
    using assms
    by (auto simp: rl_step_port_def goto_state_def invalid_request_def rl_inv_def rl_state_inv_def uri_closed_def
        split: if_splits option.splits)
qed

lemma rl_after_slash_case_inv:
  assumes "uri_open mem p r" "rl_after_slash_case r p (mem ! p) = Next r'" "state r = rl_after_slash_in_uri"
    "request_end r = None" "http_major r \<le> 999" "http_minor r \<le> 999"
  shows "rl_inv mem (Suc p) r'"
  using assms
  by (auto simp: rl_after_slash_case_def goto_state_def invalid_request_def rl_inv_def rl_state_inv_def uri_open_def
      uri_closed_def clean_Suc usual_iff split: if_splits option.splits)

lemma rl_check_uri_case_inv:
  assumes "uri_open mem p r" "rl_check_uri_case r p (mem ! p) = Next r'" "state r = rl_check_uri"
    "request_end r = None" "http_major r \<le> 999" "http_minor r \<le> 999"
  shows "rl_inv mem (Suc p) r'"
  using assms
  by (auto simp: rl_check_uri_case_def goto_state_def invalid_request_def rl_inv_def rl_state_inv_def uri_open_def
      uri_closed_def clean_Suc usual_iff split: if_splits option.splits)

lemma rl_uri_case_inv:
  assumes "uri_open mem p r" "rl_uri_case r p (mem ! p) = Next r'" "state r = rl_uri"
    "request_end r = None" "http_major r \<le> 999" "http_minor r \<le> 999"
  shows "rl_inv mem (Suc p) r'"
  using assms
  by (auto simp: rl_uri_case_def goto_state_def invalid_request_def rl_inv_def rl_state_inv_def uri_open_def
      uri_closed_def clean_Suc usual_iff split: if_splits option.splits)

lemma rl_space_inv:
  assumes "uri_open mem p r" "uri_closed mem p r" "mem ! p = c_SP" "state r \<in> {rl_check_uri_http_09, rl_http_09}"
    "request_end r = None" "http_major r \<le> 999" "http_minor r \<le> 999"
  shows "rl_inv mem (Suc p) r"
  using assms by (auto simp: rl_inv_def rl_state_inv_def uri_open_def uri_closed_def clean_Suc split: option.splits)

lemma rl_step_uri_inv:
  assumes "rl_inv mem p r" "rl_step_uri r p (mem ! p) = Next r'"
    "state r \<in> {rl_after_slash_in_uri, rl_check_uri, rl_check_uri_http_09, rl_uri, rl_http_09}"
  shows "rl_inv mem (Suc p) r'"
proof -
  have s: "uri_open mem p r" "request_end r = None" "http_major r \<le> 999" "http_minor r \<le> 999"
    using assms(1,3) by (auto simp: rl_inv_def rl_state_inv_def)
  consider "state r = rl_after_slash_in_uri" | "state r = rl_check_uri" | "state r = rl_uri"
    | "state r \<in> {rl_check_uri_http_09, rl_http_09}" using assms(3) by auto
  then show ?thesis
  proof cases
    case 4
    then have c: "uri_closed mem p r" using assms(1) by (auto simp: rl_inv_def rl_state_inv_def)
    then have "uri_closed mem (Suc p) r" by (auto simp: uri_closed_def split: option.splits)
    then show ?thesis
      using 4 assms(2) s rl_space_inv [OF s(1) c _ 4 s(2-4)]
        rl_check_uri_case_inv [of mem p "r\<lparr>space_in_uri := True, state := rl_check_uri\<rparr>" r']
        rl_uri_case_inv [of mem p "r\<lparr>space_in_uri := True, state := rl_uri\<rparr>" r']
      by (auto simp: rl_step_uri_def goto_state_def rl_inv_def rl_state_inv_def uri_closed_def split: if_splits)
  qed (use s assms(2) rl_after_slash_case_inv [of mem p r r'] rl_check_uri_case_inv [of mem p r r']
        rl_uri_case_inv [of mem p r r'] in \<open>simp_all add: rl_step_uri_def\<close>)
qed

lemma uri_closed_Suc: "uri_closed mem p r \<Longrightarrow> uri_closed mem (Suc p) r"
  by (auto simp: uri_closed_def split: option.splits)

lemma uri_closed_update [simp]:
  "uri_closed mem p (r\<lparr>state := s\<rparr>) = uri_closed mem p r"
  "uri_closed mem p (r\<lparr>http_major := n\<rparr>) = uri_closed mem p r"
  "uri_closed mem p (r\<lparr>http_minor := n\<rparr>) = uri_closed mem p r"
  "uri_closed mem p (r\<lparr>http_protocol := h\<rparr>) = uri_closed mem p r"
  "uri_closed mem p (r\<lparr>request_end := h\<rparr>) = uri_closed mem p r"
  by (simp_all add: uri_closed_def)

lemma rl_step_version_inv:
  assumes "rl_inv mem p r" "rl_step_version r p (mem ! p) = Next r'"
    "state r \<in> {rl_http_H, rl_http_HT, rl_http_HTT, rl_http_HTTP, rl_first_major_digit, rl_major_digit,
                 rl_first_minor_digit, rl_minor_digit}"
  shows "rl_inv mem (Suc p) r'"
proof -
  have s: "uri_closed mem (Suc p) r" "request_end r = None" "http_major r \<le> 999" "http_minor r \<le> 999"
    using assms(1,3) by (auto simp: rl_inv_def rl_state_inv_def intro: uri_closed_Suc)
  have d: "is_digit (mem ! p) \<Longrightarrow> digit_val (mem ! p) \<le> 9" "\<not> mem ! p > c_9 \<Longrightarrow> digit_val (mem ! p) \<le> 9"
    by (simp_all add: digit_val_le digit_val_le_9)
  show ?thesis
    using assms(2,3) s d
    by (elim insertE emptyE; auto simp: rl_step_version_def goto_state_def invalid_request_def rl_inv_def rl_state_inv_def
       split: if_splits)
qed

lemma rl_step_end_inv:
  assumes "rl_inv mem p r" "rl_step_end r p (mem ! p) = Next r'" "state r \<in> {rl_spaces_after_digit, rl_almost_done}"
  shows "rl_inv mem (Suc p) r'"
  using assms
  by (auto simp: rl_step_end_def goto_state_def invalid_request_def rl_inv_def rl_state_inv_def Let_def uri_closed_Suc
      split: if_splits)

lemma request_line_step_inv:
  assumes "rl_inv mem p r" "request_line_step mem r p (mem ! p) = Next r'"
  shows "rl_inv mem (Suc p) r'"
  using assms rl_step_method_inv [OF assms(1)] rl_step_schema_inv [OF assms(1)] rl_step_host_inv [OF assms(1)]
    rl_step_port_inv [OF assms(1)] rl_step_uri_inv [OF assms(1)] rl_step_version_inv [OF assms(1)]
    rl_step_end_inv [OF assms(1)]
  by (cases "state r") (simp_all add: request_line_step_def)

subsection \<open>Resuming\<close>

lemma method_of_more: "m + n < length mem \<Longrightarrow> method_of (mem @ ys) m n old = method_of mem m n old"
  by (simp add: method_of_def str_at_more nth_append)

lemma rl_inv_more: "rl_inv mem p r \<Longrightarrow> p \<le> length mem \<Longrightarrow> rl_inv (mem @ ys) p r"
  by (cases "state r")
     (auto simp: rl_inv_def rl_state_inv_def rl_inv_defs clean_more nth_append split: option.splits)

lemma request_line_local:
  "rl_inv mem p r \<Longrightarrow> p < length mem \<Longrightarrow>
     request_line_step (mem @ ys) r p (mem ! p) = request_line_step mem r p (mem ! p)"
  by (auto simp: request_line_step_def rl_step_method_def rl_inv_def rl_state_inv_def line_open_def method_of_more
      split: option.splits)

interpretation request_line: resumable request_line_step rl_inv
  by unfold_locales (auto intro: request_line_step_inv request_line_local rl_inv_more)

lemma request_line_exit_label:
  "request_line_step mem r p c = Exit x r' \<Longrightarrow>
     x = Done \<or> x = Fail NGX_HTTP_PARSE_INVALID_METHOD \<or> x = Fail NGX_HTTP_PARSE_INVALID_REQUEST"
  by (cases "state r")
     (auto simp: request_line_step_def request_line_steps request_line_cases goto_state_def invalid_request_def
        Let_def split: if_splits)

lemma run_exit_label:
  "run request_line_step mem r p = (Exit x r', q) \<Longrightarrow>
     x = Done \<or> x = Fail NGX_HTTP_PARSE_INVALID_METHOD \<or> x = Fail NGX_HTTP_PARSE_INVALID_REQUEST"
  using run_Exit_step request_line_exit_label by metis

lemma request_line_done_not_again: "fst (request_line_done r p) \<noteq> NGX_AGAIN"
  by (simp add: request_line_done_def ngx_http_codes Let_def)

lemma parse_request_line_again:
  assumes "rl_inv mem pos r" "pos \<le> length mem" "ngx_http_parse_request_line mem r pos = (NGX_AGAIN, r', pos')"
  shows "run request_line_step mem r pos = (Next r', pos') \<and> rl_inv mem pos' r' \<and> pos' = length mem"
proof -
  obtain v q where v: "run request_line_step mem r pos = (v, q)" by (cases "run request_line_step mem r pos")
  show ?thesis
  proof (cases v)
    case (Next s)
    then show ?thesis
      using v assms request_line.run_Next [of mem r pos s q] by (auto simp: ngx_http_parse_request_line_def)
  next
    case (Exit x s)
    then show ?thesis
      using v run_exit_label [of mem r pos x s q] assms(3) request_line_done_not_again [of s q]
      by (auto simp: ngx_http_parse_request_line_def ngx_http_codes)
  qed
qed

lemma request_line_outcome:
  assumes "run request_line_step mem r pos = run request_line_step mem r' pos'"
  shows "outcome (ngx_http_parse_request_line mem r pos) = outcome (ngx_http_parse_request_line mem r' pos')"
proof (cases "run request_line_step mem r' pos'")
  case (Pair v q)
  then show ?thesis
    using assms run_exit_label [of mem r' pos']
    by (cases v) (auto simp: ngx_http_parse_request_line_def outcome_def ngx_http_codes split: exit_label.splits)
qed

interpretation request_line_call: resumable_call ngx_http_parse_request_line rl_inv
proof unfold_locales
  fix mem pos r r' pos' ys
  assume i: "rl_inv mem pos r" "pos \<le> length mem" "ngx_http_parse_request_line mem r pos = (NGX_AGAIN, r', pos')"
  from parse_request_line_again [OF this]
  have n: "run request_line_step mem r pos = (Next r', pos')" "rl_inv mem pos' r'" "pos' = length mem" by auto
  have "run request_line_step (mem @ ys) r pos = run request_line_step (mem @ ys) r' pos'"
    using request_line.run_more [OF i(1,2), of ys] n(1) by simp
  then have "outcome (ngx_http_parse_request_line (mem @ ys) r pos) = outcome (ngx_http_parse_request_line (mem @ ys) r' pos')"
    by (rule request_line_outcome)
  then show "rl_inv (mem @ ys) pos' r' \<and> pos' \<le> length mem \<and>
    outcome (ngx_http_parse_request_line (mem @ ys) r pos) = outcome (ngx_http_parse_request_line (mem @ ys) r' pos')"
    using n rl_inv_more [of mem pos' r' ys] by simp
next
  fix mem pos r rc r' pos' ys
  assume i: "rl_inv mem pos r" "pos \<le> length mem" "ngx_http_parse_request_line mem r pos = (rc, r', pos')"
    "rc \<noteq> NGX_AGAIN"
  then show "ngx_http_parse_request_line (mem @ ys) r pos = (rc, r', pos')"
    using request_line.run_more [OF i(1,2), of ys]
    by (auto simp: ngx_http_parse_request_line_def split: prod.splits verdict.splits exit_label.splits)
qed

text \<open>
  C22: the request line may arrive in any pieces: calling the parser again with each new piece gives
  the same answer, the same request and the same \<open>b->pos\<close> as one call on the whole.
\<close>

theorem request_line_in_pieces:
  "outcome (feed ngx_http_parse_request_line [] fresh_request 0 pieces)
   = outcome (ngx_http_parse_request_line (concat pieces) fresh_request 0)"
  using request_line_call.pieces [of "[]" 0 fresh_request pieces] fresh_inv by simp

subsection \<open>Accepted lines\<close>

lemma uri_open_closed:
  "uri_open mem p r \<Longrightarrow> uri_closed mem (Suc p) (r\<lparr>uri_end := Some p, http_minor := n\<rparr>)"
  by (auto simp: uri_open_def uri_closed_def split: option.splits)

lemma request_line_exit_inv:
  assumes "rl_inv mem p r" "request_line_step mem r p (mem ! p) = Exit Done r'"
  shows "uri_closed mem (Suc p) r' \<and> http_major r' \<le> 999 \<and> http_minor r' \<le> 999 \<and> mem ! p = c_LF \<and>
    (case (request_end r', uri_end r') of
       (None, _) \<Rightarrow> True | (Some e, Some ue) \<Rightarrow> ue \<le> e \<and> Suc e = p | _ \<Rightarrow> False)"
proof -
  have c: "uri_open mem p r \<Longrightarrow> uri_closed mem (Suc p) (r\<lparr>uri_end := Some p, http_minor := 9\<rparr>)"
    "uri_closed mem p r \<Longrightarrow> uri_closed mem (Suc p) r"
    by (rule uri_open_closed uri_closed_Suc, assumption)+
  have e: "state r = rl_almost_done \<Longrightarrow> \<exists>ue. uri_end r = Some ue \<and> ue < p"
    using assms(1) by (auto simp: rl_inv_def rl_state_inv_def uri_closed_def split: option.splits)
  show ?thesis
    using assms c e
    by (cases "state r")
       (auto simp: request_line_step_def request_line_steps request_line_cases goto_state_def invalid_request_def
          Let_def rl_inv_def rl_state_inv_def split: if_splits)
qed

text \<open>
  C24: an accepted request line ends with a line feed inside the buffer; its URI lies inside the line,
  after its first byte, begins with a slash and holds no \<open>NUL\<close>, \<open>CR\<close> or \<open>LF\<close>; and the version
  fits the 16 bits of its two fields.
\<close>

theorem request_line_accepted:
  assumes "ngx_http_parse_request_line mem fresh_request 0 = (NGX_OK, r, pos)"
  shows "\<exists>m us ue e. request_start r = Some m \<and> uri_start r = Some us \<and> uri_end r = Some ue \<and>
      request_end r = Some e \<and> m < us \<and> us < ue \<and> ue \<le> e \<and> e < pos \<and> pos \<le> length mem \<and>
      mem ! us = c_slash \<and> (\<forall>k. us \<le> k \<and> k < ue \<longrightarrow> mem ! k \<notin> {0, c_CR, c_LF}) \<and>
      mem ! (pos - 1) = c_LF \<and> http_major r \<le> 999 \<and> http_minor r \<le> 999"
proof -
  obtain r' p where x: "run request_line_step mem fresh_request 0 = (Exit Done r', p)"
    "request_line_done r' p = (NGX_OK, r, pos)"
    using assms run_exit_label [of mem fresh_request 0]
    by (fastforce simp: ngx_http_parse_request_line_def ngx_http_codes split: prod.splits verdict.splits exit_label.splits)
  obtain r0 where "rl_inv mem p r0" "p < length mem" "request_line_step mem r0 p (mem ! p) = Exit Done r'"
    using request_line.run_Exit [OF x(1) fresh_inv] by auto
  from request_line_exit_inv [OF this(1,3)] this(2) x(2) show ?thesis
    by (auto simp: request_line_done_def Let_def uri_closed_def clean_def split: option.splits if_splits)
qed

theorem request_line_accepted_witness:
  "\<exists>r. ngx_http_parse_request_line (asc ''GET / HTTP/1.0'' @ [c_LF]) fresh_request 0 = (NGX_OK, r, 15) \<and>
     http_major r \<le> 999"
proof -
  obtain r where r: "ngx_http_parse_request_line (asc ''GET / HTTP/1.0'' @ [c_LF]) fresh_request 0 = (NGX_OK, r, 15)"
    by (simp add: ngx_eval run_def Let_def)
  from request_line_accepted [OF this] r show ?thesis by auto
qed

subsection \<open>The method as a table\<close>

definition http_methods :: "(bytes \<times> nat) list" where
  "http_methods =
     [(asc ''GET'', NGX_HTTP_GET), (asc ''PUT'', NGX_HTTP_PUT), (asc ''POST'', NGX_HTTP_POST),
      (asc ''COPY'', NGX_HTTP_COPY), (asc ''MOVE'', NGX_HTTP_MOVE), (asc ''LOCK'', NGX_HTTP_LOCK),
      (asc ''HEAD'', NGX_HTTP_HEAD), (asc ''MKCOL'', NGX_HTTP_MKCOL), (asc ''PATCH'', NGX_HTTP_PATCH),
      (asc ''TRACE'', NGX_HTTP_TRACE), (asc ''DELETE'', NGX_HTTP_DELETE), (asc ''UNLOCK'', NGX_HTTP_UNLOCK),
      (asc ''OPTIONS'', NGX_HTTP_OPTIONS), (asc ''PROPFIND'', NGX_HTTP_PROPFIND),
      (asc ''PROPPATCH'', NGX_HTTP_PROPPATCH)]"

lemma map_of_same_length: "map_of xs w = map_of (filter (\<lambda>(k, v). length k = length w) xs) w"
  by (induction xs) auto

lemma method_of_table:
  assumes "drop m mem = w @ c_SP # rest"
  shows "method_of mem m (length w) old = (case map_of http_methods w of None \<Rightarrow> old | Some k \<Rightarrow> k)"
proof -
  have s: "str_at mem m lit \<longleftrightarrow> take (length lit) (w @ c_SP # rest) = lit" for lit
    by (simp add: str_at_def assms)
  have o: "length w = 4 \<Longrightarrow> mem ! (m + 1) = w ! 1"
    using arg_cong [OF assms, of "\<lambda>l. l ! 1"] arg_cong [OF assms, of length]
    by (simp add: nth_append)
  show ?thesis
  proof (cases "length w \<in> {3, 4, 5, 6, 7, 8, 9}")
    case True
    then show ?thesis
      using o unfolding method_of_def s map_of_same_length [of http_methods]
      by (elim insertE emptyE; simp add: http_methods_def; auto)
  next
    case False
    then show ?thesis
      unfolding method_of_def map_of_same_length [of http_methods] by (auto simp: http_methods_def)
  qed
qed

subsection \<open>Printed request lines\<close>

text \<open>The states that scan a URI change the fields of the URI and no other.\<close>

definition same_but_uri :: "request_line \<Rightarrow> request_line \<Rightarrow> bool" where
  "same_but_uri r r' \<longleftrightarrow>
     request_start r' = request_start r \<and> request_end r' = request_end r \<and> http_method r' = http_method r \<and>
     method_end r' = method_end r \<and> uri_start r' = uri_start r \<and> http_major r' = http_major r \<and>
     http_minor r' = http_minor r"

definition uri_byte :: "u8 \<Rightarrow> bool" where
  "uri_byte c \<longleftrightarrow> c \<notin> {0, c_CR, c_LF, c_SP}"

lemma uri_byte_step:
  assumes "uri_byte c" "state r \<in> {rl_after_slash_in_uri, rl_check_uri, rl_uri}"
  shows "\<exists>r'. request_line_step mem r p c = Next r' \<and> same_but_uri r r' \<and>
           state r' \<in> {rl_after_slash_in_uri, rl_check_uri, rl_uri}"
proof (cases "request_line_step mem r p c")
  case (Next r')
  with assms show ?thesis
    by (elim insertE emptyE; auto simp: uri_byte_def request_line_step_def rl_step_uri_def rl_after_slash_case_def
        rl_check_uri_case_def rl_uri_case_def goto_state_def invalid_request_def same_but_uri_def split: if_splits)
next
  case (Exit x r')
  with assms show ?thesis
    by (elim insertE emptyE; auto simp: uri_byte_def request_line_step_def rl_step_uri_def rl_after_slash_case_def
        rl_check_uri_case_def rl_uri_case_def goto_state_def invalid_request_def split: if_splits)
qed

lemma uri_bytes_run:
  "list_all uri_byte cs \<Longrightarrow> state r \<in> {rl_after_slash_in_uri, rl_check_uri, rl_uri} \<Longrightarrow>
     \<exists>r'. parse_loop (request_line_step mem) r p cs = (Next r', p + length cs) \<and> same_but_uri r r' \<and>
       state r' \<in> {rl_after_slash_in_uri, rl_check_uri, rl_uri}"
proof (induction cs arbitrary: r p)
  case Nil
  then show ?case by (simp add: same_but_uri_def)
next
  case (Cons c cs)
  obtain r1 where r1: "request_line_step mem r p c = Next r1" "same_but_uri r r1"
    "state r1 \<in> {rl_after_slash_in_uri, rl_check_uri, rl_uri}"
    using uri_byte_step [of c r mem p] Cons.prems by auto
  obtain r2 where r2: "parse_loop (request_line_step mem) r1 (Suc p) cs = (Next r2, Suc p + length cs)"
    "same_but_uri r1 r2" "state r2 \<in> {rl_after_slash_in_uri, rl_check_uri, rl_uri}"
    using Cons.IH [OF _ r1(3), of "Suc p"] Cons.prems by auto
  have "same_but_uri r r2" using r1(2) r2(2) by (simp add: same_but_uri_def)
  with r1 r2 show ?case by auto
qed

lemma method_bytes_run:
  "list_all is_method_char cs \<Longrightarrow> state r = rl_method \<Longrightarrow>
     parse_loop (request_line_step mem) r p cs = (Next r, p + length cs)"
  by (induction cs arbitrary: p)
     (auto simp: request_line_step_def rl_step_method_def is_method_char_def)

lemma version_run:
  assumes "is_digit a" "a \<noteq> c_0" "is_digit b" "state r \<in> {rl_after_slash_in_uri, rl_check_uri, rl_uri}"
  shows "parse_loop (request_line_step mem) r p (c_SP # asc ''HTTP/'' @ a # c_dot # b # c_CR # c_LF # rest) =
    (Exit Done (r\<lparr>uri_end := Some p, http_protocol := Some (p + 1), http_major := digit_val a,
                 http_minor := digit_val b, request_end := Some (p + 9), state := rl_almost_done\<rparr>), p + 10)"
proof -
  have a: "\<not> a < 0x31 \<and> \<not> a > c_9"
    using assms(1,2) by (auto simp: is_digit_def word_less_nat_alt word_le_nat_alt word_unat_eq_iff)
  have b: "b \<noteq> c_CR" "b \<noteq> c_LF" "b \<noteq> c_SP" "b \<noteq> c_dot" using assms(3) by (auto simp: is_digit_def)
  show ?thesis
    using assms(3,4) a b
    by (elim insertE emptyE; simp add: request_line_step_def rl_step_uri_def rl_step_version_def rl_step_end_def
        rl_after_slash_case_def rl_check_uri_case_def rl_uri_case_def goto_state_def usual_iff Let_def)
qed

lemma is_method_char_not: "is_method_char c \<Longrightarrow> c \<noteq> c_CR \<and> c \<noteq> c_LF \<and> c \<noteq> c_SP"
  by (auto simp: is_method_char_def)

lemma method_run:
  assumes "ms \<noteq> []" "list_all is_method_char ms" "mem = ms @ c_SP # tail"
  shows "parse_loop (request_line_step mem) fresh_request 0 (ms @ c_SP # ys) =
    parse_loop (request_line_step mem)
      (fresh_request\<lparr>request_start := Some 0, state := rl_spaces_before_uri, method_end := Some (length ms - 1),
         http_method := (case map_of http_methods ms of None \<Rightarrow> NGX_HTTP_UNKNOWN | Some k \<Rightarrow> k)\<rparr>)
      (length ms + 1) ys"
proof -
  obtain c cs where ms: "ms = c # cs" using assms(1) by (cases ms) auto
  let ?r = "fresh_request\<lparr>request_start := Some 0, state := rl_method\<rparr>"
  have "parse_loop (request_line_step mem) fresh_request 0 ms = (Next ?r, length ms)"
    using method_bytes_run [of cs ?r mem 1] assms(2) is_method_char_not [of c]
    by (simp add: ms request_line_step_def rl_step_method_def goto_state_def fresh_request_def)
  moreover have "method_of mem 0 (length ms) NGX_HTTP_UNKNOWN =
      (case map_of http_methods ms of None \<Rightarrow> NGX_HTTP_UNKNOWN | Some k \<Rightarrow> k)"
    by (rule method_of_table [of _ _ _ tail]) (simp add: assms(3))
  ultimately show ?thesis
    by (simp add: parse_loop_append_Next request_line_step_def rl_step_method_def goto_state_def Let_def
        fresh_request_def)
qed

text \<open>
  C25: a request line "METHOD URI HTTP/a.b", with any method name of capital letters and any URI
  that begins with a slash and has no space, is accepted with exactly these parts: the method by the
  table of the known ones, the URI's bounds and the version.
\<close>

theorem request_line_printed:
  assumes "ms \<noteq> []" "list_all is_method_char ms" "list_all uri_byte us"
    "is_digit a" "a \<noteq> c_0" "is_digit b"
    "line = ms @ [c_SP, c_slash] @ us @ [c_SP] @ asc ''HTTP/'' @ [a, c_dot, b, c_CR, c_LF]"
  shows "\<exists>r. ngx_http_parse_request_line (line @ rest) fresh_request 0 = (NGX_OK, r, length line) \<and>
     request_start r = Some 0 \<and> method_end r = Some (length ms - 1) \<and>
     http_method r = (case map_of http_methods ms of None \<Rightarrow> NGX_HTTP_UNKNOWN | Some k \<Rightarrow> k) \<and>
     uri_start r = Some (length ms + 1) \<and> uri_end r = Some (length ms + 2 + length us) \<and>
     request_end r = Some (length line - 2) \<and>
     http_major r = digit_val a \<and> http_minor r = digit_val b \<and>
     http_version r = digit_val a * 1000 + digit_val b"
proof -
  let ?mem = "line @ rest" and ?step = "request_line_step (line @ rest)"
  let ?m = "case map_of http_methods ms of None \<Rightarrow> NGX_HTTP_UNKNOWN | Some k \<Rightarrow> k"
  let ?r1 = "fresh_request\<lparr>request_start := Some 0, state := rl_after_slash_in_uri, method_end := Some (length ms - 1),
         http_method := ?m, uri_start := Some (length ms + 1)\<rparr>"
  let ?ver = "c_SP # asc ''HTTP/'' @ a # c_dot # b # c_CR # c_LF # rest"
  obtain r where r: "parse_loop ?step ?r1 (length ms + 2) us = (Next r, length ms + 2 + length us)"
    "same_but_uri ?r1 r" "state r \<in> {rl_after_slash_in_uri, rl_check_uri, rl_uri}"
    using uri_bytes_run [OF assms(3), of ?r1 ?mem "length ms + 2"] by auto
  have major: "0 < digit_val a"
    using assms(4,5) by (auto simp: digit_val_def is_digit_unat word_unat_eq_iff)
  have "?mem = ms @ c_SP # c_slash # us @ ?ver" by (simp add: assms(7))
  then have "parse_loop ?step fresh_request 0 ?mem = parse_loop ?step ?r1 (length ms + 2) (us @ ?ver)"
    using method_run [OF assms(1,2), of ?mem "c_slash # us @ ?ver" "c_slash # us @ ?ver"]
    by (simp add: request_line_step_def rl_step_schema_def goto_state_def fresh_request_def)
  then have "run request_line_step ?mem fresh_request 0 = parse_loop ?step r (length ms + 2 + length us) ?ver"
    using r(1) by (simp add: run_def parse_loop_append_Next)
  then show ?thesis
    using r(2) version_run [OF assms(4-6) r(3), of ?mem "length ms + 2 + length us" rest] major
    by (simp add: ngx_http_parse_request_line_def request_line_done_def Let_def same_but_uri_def assms(7)
        fresh_request_def)
qed

theorem request_line_printed_witness:
  "\<exists>r pos. ngx_http_parse_request_line
      (asc ''PUT'' @ [c_SP, c_slash] @ asc ''a/b'' @ [c_SP] @ asc ''HTTP/'' @ [0x31, c_dot, 0x31, c_CR, c_LF])
      fresh_request 0 = (NGX_OK, r, pos) \<and> http_method r = NGX_HTTP_PUT \<and> http_version r = 1001"
proof -
  have "\<exists>r pos. ngx_http_parse_request_line
      ((asc ''PUT'' @ [c_SP, c_slash] @ asc ''a/b'' @ [c_SP] @ asc ''HTTP/'' @ [0x31, c_dot, 0x31, c_CR, c_LF]) @ [])
      fresh_request 0 = (NGX_OK, r, pos) \<and>
      http_method r = (case map_of http_methods (asc ''PUT'') of None \<Rightarrow> NGX_HTTP_UNKNOWN | Some k \<Rightarrow> k) \<and>
      http_version r = digit_val 0x31 * 1000 + digit_val 0x31"
    by (rule exE [OF request_line_printed [of "asc ''PUT''" "asc ''a/b''" "0x31" "0x31" _ "[]", OF _ _ _ _ _ _ refl]])
       (simp_all add: is_method_char_def uri_byte_def is_digit_def)
  then show ?thesis by (simp add: http_methods_def digit_val_def)
qed

end
