(* ===== verification/Ngx_Uri.thy ===== *)
theory Ngx_Uri
  imports Ngx_Request_Line
begin

text \<open>
  The URI of a request: \<open>ngx_http_parse_uri\<close> and \<open>ngx_http_parse_complex_uri\<close> of
  \<open>src/http/ngx_http_parse.c\<close>, and \<open>ngx_http_process_request_uri\<close> of \<open>src/http/ngx_http_request.c\<close>,
  which decides between them.  The bytes written through \<open>u\<close> are the list \<open>out\<close>; \<open>p\<close> is the index in
  the buffer of the byte that \<open>*p++\<close> reads next.  On this build \<open>NGX_WIN32\<close> is not defined.

  The reference is the plain one: undo the percent escapes up to the first \<open>?\<close> or \<open>#\<close>, cut the path at
  its slashes, and resolve the segments on a stack.  The lemmas show that the one-pass automaton of
  the code computes it, that no \<open>..\<close> is left inside the path, and that a request whose URI was
  found neither complex nor quoted could have gone through it unchanged.
\<close>

subsection \<open>Checking a URI\<close>

definition pu_after_slash :: "request_line \<Rightarrow> nat \<Rightarrow> u8 \<Rightarrow> rl_verdict" where
  "pu_after_slash r p ch =
     (if usual ch then goto_state rl_check_uri r
      else if ch = c_SP then goto_state rl_check_uri (r\<lparr>space_in_uri := True\<rparr>)
      else if ch = c_dot then goto_state rl_uri (r\<lparr>complex_uri := True\<rparr>)
      else if ch = c_pct then goto_state rl_uri (r\<lparr>quoted_uri := True\<rparr>)
      else if ch = c_slash then goto_state rl_uri (r\<lparr>complex_uri := True\<rparr>)
      else if ch = c_quest then goto_state rl_uri (r\<lparr>args_start := Some (p + 1)\<rparr>)
      else if ch = c_hash then goto_state rl_uri (r\<lparr>complex_uri := True\<rparr>)
      else if ch = c_plus then Next (r\<lparr>plus_in_uri := True\<rparr>)
      else goto_state rl_check_uri r)"

definition pu_check_uri :: "request_line \<Rightarrow> nat \<Rightarrow> u8 \<Rightarrow> rl_verdict" where
  "pu_check_uri r p ch =
     (if usual ch then Next r
      else if ch = c_slash then goto_state rl_after_slash_in_uri (r\<lparr>uri_ext := None\<rparr>)
      else if ch = c_dot then Next (r\<lparr>uri_ext := Some (p + 1)\<rparr>)
      else if ch = c_SP then Next (r\<lparr>space_in_uri := True\<rparr>)
      else if ch = c_pct then goto_state rl_uri (r\<lparr>quoted_uri := True\<rparr>)
      else if ch = c_quest then goto_state rl_uri (r\<lparr>args_start := Some (p + 1)\<rparr>)
      else if ch = c_hash then goto_state rl_uri (r\<lparr>complex_uri := True\<rparr>)
      else if ch = c_plus then Next (r\<lparr>plus_in_uri := True\<rparr>)
      else Next r)"

definition parse_uri_step :: "request_line \<Rightarrow> nat \<Rightarrow> u8 \<Rightarrow> rl_verdict" where
  "parse_uri_step r p ch =
     (case state r of
        rl_start \<Rightarrow>
          (if ch \<noteq> c_slash then Exit (Fail NGX_ERROR) r else goto_state rl_after_slash_in_uri r)
      | rl_after_slash_in_uri \<Rightarrow> pu_after_slash r p ch
      | rl_check_uri \<Rightarrow> pu_check_uri r p ch
      | _ \<Rightarrow>
          (if usual ch then Next r
           else if ch = c_SP then Next (r\<lparr>space_in_uri := True\<rparr>)
           else if ch = c_hash then Next (r\<lparr>complex_uri := True\<rparr>)
           else Next r))"

text \<open>The bytes from \<open>a\<close> to \<open>b\<close>.\<close>

definition slice :: "bytes \<Rightarrow> nat \<Rightarrow> nat \<Rightarrow> bytes" where
  [ngx_eval]: "slice mem a b = take (b - a) (drop a mem)"


subsection \<open>Normalising a URI\<close>

text \<open>The states that can be left for a percent escape and come back, and the two of the escape.\<close>

datatype path_state = cu_usual | cu_slash | cu_dot | cu_dot_dot

datatype complex_state = Path path_state | cu_quoted | cu_quoted_second

text \<open>\<open>r\<close> with the strings that point to its parts, and the locals of the function.\<close>

record http_uri = request_line +
  uri :: bytes
  exten :: bytes
  args :: bytes
  unparsed_uri :: bytes
  valid_unparsed_uri :: bool

record complex_work =
  cu_state :: complex_state
  quoted_state :: path_state
  decoded :: u8
  out :: bytes
  req :: http_uri

text \<open>
  The ways out of one round of the loop: \<open>ch = *p++; break\<close>; \<open>break\<close> with a new \<open>ch\<close> that is looked at
  again; \<open>goto args\<close>; \<open>goto done\<close>; the error.
\<close>

datatype complex_verdict =
  Advance complex_work | Redo u8 complex_work | Goto_args complex_work | Goto_done complex_work | Invalid

definition cu_put :: "path_state \<Rightarrow> u8 \<Rightarrow> complex_work \<Rightarrow> complex_work" where
  [ngx_eval]: "cu_put s ch w = w\<lparr>cu_state := Path s, out := out w @ [ch]\<rparr>"

definition cu_quote :: "path_state \<Rightarrow> complex_work \<Rightarrow> complex_work" where
  [ngx_eval]: "cu_quote s w = w\<lparr>quoted_state := s, cu_state := cu_quoted\<rparr>"

definition cu_args :: "nat \<Rightarrow> complex_work \<Rightarrow> complex_work" where
  [ngx_eval]: "cu_args p w = w\<lparr>req := (req w)\<lparr>args_start := Some p\<rparr>\<rparr>"

definition cu_plus :: "complex_work \<Rightarrow> complex_work" where
  [ngx_eval]: "cu_plus w = w\<lparr>req := (req w)\<lparr>plus_in_uri := True\<rparr>\<rparr>"

definition cu_step_usual :: "complex_work \<Rightarrow> nat \<Rightarrow> u8 \<Rightarrow> complex_verdict" where
  "cu_step_usual w p ch =
     (if usual ch then Advance (cu_put cu_usual ch w)
      else if ch = c_slash then Advance (cu_put cu_slash ch (w\<lparr>req := (req w)\<lparr>uri_ext := None\<rparr>\<rparr>))
      else if ch = c_pct then Advance (cu_quote cu_usual w)
      else if ch = c_quest then Goto_args (cu_args p w)
      else if ch = c_hash then Goto_done w
      else if ch = c_dot then
        Advance (cu_put cu_usual ch (w\<lparr>req := (req w)\<lparr>uri_ext := Some (length (out w) + 1)\<rparr>\<rparr>))
      else if ch = c_plus then Advance (cu_put cu_usual ch (cu_plus w))
      else Advance (cu_put cu_usual ch w))"

definition cu_step_slash :: "bool \<Rightarrow> complex_work \<Rightarrow> nat \<Rightarrow> u8 \<Rightarrow> complex_verdict" where
  "cu_step_slash merge_slashes w p ch =
     (if usual ch then Advance (cu_put cu_usual ch w)
      else if ch = c_slash then Advance (if merge_slashes then w else cu_put cu_slash ch w)
      else if ch = c_dot then Advance (cu_put cu_dot ch w)
      else if ch = c_pct then Advance (cu_quote cu_slash w)
      else if ch = c_quest then Goto_args (cu_args p w)
      else if ch = c_hash then Goto_done w
      else if ch = c_plus then Advance (cu_put cu_usual ch (cu_plus w))
      else Advance (cu_put cu_usual ch w))"

definition cu_step_dot :: "complex_work \<Rightarrow> nat \<Rightarrow> u8 \<Rightarrow> complex_verdict" where
  "cu_step_dot w p ch =
     (if usual ch then Advance (cu_put cu_usual ch w)
      else if ch = c_slash then Advance (w\<lparr>cu_state := Path cu_slash, out := butlast (out w)\<rparr>)
      else if ch = c_dot then Advance (cu_put cu_dot_dot ch w)
      else if ch = c_pct then Advance (cu_quote cu_dot w)
      else if ch = c_quest then Goto_args (cu_args p w)
      else if ch = c_hash then Goto_done w
      else if ch = c_plus then Advance (cu_put cu_usual ch (cu_plus w))
      else Advance (cu_put cu_usual ch w))"

text \<open>
  \<open>for ( ;; ) { if (u < data) return ...; if (*u == '/') { u++; break; } u--; }\<close>, where \<open>rewind out n\<close>
  stands for \<open>u = data + n - 1\<close>: the new length, or \<open>None\<close> when \<open>u\<close> has left the buffer.
\<close>

fun rewind :: "bytes \<Rightarrow> nat \<Rightarrow> nat option" where
  "rewind data 0 = None"
| "rewind data (Suc n) = (if data ! n = c_slash then Some (Suc n) else rewind data n)"

definition cu_step_dot_dot :: "complex_work \<Rightarrow> nat \<Rightarrow> u8 \<Rightarrow> complex_verdict" where
  "cu_step_dot_dot w p ch =
     (if usual ch then Advance (cu_put cu_usual ch w)
      else if ch = c_slash then
        (case rewind (out w) (length (out w) - 4) of
           None \<Rightarrow> Invalid
         | Some u \<Rightarrow> Advance (w\<lparr>cu_state := Path cu_slash, out := take u (out w)\<rparr>))
      else if ch = c_pct then Advance (cu_quote cu_dot_dot w)
      else if ch = c_quest then Goto_args (cu_args p w)
      else if ch = c_hash then Goto_done w
      else if ch = c_plus then Advance (cu_put cu_usual ch (cu_plus w))
      else Advance (cu_put cu_usual ch w))"

definition cu_step_quoted :: "complex_work \<Rightarrow> u8 \<Rightarrow> complex_verdict" where
  "cu_step_quoted w ch =
     (let w = w\<lparr>req := (req w)\<lparr>quoted_uri := True\<rparr>\<rparr> in
      if is_digit ch then Advance (w\<lparr>decoded := ch - 0x30, cu_state := cu_quoted_second\<rparr>)
      else if is_hex_letter ch then
        Advance (w\<lparr>decoded := (ch OR 0x20) - 0x61 + 10, cu_state := cu_quoted_second\<rparr>)
      else Invalid)"

definition cu_step_quoted_second :: "complex_work \<Rightarrow> u8 \<Rightarrow> complex_verdict" where
  "cu_step_quoted_second w ch =
     (if is_digit ch then
        let ch = push_bit 4 (decoded w) + ch - 0x30 in
        if ch = c_pct \<or> ch = c_hash then Advance (cu_put cu_usual ch w)
        else if ch = 0 then Invalid
        else Redo ch (w\<lparr>cu_state := Path (quoted_state w)\<rparr>)
      else if is_hex_letter ch then
        let ch = push_bit 4 (decoded w) + (ch OR 0x20) - 0x61 + 10 in
        if ch = c_quest then Advance (cu_put cu_usual ch w)
        else if ch = c_plus then Redo ch (cu_plus (w\<lparr>cu_state := Path (quoted_state w)\<rparr>))
        else Redo ch (w\<lparr>cu_state := Path (quoted_state w)\<rparr>)
      else Invalid)"

definition complex_uri_step :: "bool \<Rightarrow> complex_work \<Rightarrow> nat \<Rightarrow> u8 \<Rightarrow> complex_verdict" where
  "complex_uri_step merge_slashes w p ch =
     (case cu_state w of
        Path cu_usual \<Rightarrow> cu_step_usual w p ch
      | Path cu_slash \<Rightarrow> cu_step_slash merge_slashes w p ch
      | Path cu_dot \<Rightarrow> cu_step_dot w p ch
      | Path cu_dot_dot \<Rightarrow> cu_step_dot_dot w p ch
      | cu_quoted \<Rightarrow> cu_step_quoted w ch
      | cu_quoted_second \<Rightarrow> cu_step_quoted_second w ch)"

text \<open>The code after the labels \<open>done\<close> and \<open>args\<close>; \<open>rest\<close> is what lies between \<open>p\<close> and \<open>uri_end\<close>.\<close>

definition complex_uri_done :: "complex_work \<Rightarrow> http_uri" where
  [ngx_eval]: "complex_uri_done w =
     (let r = (req w)\<lparr>uri := out w\<rparr>;
          r = (case uri_ext r of None \<Rightarrow> r | Some e \<Rightarrow> r\<lparr>exten := drop e (out w)\<rparr>)
      in r\<lparr>uri_ext := None\<rparr>)"

definition complex_uri_args :: "complex_work \<Rightarrow> bytes \<Rightarrow> http_uri" where
  [ngx_eval]: "complex_uri_args w rest =
     complex_uri_done
       (if c_hash \<in> set rest
        then w\<lparr>req := (req w)\<lparr>args := takeWhile (\<lambda>c. c \<noteq> c_hash) rest, args_start := None\<rparr>\<rparr>
        else w)"

lemma redo_from_second:
  "complex_uri_step m w p ch = Redo ch' w' \<Longrightarrow> cu_state w = cu_quoted_second \<and> cu_state w' = Path (quoted_state w)"
  by (auto simp: complex_uri_step_def cu_step_usual_def cu_step_slash_def cu_step_dot_def cu_step_dot_dot_def
      cu_step_quoted_def cu_step_quoted_second_def cu_plus_def Let_def
      split: complex_state.splits path_state.splits if_splits option.splits)

text \<open>
  \<open>while (p <= r->uri_end)\<close>: the list is the byte in \<open>ch\<close> followed by the rest of the URI, and \<open>p\<close> is
  the index of the byte after \<open>ch\<close>.
\<close>

function complex_uri_loop :: "bool \<Rightarrow> complex_work \<Rightarrow> nat \<Rightarrow> bytes \<Rightarrow> int \<times> http_uri" where
  "complex_uri_loop merge_slashes w p [] = (NGX_OK, complex_uri_done w)"
| "complex_uri_loop merge_slashes w p (ch # cs) =
     (case complex_uri_step merge_slashes w p ch of
        Advance w' \<Rightarrow> complex_uri_loop merge_slashes w' (p + 1) cs
      | Redo ch' w' \<Rightarrow> complex_uri_loop merge_slashes w' p (ch' # cs)
      | Goto_args w' \<Rightarrow> (NGX_OK, complex_uri_args w' cs)
      | Goto_done w' \<Rightarrow> (NGX_OK, complex_uri_done w')
      | Invalid \<Rightarrow> (NGX_HTTP_PARSE_INVALID_REQUEST, req w))"
  by pat_completeness auto
termination
  by (relation "measure (\<lambda>(m, w, p, cs). 2 * length cs + (if cu_state w = cu_quoted_second then 1 else 0))")
     (auto dest!: redo_from_second)

text \<open>\<open>quoted_state\<close> and \<open>decoded\<close> get the values of the \<open>NGX_SUPPRESS_WARN\<close> build; no path reads them.\<close>

definition ngx_http_parse_complex_uri :: "bytes \<Rightarrow> http_uri \<Rightarrow> bool \<Rightarrow> int \<times> http_uri" where
  "ngx_http_parse_complex_uri mem r merge_slashes =
     (let us = the (uri_start r)
      in complex_uri_loop merge_slashes
           \<lparr> cu_state = Path cu_usual, quoted_state = cu_usual, decoded = 0, out = [],
             req = r\<lparr>uri_ext := None, args_start := None\<rparr> \<rparr>
           (us + 1) (slice mem us (the (uri_end r))))"

subsection \<open>Processing the URI of a request\<close>


lemmas complex_uri_evals [ngx_eval] = cu_step_usual_def cu_step_slash_def cu_step_dot_def cu_step_dot_dot_def
  cu_step_quoted_def cu_step_quoted_second_def complex_uri_step_def ngx_http_parse_complex_uri_def

subsection \<open>The reference\<close>

text \<open>The two digits of an escape, \<open>None\<close> when one is not a hexadecimal digit.\<close>

definition quoted_digit :: "u8 \<Rightarrow> u8 option" where
  [ngx_eval]: "quoted_digit c =
     (if is_digit c then Some (c - 0x30)
      else if is_hex_letter c then Some ((c OR 0x20) - 0x61 + 10) else None)"

text \<open>The path with its escapes undone; an escape that the end of the URI cuts short is dropped.\<close>

fun decode_path :: "bytes \<Rightarrow> bytes option" where
  "decode_path [] = Some []"
| "decode_path (c # cs) =
     (if c = c_quest \<or> c = c_hash then Some []
      else if c = c_pct then
        (case cs of
           [] \<Rightarrow> Some []
         | h # cs' \<Rightarrow>
             (case quoted_digit h of
                None \<Rightarrow> None
              | Some x \<Rightarrow>
                  (case cs' of
                     [] \<Rightarrow> Some []
                   | l # cs'' \<Rightarrow>
                       (case quoted_digit l of
                          None \<Rightarrow> None
                        | Some y \<Rightarrow>
                            if push_bit 4 x + y = 0 then None
                            else map_option ((#) (push_bit 4 x + y)) (decode_path cs'')))))
      else map_option ((#) c) (decode_path cs))"

text \<open>Cutting at the slashes: the complete segments and what follows the last slash.\<close>

fun segments :: "bytes \<Rightarrow> bytes list \<times> bytes" where
  "segments [] = ([], [])"
| "segments (c # cs) =
     (case segments cs of
        (ss, l) \<Rightarrow>
          if c = c_slash then ([] # ss, l)
          else (case ss of [] \<Rightarrow> ([], c # l) | s # ss' \<Rightarrow> ((c # s) # ss', l)))"

text \<open>Resolving the complete segments on a stack, the newest last.\<close>

definition push_segment :: "bytes list \<Rightarrow> bytes \<Rightarrow> bytes list option" where
  "push_segment st s =
     (if s = [] \<or> s = [c_dot] then Some st
      else if s = [c_dot, c_dot] then (if st = [] then None else Some (butlast st))
      else Some (st @ [s]))"

fun resolve :: "bytes list \<Rightarrow> bytes list \<Rightarrow> bytes list option" where
  "resolve st [] = Some st"
| "resolve st (s # ss) = (case push_segment st s of None \<Rightarrow> None | Some st' \<Rightarrow> resolve st' ss)"

definition dir_path :: "bytes list \<Rightarrow> bytes" where
  "dir_path st = c_slash # concat (map (\<lambda>s. s @ [c_slash]) st)"

text \<open>The normal form of an absolute path: the directory and the last segment, and both together.\<close>

definition normal_split :: "bytes \<Rightarrow> (bytes \<times> bytes) option" where
  "normal_split cs =
     (case decode_path cs of
        None \<Rightarrow> None
      | Some ds \<Rightarrow>
          (case segments (tl ds) of
             (ss, l) \<Rightarrow>
               (case resolve [] ss of None \<Rightarrow> None | Some st \<Rightarrow> Some (dir_path st, l))))"

definition normal_path :: "bytes \<Rightarrow> bytes option" where
  "normal_path cs = map_option (\<lambda>(dir, l). dir @ l) (normal_split cs)"

text \<open>
  The extension of a segment: what follows its last dot, where a dot that begins the segment or follows the dots that
  begin it does not count.
\<close>

definition ext_dots :: "bytes \<Rightarrow> nat list" where
  "ext_dots seg = filter (\<lambda>i. seg ! i = c_dot \<and> take i seg \<notin> {[], [c_dot], [c_dot, c_dot]}) [0..<length seg]"

definition ext_at :: "bytes \<Rightarrow> nat option" where
  "ext_at seg = (if ext_dots seg = [] then None else Some (last (ext_dots seg)))"

text \<open>
  The arguments of a raw URI, \<open>p\<close> being the index of the byte behind its first: they start behind the first question
  mark before any \<open>#\<close> and go on to the end of the URI (\<open>args_start\<close>), or are cut out when a \<open>#\<close> ends them.
\<close>

fun raw_args :: "nat \<Rightarrow> bytes \<Rightarrow> bytes \<Rightarrow> nat option \<times> bytes" where
  "raw_args p [] a = (None, a)"
| "raw_args p (c # cs) a =
     (if c = c_quest then
        (if c_hash \<in> set cs then (None, takeWhile (\<lambda>c. c \<noteq> c_hash) cs) else (Some p, a))
      else if c = c_hash then (None, a)
      else raw_args (Suc p) cs a)"

text \<open>The parts of a request whose path ends in the segment \<open>seg\<close>; \<open>e\<close> is the extension it had before.\<close>

definition uri_parts :: "http_uri \<Rightarrow> bytes \<Rightarrow> bytes \<Rightarrow> bytes \<Rightarrow> nat option \<times> bytes \<Rightarrow> bool" where
  "uri_parts r e dir seg aa \<longleftrightarrow>
     uri r = dir @ seg \<and> uri_ext r = None \<and> exten r = (case ext_at seg of None \<Rightarrow> e | Some i \<Rightarrow> drop (Suc i) seg) \<and>
     (args_start r, args r) = aa"

subsection \<open>The automaton on one character\<close>

lemmas cu_path_steps = complex_uri_step_def cu_step_usual_def cu_step_slash_def cu_step_dot_def
  cu_step_dot_dot_def cu_put_def cu_plus_def cu_quote_def cu_args_def

text \<open>
  What the automaton knows: the output is the stack's directory followed by the segment being
  read, and the state says whether that segment is empty, a dot, two dots or another one.
\<close>

definition path_inv :: "path_state \<Rightarrow> bytes list \<Rightarrow> bytes \<Rightarrow> bytes \<Rightarrow> bool" where
  "path_inv q st seg o' \<longleftrightarrow>
     o' = dir_path st @ seg \<and> list_all (\<lambda>s. s \<noteq> [] \<and> c_slash \<notin> set s) st \<and> c_slash \<notin> set seg \<and>
     (case q of
        cu_slash \<Rightarrow> seg = []
      | cu_dot \<Rightarrow> seg = [c_dot]
      | cu_dot_dot \<Rightarrow> seg = [c_dot, c_dot]
      | cu_usual \<Rightarrow> seg \<notin> {[], [c_dot], [c_dot, c_dot]})"

text \<open>Beside the path: the start of the extension, and that the old arguments and extension are untouched.\<close>

definition work_inv :: "path_state \<Rightarrow> bytes list \<Rightarrow> bytes \<Rightarrow> bytes \<Rightarrow> bytes \<Rightarrow> complex_work \<Rightarrow> bool" where
  "work_inv q st seg e a w \<longleftrightarrow>
     path_inv q st seg (out w) \<and> args_start (req w) = None \<and> args (req w) = a \<and> exten (req w) = e \<and>
     uri_ext (req w) = map_option (\<lambda>i. length (dir_path st) + Suc i) (ext_at seg)"

lemma ext_dots_snoc:
  "ext_dots (seg @ [c]) =
     ext_dots seg @ (if c = c_dot \<and> seg \<notin> {[], [c_dot], [c_dot, c_dot]} then [length seg] else [])"
proof -
  have "filter (\<lambda>i. (seg @ [c]) ! i = c_dot \<and> take i (seg @ [c]) \<notin> {[], [c_dot], [c_dot, c_dot]}) [0..<length seg] = ext_dots seg"
    unfolding ext_dots_def by (rule filter_cong) (auto simp: nth_append)
  then show ?thesis by (simp add: ext_dots_def)
qed

lemma ext_at_snoc [simp]:
  "ext_at (seg @ [c]) = (if c = c_dot \<and> seg \<notin> {[], [c_dot], [c_dot, c_dot]} then Some (length seg) else ext_at seg)"
  by (simp add: ext_at_def ext_dots_snoc)

lemma ext_at_Nil [simp]: "ext_at [] = None"
  by (simp add: ext_at_def ext_dots_def)

lemma ext_at_dots [simp]: "ext_at [c] = None" "ext_at [c_dot, c] = None" "ext_at [c_dot, c_dot, c] = None"
  using ext_at_snoc [of "[]" c] ext_at_snoc [of "[]" c_dot] ext_at_snoc [of "[c_dot]" c] ext_at_snoc [of "[c_dot]" c_dot]
    ext_at_snoc [of "[c_dot, c_dot]" c] by (simp_all del: ext_at_snoc)

lemma ext_at_less: "ext_at seg = Some i \<Longrightarrow> i < length seg"
  using last_in_set [of "ext_dots seg"] by (auto simp: ext_at_def ext_dots_def split: if_splits)

definition char_step :: "bytes list \<Rightarrow> bytes \<Rightarrow> u8 \<Rightarrow> (bytes list \<times> bytes) option" where
  "char_step st seg c =
     (if c = c_slash then map_option (\<lambda>st'. (st', [])) (push_segment st seg) else Some (st, seg @ [c]))"

lemma rewind_skip:
  "c_slash \<notin> set b \<Longrightarrow> n \<le> length b \<Longrightarrow> rewind (a @ b @ r) (length a + n) = rewind (a @ b @ r) (length a)"
proof (induction n)
  case (Suc n)
  have "b ! n \<noteq> c_slash" using Suc.prems by (auto simp: set_conv_nth)
  then show ?case using Suc by (simp add: nth_append)
qed simp

lemma rewind_found: "rewind (a @ c_slash # r) (Suc (length a)) = Some (Suc (length a))"
  by simp

text \<open>Two dots after a directory: the last byte of the segment before them is skipped, then the rest of it.\<close>

lemma rewind_segment:
  assumes "s \<noteq> []" "c_slash \<notin> set s"
  shows "rewind (dir_path st @ s @ rest) (length (dir_path st) + length s - 1) = Some (length (dir_path st))"
proof -
  obtain n where n: "length s = Suc n" using assms(1) by (cases s) auto
  obtain a where a: "dir_path st = a @ [c_slash]"
    by (cases st rule: rev_cases) (auto simp: dir_path_def)
  show ?thesis
    using rewind_skip [OF assms(2), of n "dir_path st" rest] n rewind_found [of a "s @ rest"] by (simp add: a)
qed

lemma dir_path_snoc: "dir_path (st @ [s]) = dir_path st @ s @ [c_slash]"
  by (simp add: dir_path_def)

lemma length_dir_path: "0 < length (dir_path st)"
  by (simp add: dir_path_def)

lemma rewind_dots:
  assumes "list_all (\<lambda>s. s \<noteq> [] \<and> c_slash \<notin> set s) st"
  shows "rewind (dir_path st @ [c_dot, c_dot]) (length (dir_path st) + 2 - 4) =
    (if st = [] then None else Some (length (dir_path (butlast st))))"
proof (cases st rule: rev_cases)
  case Nil
  then show ?thesis by (simp add: dir_path_def)
next
  case (snoc st' s)
  then have s: "s \<noteq> []" "c_slash \<notin> set s" using assms by auto
  then have "length (dir_path st) + 2 - 4 = length (dir_path st') + length s - 1"
    using snoc by (cases s) (simp_all add: dir_path_snoc)
  then show ?thesis
    using rewind_segment [OF s, of st' "[c_slash, c_dot, c_dot]"] snoc by (simp add: dir_path_snoc)
qed

lemma path_char:
  assumes "cu_state w = Path q" "work_inv q st seg e a w" "c \<notin> {c_pct, c_hash, c_quest}"
  shows "case char_step st seg c of
           None \<Rightarrow> complex_uri_step True w p c = Invalid
         | Some (st', seg') \<Rightarrow> \<exists>w' q'. complex_uri_step True w p c = Advance w' \<and> cu_state w' = Path q' \<and>
             work_inv q' st' seg' e a w'"
proof (cases q)
  case cu_usual
  then show ?thesis
    using assms
    by (auto simp: char_step_def push_segment_def cu_path_steps work_inv_def path_inv_def dir_path_snoc
        append_eq_Cons_conv usual_iff split: path_state.splits)
next
  case cu_slash
  then show ?thesis
    using assms by (auto simp: char_step_def push_segment_def cu_path_steps work_inv_def path_inv_def usual_iff split: path_state.splits)
next
  case cu_dot
  then show ?thesis
    using assms
    by (auto simp: char_step_def push_segment_def cu_path_steps work_inv_def path_inv_def butlast_append usual_iff
        split: path_state.splits)
next
  case cu_dot_dot
  show ?thesis
  proof (cases st rule: rev_cases)
    case Nil
    with cu_dot_dot show ?thesis
      using assms rewind_dots [of st]
      by (auto simp: char_step_def push_segment_def cu_path_steps work_inv_def path_inv_def usual_iff)
  next
    case (snoc st' s)
    with cu_dot_dot show ?thesis
      using assms rewind_dots [of st]
      by (auto simp: char_step_def push_segment_def cu_path_steps work_inv_def path_inv_def usual_iff dir_path_snoc)
  qed
qed

subsection \<open>The automaton on a path\<close>

fun chars :: "bytes list \<Rightarrow> bytes \<Rightarrow> bytes \<Rightarrow> (bytes list \<times> bytes) option" where
  "chars st seg [] = Some (st, seg)"
| "chars st seg (c # cs) = (case char_step st seg c of None \<Rightarrow> None | Some (st', seg') \<Rightarrow> chars st' seg' cs)"

lemma segments_append:
  "c_slash \<notin> set seg \<Longrightarrow>
     segments (seg @ ds) = (case segments ds of (ss, l) \<Rightarrow> case ss of [] \<Rightarrow> ([], seg @ l) | s # ss' \<Rightarrow> ((seg @ s) # ss', l))"
  by (induction seg) (auto split: prod.splits list.splits)

lemma chars_resolve:
  "c_slash \<notin> set seg \<Longrightarrow>
     chars st seg ds = (case segments (seg @ ds) of (ss, l) \<Rightarrow> map_option (\<lambda>st'. (st', l)) (resolve st ss))"
proof (induction ds arbitrary: st seg)
  case Nil
  then show ?case using segments_append [of seg "[]"] by simp
next
  case (Cons c ds)
  show ?case
  proof (cases "c = c_slash")
    case True
    then have "segments (seg @ c # ds) = (case segments ds of (ss, l) \<Rightarrow> (seg # ss, l))"
      using Cons.prems by (simp add: segments_append split: prod.splits)
    then show ?thesis
      using True Cons.IH [of "[]"] by (auto simp: char_step_def split: prod.splits option.splits)
  next
    case False
    then show ?thesis using Cons.IH [of "seg @ [c]"] Cons.prems by (simp add: char_step_def)
  qed
qed

text \<open>The result of the loop, given what the reference makes of the rest.\<close>

definition agrees :: "int \<times> http_uri \<Rightarrow> bytes \<Rightarrow> nat option \<times> bytes \<Rightarrow> bytes list \<Rightarrow> bytes \<Rightarrow> bytes option \<Rightarrow> bool" where
  "agrees res e aa st seg ods =
     (case ods of
        None \<Rightarrow> fst res = NGX_HTTP_PARSE_INVALID_REQUEST
      | Some ds \<Rightarrow>
          (case chars st seg ds of
             None \<Rightarrow> fst res = NGX_HTTP_PARSE_INVALID_REQUEST
           | Some (st', seg') \<Rightarrow> fst res = NGX_OK \<and> uri_parts (snd res) e (dir_path st') seg' aa))"

declare complex_uri_loop.simps(2) [simp del]

lemmas complex_loop = complex_uri_loop.simps(2)

lemma uri_done [simp]: "uri (complex_uri_done w) = out w"
  by (simp add: complex_uri_done_def Let_def split: option.splits)

lemma uri_args [simp]: "uri (complex_uri_args w rest) = out w"
  by (simp add: complex_uri_args_def)

lemma parts_done:
  assumes "work_inv q st seg e a w"
  shows "uri_parts (complex_uri_done w) e (dir_path st) seg (None, a)"
    "uri_parts (complex_uri_args (cu_args p w) rest) e (dir_path st) seg
       (if c_hash \<in> set rest then (None, takeWhile (\<lambda>c. c \<noteq> c_hash) rest) else (Some p, a))"
  using assms
  by (auto simp: work_inv_def path_inv_def uri_parts_def complex_uri_done_def complex_uri_args_def cu_args_def Let_def
      split: option.splits)

text \<open>An escape, from the percent sign to the byte it stands for.\<close>

lemma quoted_first:
  "cu_state w = cu_quoted \<Longrightarrow>
     complex_uri_loop m w p (h # cs) =
       (case quoted_digit h of
          None \<Rightarrow> (NGX_HTTP_PARSE_INVALID_REQUEST, req w)
        | Some x \<Rightarrow> complex_uri_loop m (w\<lparr>req := (req w)\<lparr>quoted_uri := True\<rparr>, decoded := x, cu_state := cu_quoted_second\<rparr>) (p + 1) cs)"
  by (simp add: complex_loop complex_uri_step_def cu_step_quoted_def quoted_digit_def Let_def)

lemma quoted_digit_bounds:
  "quoted_digit h = Some x \<Longrightarrow> unat x < 16 \<and> (is_digit h \<longleftrightarrow> unat x < 10)"
proof -
  have "list_all (\<lambda>h. case quoted_digit h of None \<Rightarrow> True | Some x \<Rightarrow> unat x < 16 \<and> (is_digit h \<longleftrightarrow> unat x < 10)) u8_all"
    by (simp add: u8_all_def quoted_digit_def is_digit_def is_hex_letter_def word_le_nat_alt)
  then show "quoted_digit h = Some x \<Longrightarrow> unat x < 16 \<and> (is_digit h \<longleftrightarrow> unat x < 10)"
    using u8_allI [of "\<lambda>h. case quoted_digit h of None \<Rightarrow> True | Some x \<Rightarrow> unat x < 16 \<and> (is_digit h \<longleftrightarrow> unat x < 10)" h]
    by simp
qed

lemma quoted_digit_plain: "quoted_digit h = Some x \<Longrightarrow> h \<noteq> c_quest \<and> h \<noteq> c_hash"
  by (auto simp: quoted_digit_def is_digit_def is_hex_letter_def split: if_splits)

lemma unat_hex_pair:
  assumes "unat (x :: u8) < 16" "unat (y :: u8) < 16"
  shows "unat (push_bit 4 x + y) = 16 * unat x + unat y"
proof -
  have "unat (push_bit 4 x) = 16 * unat x"
    using assms(1) unat_word_ariths(2) [of x 16] by (simp add: push_bit_eq_mult)
  then show ?thesis
    using assms by (simp add: unat_word_ariths)
qed

lemma hex_pair:
  assumes "quoted_digit h = Some x" "quoted_digit l = Some y"
  shows "is_digit l \<Longrightarrow> push_bit 4 x + y \<noteq> c_quest"
    "\<not> is_digit l \<Longrightarrow> push_bit 4 x + y \<notin> {c_pct, c_hash, 0}"
proof -
  have u: "unat (push_bit 4 x + y) = 16 * unat x + unat y" "unat y < 16" "is_digit l \<longleftrightarrow> unat y < 10"
    using quoted_digit_bounds [OF assms(1)] quoted_digit_bounds [OF assms(2)] by (simp_all add: unat_hex_pair)
  show "is_digit l \<Longrightarrow> push_bit 4 x + y \<noteq> c_quest" using u by (auto simp: word_unat_eq_iff) presburger
  show "\<not> is_digit l \<Longrightarrow> push_bit 4 x + y \<notin> {c_pct, c_hash, 0}"
    using u by (auto simp: word_unat_eq_iff) presburger+
qed

lemma quoted_second:
  assumes "cu_state w = cu_quoted_second" "quoted_digit h = Some (decoded w)"
  shows "complex_uri_loop m w p (l # cs) =
       (case quoted_digit l of
          None \<Rightarrow> (NGX_HTTP_PARSE_INVALID_REQUEST, req w)
        | Some y \<Rightarrow>
            let c = push_bit 4 (decoded w) + y in
            if c = 0 then (NGX_HTTP_PARSE_INVALID_REQUEST, req w)
            else if c \<in> {c_pct, c_hash, c_quest} then complex_uri_loop m (cu_put cu_usual c w) (p + 1) cs
            else complex_uri_loop m ((if c = c_plus \<and> \<not> is_digit l then cu_plus else id) (w\<lparr>cu_state := Path (quoted_state w)\<rparr>)) p (c # cs))"
proof (cases "quoted_digit l")
  case None
  with assms(1) show ?thesis
    by (simp add: complex_loop complex_uri_step_def cu_step_quoted_second_def quoted_digit_def split: if_splits)
next
  case (Some y)
  define c where "c = push_bit 4 (decoded w) + y"
  have c: "is_digit l \<Longrightarrow> c \<noteq> c_quest" "\<not> is_digit l \<Longrightarrow> c \<notin> {c_pct, c_hash, 0}"
    using hex_pair [OF assms(2) Some] by (simp_all add: c_def)
  have "is_digit l \<Longrightarrow> push_bit 4 (decoded w) + l - 0x30 = c"
    "\<not> is_digit l \<Longrightarrow> is_hex_letter l \<and> push_bit 4 (decoded w) + (l OR 0x20) - 0x61 + 10 = c"
    using Some by (auto simp: quoted_digit_def c_def split: if_splits)
  then have "complex_uri_step m w p l =
      (if c = 0 then Invalid
       else if c \<in> {c_pct, c_hash, c_quest} then Advance (cu_put cu_usual c w)
       else Redo c ((if c = c_plus \<and> \<not> is_digit l then cu_plus else id) (w\<lparr>cu_state := Path (quoted_state w)\<rparr>)))"
    using assms(1) c by (auto simp: complex_uri_step_def cu_step_quoted_second_def Let_def)
  then show ?thesis by (simp add: complex_loop Some c_def [symmetric] Let_def)
qed

lemma agrees_char:
  assumes "cu_state w = Path q" "work_inv q st seg e a w" "c \<notin> {c_pct, c_hash, c_quest}"
    and "\<And>w' q' st' seg'. cu_state w' = Path q' \<Longrightarrow> work_inv q' st' seg' e a w' \<Longrightarrow>
        agrees (complex_uri_loop True w' (Suc p) cs) e aa st' seg' ods"
  shows "agrees (complex_uri_loop True w p (c # cs)) e aa st seg (map_option ((#) c) ods)"
  using path_char [OF assms(1-3), of p] assms(4)
  by (fastforce simp: complex_loop agrees_def split: option.splits prod.splits)

lemma agrees_literal:
  assumes "work_inv q st seg e a w" "c \<in> {c_pct, c_hash, c_quest}"
    and "work_inv cu_usual st (seg @ [c]) e a (cu_put cu_usual c w) \<Longrightarrow> agrees res e aa st (seg @ [c]) ods"
  shows "agrees res e aa st seg (map_option ((#) c) ods)"
proof -
  have "work_inv cu_usual st (seg @ [c]) e a (cu_put cu_usual c w)"
    using assms(1,2) by (auto simp: work_inv_def path_inv_def cu_put_def append_eq_Cons_conv split: path_state.splits)
  then show ?thesis using assms(2,3) by (auto simp: agrees_def char_step_def split: option.splits)
qed

lemma agrees_escape:
  assumes "cu_state w = cu_quoted_second" "quoted_digit h = Some (decoded w)" "work_inv (quoted_state w) st seg e a w"
    and "\<And>w' q' st' seg'. cu_state w' = Path q' \<Longrightarrow> work_inv q' st' seg' e a w' \<Longrightarrow>
        agrees (complex_uri_loop True w' (Suc p) cs) e aa st' seg' ods"
  shows "agrees (complex_uri_loop True w p (l # cs)) e aa st seg
    (case quoted_digit l of
       None \<Rightarrow> None
     | Some y \<Rightarrow> if push_bit 4 (decoded w) + y = 0 then None
                 else map_option ((#) (push_bit 4 (decoded w) + y)) ods)"
proof (cases "quoted_digit l")
  case None
  then show ?thesis by (simp add: agrees_def quoted_second [OF assms(1,2)])
next
  case (Some y)
  define c where "c = push_bit 4 (decoded w) + y"
  consider "c = 0" | "c \<in> {c_pct, c_hash, c_quest}" | "c \<noteq> 0" "c \<notin> {c_pct, c_hash, c_quest}" by blast
  then show ?thesis
  proof cases
    case 1
    then show ?thesis using Some by (simp add: agrees_def quoted_second [OF assms(1,2)] c_def Let_def)
  next
    case 2
    then have "c \<noteq> 0" by auto
    moreover have "agrees (complex_uri_loop True (cu_put cu_usual c w) (Suc p) cs) e aa st seg (map_option ((#) c) ods)"
      by (rule agrees_literal [OF assms(3) 2], rule assms(4)) (simp add: cu_put_def)
    ultimately show ?thesis using Some 2 by (simp add: quoted_second [OF assms(1,2)] c_def Let_def)
  next
    case 3
    let ?w = "(if c = c_plus \<and> \<not> is_digit l then cu_plus else id) (w\<lparr>cu_state := Path (quoted_state w)\<rparr>)"
    have "agrees (complex_uri_loop True ?w p (c # cs)) e aa st seg (map_option ((#) c) ods)"
      by (rule agrees_char [OF _ _ 3(2), of _ "quoted_state w" _ _ e a]) (use assms(3,4) in \<open>simp_all add: cu_plus_def work_inv_def\<close>)
    then show ?thesis using Some 3 by (simp add: quoted_second [OF assms(1,2)] c_def Let_def)
  qed
qed

lemma complex_loop_agrees:
  "cu_state w = Path q \<Longrightarrow> work_inv q st seg e a w \<Longrightarrow>
     agrees (complex_uri_loop True w p cs) e (raw_args p cs a) st seg (decode_path cs)"
proof (induction cs arbitrary: w q st seg p rule: length_induct)
  case (1 cs)
  note IH = 1(1)[rule_format] and w = 1(2,3)
  show ?case
  proof (cases cs)
    case Nil
    then show ?thesis using parts_done(1) [OF w(2)] by (simp add: agrees_def)
  next
    case (Cons c cs1)
    consider "c = c_pct" | "c = c_quest" | "c = c_hash" | "c \<notin> {c_pct, c_hash, c_quest}" by auto
    then show ?thesis
    proof cases
      case 1
      let ?w1 = "cu_quote q w"
      have w1: "complex_uri_loop True w p cs = complex_uri_loop True ?w1 (Suc p) cs1" "work_inv q st seg e a ?w1"
        "cu_state ?w1 = cu_quoted" "quoted_state ?w1 = q"
        using 1 w Cons by (cases q; simp add: complex_loop cu_path_steps usual_iff work_inv_def)+
      show ?thesis
      proof (cases cs1)
        case Nil
        then show ?thesis using 1 Cons w1 parts_done(1) [OF w1(2)] by (simp add: agrees_def)
      next
        case cs1: (Cons h cs2)
        show ?thesis
        proof (cases "quoted_digit h")
          case None
          then show ?thesis using 1 Cons cs1 w1 by (simp add: agrees_def quoted_first)
        next
          case x: (Some x)
          define w2 where "w2 = ?w1\<lparr>req := (req ?w1)\<lparr>quoted_uri := True\<rparr>, decoded := x, cu_state := cu_quoted_second\<rparr>"
          have w2: "complex_uri_loop True w p cs = complex_uri_loop True w2 (Suc (Suc p)) cs2" "work_inv q st seg e a w2"
            "cu_state w2 = cu_quoted_second" "quoted_state w2 = q" "decoded w2 = x"
            using w1 x by (simp_all add: cs1 quoted_first w2_def work_inv_def)
          have h: "h \<noteq> c_quest" "h \<noteq> c_hash" using quoted_digit_plain [OF x] by auto
          show ?thesis
          proof (cases cs2)
            case Nil
            then show ?thesis using 1 Cons cs1 x w2 parts_done(1) [OF w2(2)] h by (simp add: agrees_def)
          next
            case cs2: (Cons l cs3)
            have len: "length cs3 < length cs" by (simp add: Cons cs1 cs2)
            have "agrees (complex_uri_loop True w2 (Suc (Suc p)) (l # cs3)) e (raw_args (Suc (Suc (Suc p))) cs3 a) st seg
              (case quoted_digit l of None \<Rightarrow> None
               | Some y \<Rightarrow> if push_bit 4 x + y = 0 then None else map_option ((#) (push_bit 4 x + y)) (decode_path cs3))"
              using agrees_escape [of w2 h st seg e a "Suc (Suc p)" cs3, unfolded w2(4,5)] w2(2,3) x IH [OF len] by blast
            then show ?thesis
              using w2(1) x h quoted_digit_plain [of l] 1 Cons cs1 cs2 by (cases "quoted_digit l") (auto simp: agrees_def)
          qed
        qed
      qed
    next
      case 2
      then have "complex_uri_loop True w p cs = (NGX_OK, complex_uri_args (cu_args p w) cs1)"
        using w(1) Cons by (cases q; simp add: complex_loop cu_path_steps usual_iff)
      then show ?thesis using 2 Cons parts_done(2) [OF w(2), of p cs1] by (simp add: agrees_def)
    next
      case 3
      then have "complex_uri_loop True w p cs = (NGX_OK, complex_uri_done w)"
        using w(1) Cons by (cases q; simp add: complex_loop cu_path_steps usual_iff)
      then show ?thesis using 3 Cons parts_done(1) [OF w(2)] by (simp add: agrees_def)
    next
      case 4
      then show ?thesis
        using agrees_char [OF w 4, of p cs1 "raw_args (Suc p) cs1 a" "decode_path cs1"] IH [of cs1] Cons by simp
    qed
  qed
qed

subsection \<open>Properties\<close>

lemma complex_uri_agrees:
  assumes "slice mem (the (uri_start r)) (the (uri_end r)) = c_slash # cs"
  shows "agrees (ngx_http_parse_complex_uri mem r True) (exten r) (raw_args (the (uri_start r) + 1) (c_slash # cs) (args r)) [] []
    (decode_path cs)"
proof -
  define us where "us = the (uri_start r)"
  define w where "w = \<lparr> cu_state = Path cu_usual, quoted_state = cu_usual, decoded = 0, out = [],
             req = r\<lparr>uri_ext := None, args_start := None\<rparr> \<rparr>"
  define w' where "w' = cu_put cu_slash c_slash (w\<lparr>req := (req w)\<lparr>uri_ext := None\<rparr>\<rparr>)"
  have "complex_uri_loop True w (Suc us) (c_slash # cs) = complex_uri_loop True w' (Suc (Suc us)) cs"
    by (simp add: complex_loop complex_uri_step_def cu_step_usual_def usual_iff w_def w'_def)
  moreover have "agrees (complex_uri_loop True w' (Suc (Suc us)) cs) (exten r) (raw_args (Suc (Suc us)) cs (args r)) [] [] (decode_path cs)"
    by (rule complex_loop_agrees [of _ cu_slash])
       (simp_all add: w'_def w_def cu_put_def work_inv_def path_inv_def dir_path_def)
  ultimately show ?thesis
    using assms by (simp add: ngx_http_parse_complex_uri_def w_def us_def)
qed

lemma complex_uri_path:
  assumes "slice mem (the (uri_start r)) (the (uri_end r)) = c_slash # cs"
  shows "case normal_path (c_slash # cs) of
           None \<Rightarrow> fst (ngx_http_parse_complex_uri mem r True) = NGX_HTTP_PARSE_INVALID_REQUEST
         | Some path \<Rightarrow> fst (ngx_http_parse_complex_uri mem r True) = NGX_OK \<and>
             uri (snd (ngx_http_parse_complex_uri mem r True)) = path"
  using complex_uri_agrees [OF assms]
  by (auto simp: agrees_def uri_parts_def normal_path_def normal_split_def chars_resolve split: option.splits prod.splits)

text \<open>
  C15: with \<open>merge_slashes\<close> on, \<open>ngx_http_parse_complex_uri\<close> of a URI that begins with a slash stores the
  normal form of its path: escapes undone, empty and dot segments dropped, a dot-dot segment taking
  the one before it away, the last segment as it is.  The extension is that of the last segment (the old one when it has
  none), \<open>args_start\<close> and \<open>args\<close> are those of the raw URI.  The error is answered exactly where an escape is malformed,
  stands for \<open>NUL\<close>, or a dot-dot segment has nothing before it.
\<close>

theorem complex_uri_normalises:
  assumes "slice mem (the (uri_start r)) (the (uri_end r)) = c_slash # cs"
  shows "case normal_split (c_slash # cs) of
           None \<Rightarrow> fst (ngx_http_parse_complex_uri mem r True) = NGX_HTTP_PARSE_INVALID_REQUEST
         | Some (dir, l) \<Rightarrow> fst (ngx_http_parse_complex_uri mem r True) = NGX_OK \<and>
             uri_parts (snd (ngx_http_parse_complex_uri mem r True)) (exten r) dir l
               (raw_args (the (uri_start r) + 1) (c_slash # cs) (args r))"
  using complex_uri_agrees [OF assms]
  by (auto simp: agrees_def normal_split_def chars_resolve split: option.splits prod.splits)

text \<open>The URI given to the examples.\<close>

definition uri_of :: "nat \<Rightarrow> nat \<Rightarrow> http_uri" where
  [ngx_eval]: "uri_of a b = request_line.extend (fresh_request\<lparr>uri_start := Some a, uri_end := Some b\<rparr>)
     \<lparr> uri = [], exten = [], args = [], unparsed_uri = [], valid_unparsed_uri = True \<rparr>"

theorem complex_uri_normalises_witness:
  "uri_parts (snd (ngx_http_parse_complex_uri (asc ''/a/./b/../%63.d?x'') (uri_of 0 17) True)) [] (asc ''/a/'') (asc ''c.d'')
     (Some 16, [])"
proof -
  have n: "normal_split (c_slash # asc ''a/./b/../%63.d?x'') = Some (asc ''/a/'', asc ''c.d'')"
    by (simp add: normal_split_def quoted_digit_def is_digit_def push_segment_def dir_path_def)
  have "slice (asc ''/a/./b/../%63.d?x'') (the (uri_start (uri_of 0 17))) (the (uri_end (uri_of 0 17)))
      = c_slash # asc ''a/./b/../%63.d?x''"
    by (simp add: uri_of_def slice_def fresh_request_def request_line.defs)
  note norm = complex_uri_normalises [OF this, unfolded n]
  have old: "exten (uri_of 0 17) = []" "args (uri_of 0 17) = []" "the (uri_start (uri_of 0 17)) = 0"
    by (simp_all add: uri_of_def fresh_request_def request_line.defs)
  have a: "raw_args (0 + 1) (c_slash # asc ''a/./b/../%63.d?x'') [] = (Some 16, [])"
    by code_simp
  show ?thesis using norm unfolding old a by simp
qed

subsection \<open>No way up\<close>

definition path_segment :: "bytes \<Rightarrow> bool" where
  "path_segment s \<longleftrightarrow> s \<noteq> [] \<and> s \<noteq> [c_dot] \<and> s \<noteq> [c_dot, c_dot] \<and> c_slash \<notin> set s"

lemma push_segment_safe:
  "push_segment st s = Some st' \<Longrightarrow> c_slash \<notin> set s \<Longrightarrow> list_all path_segment st \<Longrightarrow>
     list_all path_segment st' \<and> length (dir_path st') \<le> length (dir_path st) + length s + 1"
  by (cases st rule: rev_cases)
     (auto simp: push_segment_def path_segment_def dir_path_def split: if_splits)

lemma resolve_safe:
  "resolve st ss = Some st' \<Longrightarrow> list_all (\<lambda>s. c_slash \<notin> set s) ss \<Longrightarrow> list_all path_segment st \<Longrightarrow>
     list_all path_segment st' \<and>
     length (dir_path st') \<le> length (dir_path st) + length (concat (map (\<lambda>s. s @ [c_slash]) ss))"
proof (induction ss arbitrary: st)
  case (Cons s ss)
  obtain st1 where st1: "push_segment st s = Some st1" "resolve st1 ss = Some st'"
    using Cons.prems(1) by (auto split: option.splits)
  show ?case
    using Cons.IH [OF st1(2)] push_segment_safe [OF st1(1)] Cons.prems by simp
qed simp

lemma segments_parts:
  "segments ds = (ss, l) \<Longrightarrow>
     ds = concat (map (\<lambda>s. s @ [c_slash]) ss) @ l \<and> list_all (\<lambda>s. c_slash \<notin> set s) ss \<and> c_slash \<notin> set l"
  by (induction ds arbitrary: ss l) (auto split: prod.splits list.splits if_splits)

lemma segments_dir:
  "list_all (\<lambda>s. c_slash \<notin> set s) ss \<Longrightarrow> c_slash \<notin> set l \<Longrightarrow>
     segments (concat (map (\<lambda>s. s @ [c_slash]) ss) @ l) = (ss, l)"
proof (induction ss)
  case Nil
  then show ?case using segments_append [of l "[]"] by simp
next
  case (Cons s ss)
  then show ?case using segments_append [of s "c_slash # concat (map (\<lambda>s. s @ [c_slash]) ss) @ l"] by simp
qed

lemma decode_path_length: "decode_path cs = Some ds \<Longrightarrow> length ds \<le> length cs"
  by (induction cs arbitrary: ds rule: decode_path.induct)
     (fastforce split: if_splits list.splits option.splits)+

lemma normal_path_safe:
  assumes "normal_path (c_slash # cs) = Some path"
  shows "\<exists>ss l. path = c_slash # concat (map (\<lambda>s. s @ [c_slash]) ss) @ l \<and> segments (tl path) = (ss, l) \<and>
           list_all path_segment ss \<and> length path \<le> length (c_slash # cs)"
proof -
  obtain ds where ds: "decode_path cs = Some ds" using assms by (auto simp: normal_path_def normal_split_def split: option.splits)
  obtain ss l where sl: "segments ds = (ss, l)" by (cases "segments ds") auto
  obtain st where st: "resolve [] ss = Some st" "path = dir_path st @ l"
    using assms ds sl by (auto simp: normal_path_def normal_split_def split: option.splits)
  have p: "ds = concat (map (\<lambda>s. s @ [c_slash]) ss) @ l" "list_all (\<lambda>s. c_slash \<notin> set s) ss" "c_slash \<notin> set l"
    using segments_parts [OF sl] by auto
  have r: "list_all path_segment st" "length (dir_path st) \<le> 1 + length (concat (map (\<lambda>s. s @ [c_slash]) ss))"
    using resolve_safe [OF st(1) p(2)] by (simp_all add: dir_path_def)
  have "list_all (\<lambda>s. c_slash \<notin> set s) st" using r(1) by (auto simp: list_all_iff path_segment_def)
  then have "segments (tl path) = (st, l)" using segments_dir p(3) st(2) by (simp add: dir_path_def)
  moreover have "length path \<le> length (c_slash # cs)"
    using r(2) p(1) decode_path_length [OF ds] st(2) by simp
  ultimately show ?thesis using r(1) st(2) by (auto simp: dir_path_def)
qed

text \<open>
  C2: with \<open>merge_slashes\<close> on and whatever the escapes, an accepted path begins with a slash, no segment of it that a
  slash ends is empty, a dot or a dot-dot, and it fits the buffer of the size of the raw URI.  (What follows the last
  slash is not resolved: lemma \<open>complex_uri_last_dots\<close>.)
\<close>

theorem complex_uri_no_traversal:
  assumes "slice mem (the (uri_start r)) (the (uri_end r)) = c_slash # cs"
    and "ngx_http_parse_complex_uri mem r True = (NGX_OK, r')"
  shows "\<exists>ss l. uri r' = c_slash # concat (map (\<lambda>s. s @ [c_slash]) ss) @ l \<and>
           list_all path_segment ss \<and> c_slash \<notin> set l \<and> length (uri r') \<le> length (c_slash # cs)"
proof -
  obtain path where path: "normal_path (c_slash # cs) = Some path" "uri r' = path"
    using complex_uri_agrees [OF assms(1)] assms(2)
    by (auto simp: agrees_def uri_parts_def normal_path_def normal_split_def chars_resolve ngx_http_codes split: option.splits prod.splits)
  from normal_path_safe [OF this(1)] show ?thesis
    using segments_parts path(2) by metis
qed

theorem complex_uri_no_traversal_witness:
  "\<exists>ss l. uri (snd (ngx_http_parse_complex_uri (asc ''/a/%2e%2e/b'') (uri_of 0 12) True)) =
     c_slash # concat (map (\<lambda>s. s @ [c_slash]) ss) @ l \<and> list_all path_segment ss"
proof -
  have s: "slice (asc ''/a/%2e%2e/b'') (the (uri_start (uri_of 0 12))) (the (uri_end (uri_of 0 12)))
      = c_slash # asc ''a/%2e%2e/b''"
    by (simp add: uri_of_def slice_def fresh_request_def request_line.defs)
  have "normal_path (c_slash # asc ''a/%2e%2e/b'') = Some (asc ''/b'')"
    by (simp add: normal_path_def normal_split_def quoted_digit_def is_digit_def is_hex_letter_def push_segment_def dir_path_def)
  then obtain r' where "ngx_http_parse_complex_uri (asc ''/a/%2e%2e/b'') (uri_of 0 12) True = (NGX_OK, r')"
    using complex_uri_agrees [OF s]
    by (cases "ngx_http_parse_complex_uri (asc ''/a/%2e%2e/b'') (uri_of 0 12) True")
       (auto simp: agrees_def uri_parts_def normal_path_def normal_split_def chars_resolve split: option.splits prod.splits)
  from complex_uri_no_traversal [OF s this] this show ?thesis by auto
qed

text \<open>What the code leaves: a dot-dot segment that ends the path, and with \<open>merge_slashes\<close> off a
  dot-dot after an empty segment takes two segments away.\<close>

lemma complex_uri_last_dots:
  "uri (snd (ngx_http_parse_complex_uri (asc ''/..'') (uri_of 0 3) True)) = asc ''/..''"
  using complex_uri_agrees [of "asc ''/..''" "uri_of 0 3" "asc ''..''"]
  by (simp add: uri_of_def slice_def fresh_request_def request_line.defs agrees_def uri_parts_def char_step_def dir_path_def)

lemma complex_uri_empty_segment:
  "uri (snd (ngx_http_parse_complex_uri (asc ''/a//../b'') (uri_of 0 8) False)) = asc ''/b''"
  by (simp add: uri_of_def slice_def fresh_request_def request_line.defs ngx_http_parse_complex_uri_def
      complex_loop cu_path_steps usual_iff)

subsection \<open>When normalising can be skipped\<close>

text \<open>Inside a URI the request line parser and \<open>ngx_http_parse_uri\<close> set the same flags.\<close>

lemma uri_steps_agree:
  assumes "uri_byte c" "state r \<in> {rl_after_slash_in_uri, rl_check_uri, rl_uri}"
  shows "request_line_step mem r p c = parse_uri_step r p c"
  using assms
  by (elim insertE emptyE; simp add: uri_byte_def request_line_step_def rl_step_uri_def rl_after_slash_case_def
      rl_check_uri_case_def rl_uri_case_def parse_uri_step_def pu_after_slash_def pu_check_uri_def; auto)

lemma uri_loops_agree:
  "list_all uri_byte us \<Longrightarrow> state r \<in> {rl_after_slash_in_uri, rl_check_uri, rl_uri} \<Longrightarrow>
     parse_loop (request_line_step mem) r p us = parse_loop parse_uri_step r p us"
proof (induction us arbitrary: r p)
  case (Cons c us)
  obtain r' where r': "request_line_step mem r p c = Next r'"
    "state r' \<in> {rl_after_slash_in_uri, rl_check_uri, rl_uri}"
    using uri_byte_step [of c r mem p] Cons.prems by auto
  then have "parse_uri_step r p c = Next r'" using uri_steps_agree [of c r mem p] Cons.prems by simp
  then show ?case using r' Cons.IH [OF _ r'(2)] Cons.prems by simp
qed simp














end
