(* ===== verification/Ngx_Header_Line.thy ===== *)
theory Ngx_Header_Line
  imports Ngx_Http
begin

text \<open>
  \<open>ngx_http_parse_header_line\<close> of \<open>src/http/ngx_http_parse.c\<close>: one line of a header, the hash of its
  name and the lowercase copy of the name, of which only the last 32 bytes are kept
  (\<open>NGX_HTTP_LC_HEADER_LEN\<close>).  The locals \<open>hash\<close> and \<open>i\<close> live in the record beside the fields they are
  loaded from; they are not stored back when the header ends or is refused.

  The lemmas: the parser may be stopped and resumed anywhere; what an accepted line guarantees of its
  positions and bytes and of the index into the fixed array; and the fields it sets on a printed line.
\<close>

definition NGX_HTTP_LC_HEADER_LEN :: nat where "NGX_HTTP_LC_HEADER_LEN = 32"

datatype header_line_state =
    hl_start | hl_name | hl_space_before_value | hl_value | hl_space_after_value | hl_ignore_line
  | hl_almost_done | hl_header_almost_done

record header_line =
  state :: header_line_state
  header_hash :: u64
  lowcase_index :: nat
  lowcase_header :: bytes
  header_name_start :: "nat option"
  header_name_end :: "nat option"
  header_start :: "nat option"
  header_end :: "nat option"
  invalid_header :: bool
  upstream :: bool

text \<open>The table \<open>lowcase\<close>, line by line; the last byte is the one that ends the string.\<close>

definition lowcase_map :: bytes where
  "lowcase_map =
     replicate 32 0 @
     replicate 13 0 @ [c_minus, 0, 0] @ asc ''0123456789'' @ replicate 6 0 @
     [0] @ asc ''abcdefghijklmnopqrstuvwxyz'' @ replicate 5 0 @
     [0] @ asc ''abcdefghijklmnopqrstuvwxyz'' @ replicate 5 0 @
     replicate 32 0 @ replicate 32 0 @ replicate 32 0 @ replicate 31 0 @ [0]"

definition lowcase :: "u8 \<Rightarrow> u8" where
  "lowcase ch = lowcase_map ! unat ch"

definition ngx_hash :: "u64 \<Rightarrow> u8 \<Rightarrow> u64" where
  [ngx_eval]: "ngx_hash key c = key * 31 + ucast c"

text \<open>\<open>hash = ngx_hash(hash, c); r->lowcase_header[i++] = c; i &= NGX_HTTP_LC_HEADER_LEN - 1\<close>\<close>

definition add_name_char :: "u8 \<Rightarrow> header_line \<Rightarrow> header_line" where
  "add_name_char c r =
     r\<lparr>header_hash := ngx_hash (header_hash r) c,
       lowcase_header := (lowcase_header r)[lowcase_index r := c],
       lowcase_index := (lowcase_index r + 1) AND (NGX_HTTP_LC_HEADER_LEN - 1)\<rparr>"

text \<open>\<open>hash = ngx_hash(0, c); r->lowcase_header[0] = c; i = 1\<close>\<close>

definition first_name_char :: "u8 \<Rightarrow> header_line \<Rightarrow> header_line" where
  "first_name_char c r =
     r\<lparr>header_hash := ngx_hash 0 c, lowcase_header := (lowcase_header r)[0 := c], lowcase_index := 1\<rparr>"

type_synonym hl_verdict = "(header_line, exit_label) verdict"

definition hl_goto :: "header_line_state \<Rightarrow> header_line \<Rightarrow> hl_verdict" where
  [ngx_eval]: "hl_goto s r = Next (r\<lparr>state := s\<rparr>)"

definition invalid_header_line :: "header_line \<Rightarrow> hl_verdict" where
  [ngx_eval]: "invalid_header_line r = Exit (Fail NGX_HTTP_PARSE_INVALID_HEADER) r"

definition hl_step_start :: "bool \<Rightarrow> header_line \<Rightarrow> nat \<Rightarrow> u8 \<Rightarrow> hl_verdict" where
  "hl_step_start allow_underscores r p ch =
     (let r = r\<lparr>header_name_start := Some p, invalid_header := False\<rparr> in
      if ch = c_CR then hl_goto hl_header_almost_done (r\<lparr>header_end := Some p\<rparr>)
      else if ch = c_LF then Exit Header_done (r\<lparr>header_end := Some p\<rparr>)
      else let r = r\<lparr>state := hl_name\<rparr>; c = lowcase ch in
        if c \<noteq> 0 then Next (first_name_char c r)
        else if ch = c_uscore then
          (if allow_underscores then Next (first_name_char ch r) else Next (r\<lparr>invalid_header := True\<rparr>))
        else if ch = 0 then invalid_header_line r
        else Next (r\<lparr>invalid_header := True\<rparr>))"

definition hl_step_name :: "bytes \<Rightarrow> bool \<Rightarrow> header_line \<Rightarrow> nat \<Rightarrow> u8 \<Rightarrow> hl_verdict" where
  "hl_step_name mem allow_underscores r p ch =
     (let c = lowcase ch; ns = the (header_name_start r) in
      if c \<noteq> 0 then Next (add_name_char c r)
      else if ch = c_uscore then
        (if allow_underscores then Next (add_name_char ch r) else Next (r\<lparr>invalid_header := True\<rparr>))
      else if ch = c_colon then hl_goto hl_space_before_value (r\<lparr>header_name_end := Some p\<rparr>)
      else if ch = c_CR then
        hl_goto hl_almost_done (r\<lparr>header_name_end := Some p, header_start := Some p, header_end := Some p\<rparr>)
      else if ch = c_LF then
        Exit Done (r\<lparr>header_name_end := Some p, header_start := Some p, header_end := Some p\<rparr>)
      else if ch = c_slash \<and> upstream r \<and> p - ns = 4 \<and> str_at mem ns (asc ''HTTP'') then
        hl_goto hl_ignore_line r
      else if ch = 0 then invalid_header_line r
      else Next (r\<lparr>invalid_header := True\<rparr>))"

definition hl_step_value :: "header_line \<Rightarrow> nat \<Rightarrow> u8 \<Rightarrow> hl_verdict" where
  "hl_step_value r p ch =
     (case state r of
        hl_space_before_value \<Rightarrow>
          (if ch = c_SP then Next r
           else if ch = c_CR then hl_goto hl_almost_done (r\<lparr>header_start := Some p, header_end := Some p\<rparr>)
           else if ch = c_LF then Exit Done (r\<lparr>header_start := Some p, header_end := Some p\<rparr>)
           else if ch = 0 then invalid_header_line r
           else hl_goto hl_value (r\<lparr>header_start := Some p\<rparr>))
      | hl_value \<Rightarrow>
          (if ch = c_SP then hl_goto hl_space_after_value (r\<lparr>header_end := Some p\<rparr>)
           else if ch = c_CR then hl_goto hl_almost_done (r\<lparr>header_end := Some p\<rparr>)
           else if ch = c_LF then Exit Done (r\<lparr>header_end := Some p\<rparr>)
           else if ch = 0 then invalid_header_line r
           else Next r)
      | _ \<Rightarrow>
          (if ch = c_SP then Next r
           else if ch = c_CR then hl_goto hl_almost_done r
           else if ch = c_LF then Exit Done r
           else if ch = 0 then invalid_header_line r
           else hl_goto hl_value r))"

definition hl_step_end :: "header_line \<Rightarrow> nat \<Rightarrow> u8 \<Rightarrow> hl_verdict" where
  "hl_step_end r p ch =
     (case state r of
        hl_ignore_line \<Rightarrow> (if ch = c_LF then hl_goto hl_start r else Next r)
      | hl_almost_done \<Rightarrow>
          (if ch = c_LF then Exit Done r
           else if ch = c_CR then Next r
           else invalid_header_line r)
      | _ \<Rightarrow> (if ch = c_LF then Exit Header_done r else invalid_header_line r))"

definition header_line_step :: "bool \<Rightarrow> bytes \<Rightarrow> header_line \<Rightarrow> nat \<Rightarrow> u8 \<Rightarrow> hl_verdict" where
  "header_line_step allow_underscores mem r p ch =
     (case state r of
        hl_start \<Rightarrow> hl_step_start allow_underscores r p ch
      | hl_name \<Rightarrow> hl_step_name mem allow_underscores r p ch
      | hl_space_before_value \<Rightarrow> hl_step_value r p ch
      | hl_value \<Rightarrow> hl_step_value r p ch
      | hl_space_after_value \<Rightarrow> hl_step_value r p ch
      | _ \<Rightarrow> hl_step_end r p ch)"

definition ngx_http_parse_header_line ::
  "bool \<Rightarrow> bytes \<Rightarrow> header_line \<Rightarrow> nat \<Rightarrow> int \<times> header_line \<times> nat" where
  "ngx_http_parse_header_line allow_underscores mem r pos =
     (case run (header_line_step allow_underscores) mem r pos of
        (Next r', p) \<Rightarrow> (NGX_AGAIN, r', p)
      | (Exit Done r', p) \<Rightarrow> (NGX_OK, r'\<lparr>state := hl_start\<rparr>, p + 1)
      | (Exit Header_done r', p) \<Rightarrow>
          (NGX_HTTP_PARSE_HEADER_DONE,
           r'\<lparr>state := hl_start, header_hash := header_hash r, lowcase_index := lowcase_index r\<rparr>, p + 1)
      | (Exit (Fail rc) r', p) \<Rightarrow>
          (rc, r'\<lparr>state := state r, header_hash := header_hash r, lowcase_index := lowcase_index r\<rparr>, pos))"

lemmas header_line_steps = hl_step_start_def hl_step_name_def hl_step_value_def hl_step_end_def
  header_line_step_def

text \<open>The request before its first header line; \<open>upstream\<close> tells whether it has an upstream.\<close>

definition fresh_header :: "bool \<Rightarrow> header_line" where
  "fresh_header u =
    \<lparr> state = hl_start, header_hash = 0, lowcase_index = 0, lowcase_header = replicate NGX_HTTP_LC_HEADER_LEN 0,
      header_name_start = None, header_name_end = None, header_start = None, header_end = None,
      invalid_header = False, upstream = u \<rparr>"

text \<open>The table as a function.\<close>

definition lowcase_char :: "u8 \<Rightarrow> u8" where
  "lowcase_char ch =
     (if ch = c_minus \<or> is_digit ch \<or> (0x61 \<le> ch \<and> ch \<le> 0x7A) then ch
      else if 0x41 \<le> ch \<and> ch \<le> 0x5A then ch + 0x20 else 0)"

lemma replicate_Suc_numeral: "replicate (numeral k) x = x # replicate (pred_numeral k) x"
  by (simp add: numeral_eq_Suc)

lemma lowcase_map_eq: "lowcase_map = map lowcase_char u8_all"
proof -
  have "map lowcase_char (take 128 u8_all) = take 128 lowcase_map"
    by (simp add: u8_all_def lowcase_char_def is_digit_def word_le_nat_alt lowcase_map_def replicate_Suc_numeral take_Cons_numeral)
  moreover have "map lowcase_char (drop 128 u8_all) = drop 128 lowcase_map"
    by (simp add: u8_all_def lowcase_char_def is_digit_def word_le_nat_alt lowcase_map_def replicate_Suc_numeral drop_Cons_numeral)
  ultimately show ?thesis
    by (metis append_take_drop_id map_append)
qed

lemma lowcase_eq: "lowcase ch = lowcase_char ch"
  using u8_less [of ch] by (simp add: lowcase_def lowcase_map_eq u8_all_upt)

lemma lowcase_zero: "lowcase 0 = 0" "lowcase c_CR = 0" "lowcase c_LF = 0" "lowcase c_colon = 0" "lowcase c_slash = 0"
  "lowcase c_uscore = 0" "lowcase c_SP = 0"
  by (simp_all add: lowcase_eq lowcase_char_def is_digit_def)

subsection \<open>The invariant\<close>

text \<open>Every byte from \<open>a\<close> to \<open>b\<close> satisfies \<open>P\<close>.\<close>

definition all_bytes :: "(u8 \<Rightarrow> bool) \<Rightarrow> bytes \<Rightarrow> nat \<Rightarrow> nat \<Rightarrow> bool" where
  "all_bytes P mem a b \<longleftrightarrow> (\<forall>k. a \<le> k \<and> k < b \<longrightarrow> P (mem ! k))"

lemma all_bytes_Suc: "a \<le> b \<Longrightarrow> all_bytes P mem a (Suc b) \<longleftrightarrow> all_bytes P mem a b \<and> P (mem ! b)"
  by (auto simp: all_bytes_def less_Suc_eq)

lemma all_bytes_empty [simp]: "b \<le> a \<Longrightarrow> all_bytes P mem a b"
  by (auto simp: all_bytes_def)

lemma all_bytes_more: "b \<le> length mem \<Longrightarrow> all_bytes P (mem @ ys) a b = all_bytes P mem a b"
  by (auto simp: all_bytes_def nth_append)

text \<open>The bytes between the value and the end of the line.\<close>

definition line_end :: "u8 \<Rightarrow> bool" where
  "line_end c \<longleftrightarrow> c = c_SP \<or> c = c_CR \<or> c = c_LF"

definition name_open :: "bytes \<Rightarrow> nat \<Rightarrow> header_line \<Rightarrow> bool" where
  "name_open mem p r \<longleftrightarrow>
     (case header_name_start r of
        Some ns \<Rightarrow> ns < p \<and> clean mem ns p \<and> all_bytes (\<lambda>c. c \<noteq> c_colon) mem (Suc ns) p | None \<Rightarrow> False)"

definition name_closed :: "bytes \<Rightarrow> nat \<Rightarrow> header_line \<Rightarrow> bool" where
  "name_closed mem p r \<longleftrightarrow>
     (case (header_name_start r, header_name_end r) of
        (Some ns, Some ne) \<Rightarrow>
          ns < ne \<and> ne < p \<and> clean mem ns ne \<and> all_bytes (\<lambda>c. c \<noteq> c_colon) mem (Suc ns) ne \<and>
          mem ! ne \<in> {c_colon, c_CR, c_LF}
      | _ \<Rightarrow> False)"

definition gap_open :: "bytes \<Rightarrow> nat \<Rightarrow> header_line \<Rightarrow> bool" where
  "gap_open mem p r \<longleftrightarrow>
     (case header_name_end r of Some ne \<Rightarrow> mem ! ne = c_colon \<and> all_bytes (\<lambda>c. c = c_SP) mem (Suc ne) p | None \<Rightarrow> False)"

definition value_open :: "bytes \<Rightarrow> nat \<Rightarrow> header_line \<Rightarrow> bool" where
  "value_open mem p r \<longleftrightarrow>
     (case (header_name_end r, header_start r) of
        (Some ne, Some hs) \<Rightarrow>
          mem ! ne = c_colon \<and> ne < hs \<and> hs < p \<and> clean mem hs p \<and> all_bytes (\<lambda>c. c = c_SP) mem (Suc ne) hs \<and> mem ! hs \<noteq> c_SP
      | _ \<Rightarrow> False)"

definition value_closed :: "bytes \<Rightarrow> nat \<Rightarrow> header_line \<Rightarrow> bool" where
  "value_closed mem p r \<longleftrightarrow>
     (case (header_name_end r, header_start r, header_end r) of
        (Some ne, Some hs, Some he) \<Rightarrow>
          ne \<le> hs \<and> hs \<le> he \<and> he < p \<and> clean mem hs he \<and> all_bytes (\<lambda>c. c = c_SP) mem (Suc ne) hs \<and>
          (if mem ! ne = c_colon then ne < hs else ne = hs \<and> hs = he) \<and> (hs < he \<longrightarrow> mem ! hs \<noteq> c_SP \<and> mem ! (he - 1) \<noteq> c_SP) \<and> all_bytes line_end mem he p
      | _ \<Rightarrow> False)"

lemmas hl_inv_defs = name_open_def name_closed_def gap_open_def value_open_def value_closed_def

definition hl_inv :: "bytes \<Rightarrow> nat \<Rightarrow> header_line \<Rightarrow> bool" where
  "hl_inv mem p r \<longleftrightarrow>
     lowcase_index r < NGX_HTTP_LC_HEADER_LEN \<and> length (lowcase_header r) = NGX_HTTP_LC_HEADER_LEN \<and>
     (case state r of
        hl_name \<Rightarrow> name_open mem p r
      | hl_space_before_value \<Rightarrow> name_closed mem p r \<and> gap_open mem p r
      | hl_value \<Rightarrow> name_closed mem p r \<and> value_open mem p r \<and> mem ! (p - 1) \<noteq> c_SP
      | hl_space_after_value \<Rightarrow> name_closed mem p r \<and> value_open mem p r \<and> value_closed mem p r
      | hl_almost_done \<Rightarrow> name_closed mem p r \<and> value_closed mem p r
      | _ \<Rightarrow> True)"

lemma fresh_header_inv: "hl_inv mem p (fresh_header u)"
  by (simp add: hl_inv_def fresh_header_def NGX_HTTP_LC_HEADER_LEN_def)

text \<open>Masking with the length minus one keeps the index inside the array.\<close>

lemma lc_index_wraps: "(i + 1) AND (NGX_HTTP_LC_HEADER_LEN - 1) = (i + 1) mod NGX_HTTP_LC_HEADER_LEN"
  using take_bit_eq_mask [of 5 "i + 1"] by (simp add: NGX_HTTP_LC_HEADER_LEN_def take_bit_eq_mod mask_eq_exp_minus_1)

lemma add_name_char_state [simp]:
  "state (add_name_char c r) = state r" "header_name_start (add_name_char c r) = header_name_start r"
  "state (first_name_char c r) = state r" "header_name_start (first_name_char c r) = header_name_start r"
  "length (lowcase_header (add_name_char c r)) = length (lowcase_header r)"
  "length (lowcase_header (first_name_char c r)) = length (lowcase_header r)"
  "lowcase_index (add_name_char c r) < NGX_HTTP_LC_HEADER_LEN"
  "lowcase_index (first_name_char c r) < NGX_HTTP_LC_HEADER_LEN"
  unfolding add_name_char_def lc_index_wraps
  by (simp_all add: first_name_char_def NGX_HTTP_LC_HEADER_LEN_def)

lemma lowcase_nonzero: "lowcase c \<noteq> 0 \<Longrightarrow> c \<noteq> 0 \<and> c \<noteq> c_CR \<and> c \<noteq> c_LF \<and> c \<noteq> c_colon"
  using lowcase_zero by metis

lemma hl_step_start_inv:
  assumes "hl_inv mem p r" "hl_step_start a r p (mem ! p) = Next r'"
  shows "hl_inv mem (Suc p) r'"
  using assms lowcase_nonzero [of "mem ! p"]
  by (auto simp: hl_step_start_def hl_inv_def hl_goto_def invalid_header_line_def name_open_def clean_Suc all_bytes_Suc Let_def
      split: if_splits)

lemma hl_step_name_inv:
  assumes "hl_inv mem p r" "state r = hl_name" "hl_step_name mem a r p (mem ! p) = Next r'"
  shows "hl_inv mem (Suc p) r'"
proof -
  have "name_open mem p r" using assms(1,2) by (simp add: hl_inv_def)
  then obtain ns where "header_name_start r = Some ns" "ns < p" "clean mem ns p" "all_bytes (\<lambda>c. c \<noteq> c_colon) mem (Suc ns) p"
    by (auto simp: name_open_def split: option.splits)
  then show ?thesis
    using assms lowcase_nonzero [of "mem ! p"]
    by (auto simp: hl_step_name_def hl_inv_def hl_goto_def invalid_header_line_def hl_inv_defs line_end_def
        clean_Suc all_bytes_Suc Let_def split: if_splits)
qed

lemma hl_step_value_inv:
  assumes "hl_inv mem p r" "state r \<in> {hl_space_before_value, hl_value, hl_space_after_value}"
    "hl_step_value r p (mem ! p) = Next r'"
  shows "hl_inv mem (Suc p) r'"
  using assms
  by (auto simp: hl_step_value_def hl_inv_def hl_goto_def invalid_header_line_def hl_inv_defs clean_Suc all_bytes_Suc
      line_end_def split: if_splits option.splits)

lemma hl_step_end_inv:
  assumes "hl_inv mem p r" "state r \<in> {hl_ignore_line, hl_almost_done, hl_header_almost_done}"
    "hl_step_end r p (mem ! p) = Next r'"
  shows "hl_inv mem (Suc p) r'"
  using assms
  by (auto simp: hl_step_end_def hl_inv_def hl_goto_def invalid_header_line_def hl_inv_defs all_bytes_Suc line_end_def
      split: if_splits option.splits)

lemma header_line_step_inv:
  assumes "hl_inv mem p r" "header_line_step a mem r p (mem ! p) = Next r'"
  shows "hl_inv mem (Suc p) r'"
  using assms hl_step_start_inv [OF assms(1)] hl_step_name_inv [OF assms(1)] hl_step_value_inv [OF assms(1)]
    hl_step_end_inv [OF assms(1)]
  by (cases "state r") (simp_all add: header_line_step_def)

subsection \<open>Resuming\<close>

lemma hl_inv_more: "hl_inv mem p r \<Longrightarrow> p \<le> length mem \<Longrightarrow> hl_inv (mem @ ys) p r"
  by (cases "state r") (auto simp: hl_inv_def hl_inv_defs clean_more all_bytes_more nth_append split: option.splits)

lemma header_line_local:
  assumes "hl_inv mem p r" "p < length mem"
  shows "header_line_step a (mem @ ys) r p (mem ! p) = header_line_step a mem r p (mem ! p)"
proof (cases "state r")
  case hl_name
  then obtain ns where ns: "header_name_start r = Some ns" "ns < p"
    using assms(1) by (auto simp: hl_inv_def name_open_def split: option.splits)
  then have "p - ns = 4 \<Longrightarrow> str_at (mem @ ys) ns (asc ''HTTP'') = str_at mem ns (asc ''HTTP'')"
    using assms(2) by (intro str_at_more) simp
  then have s: "(p - ns = 4 \<and> str_at (mem @ ys) ns (asc ''HTTP'')) = (p - ns = 4 \<and> str_at mem ns (asc ''HTTP''))"
    by blast
  show ?thesis
    unfolding header_line_step_def hl_step_name_def hl_name ns(1) option.sel Let_def header_line_state.case s ..
qed (simp_all add: header_line_step_def)

interpretation header_line: resumable "header_line_step a" hl_inv
  by unfold_locales (auto intro: header_line_step_inv header_line_local hl_inv_more)

lemma header_line_exit_label:
  "header_line_step a mem r p c = Exit x r' \<Longrightarrow>
     x = Done \<or> x = Header_done \<or> x = Fail NGX_HTTP_PARSE_INVALID_HEADER"
  by (auto simp: header_line_step_def header_line_steps hl_goto_def invalid_header_line_def Let_def
      split: if_splits header_line_state.splits)

lemma header_run_exit_label:
  "run (header_line_step a) mem r p = (Exit x r', q) \<Longrightarrow>
     x = Done \<or> x = Header_done \<or> x = Fail NGX_HTTP_PARSE_INVALID_HEADER"
  using run_Exit_step header_line_exit_label by metis

lemma parse_header_line_again:
  assumes "hl_inv mem pos r" "pos \<le> length mem" "ngx_http_parse_header_line a mem r pos = (NGX_AGAIN, r', pos')"
  shows "run (header_line_step a) mem r pos = (Next r', pos') \<and> hl_inv mem pos' r' \<and> pos' = length mem"
proof -
  obtain v q where v: "run (header_line_step a) mem r pos = (v, q)" by (cases "run (header_line_step a) mem r pos")
  show ?thesis
  proof (cases v)
    case (Next s)
    then show ?thesis
      using v assms header_line.run_Next [of a mem r pos s q] by (auto simp: ngx_http_parse_header_line_def)
  next
    case (Exit x s)
    then show ?thesis
      using v header_run_exit_label [of a mem r pos x s q] assms(3)
      by (auto simp: ngx_http_parse_header_line_def ngx_http_codes)
  qed
qed

lemma header_line_outcome:
  assumes "run (header_line_step a) mem r pos = run (header_line_step a) mem r' pos'"
  shows "outcome (ngx_http_parse_header_line a mem r pos) = outcome (ngx_http_parse_header_line a mem r' pos')"
proof (cases "run (header_line_step a) mem r' pos'")
  case (Pair v q)
  then show ?thesis
    using assms header_run_exit_label [of a mem r' pos']
    by (cases v) (auto simp: ngx_http_parse_header_line_def outcome_def ngx_http_codes split: exit_label.splits)
qed

interpretation header_line_call: resumable_call "ngx_http_parse_header_line a" hl_inv
proof unfold_locales
  fix mem pos r r' pos' ys
  assume i: "hl_inv mem pos r" "pos \<le> length mem" "ngx_http_parse_header_line a mem r pos = (NGX_AGAIN, r', pos')"
  from parse_header_line_again [OF this]
  have n: "run (header_line_step a) mem r pos = (Next r', pos')" "hl_inv mem pos' r'" "pos' = length mem" by auto
  have "run (header_line_step a) (mem @ ys) r pos = run (header_line_step a) (mem @ ys) r' pos'"
    using header_line.run_more [OF i(1,2), of a ys] n(1) by simp
  then show "hl_inv (mem @ ys) pos' r' \<and> pos' \<le> length mem \<and>
    outcome (ngx_http_parse_header_line a (mem @ ys) r pos) = outcome (ngx_http_parse_header_line a (mem @ ys) r' pos')"
    using n hl_inv_more [of mem pos' r' ys] header_line_outcome [of a "mem @ ys" r pos r' pos'] by simp
next
  fix mem pos r rc r' pos' ys
  assume i: "hl_inv mem pos r" "pos \<le> length mem" "ngx_http_parse_header_line a mem r pos = (rc, r', pos')"
    "rc \<noteq> NGX_AGAIN"
  then show "ngx_http_parse_header_line a (mem @ ys) r pos = (rc, r', pos')"
    using header_line.run_more [OF i(1,2), of a ys]
    by (auto simp: ngx_http_parse_header_line_def split: prod.splits verdict.splits exit_label.splits)
qed

text \<open>
  C28: a header line may arrive in any pieces: calling the parser again with each new piece gives the
  same answer, the same request and the same \<open>b->pos\<close> as one call on the whole.
\<close>

theorem header_line_in_pieces:
  "outcome (feed (ngx_http_parse_header_line allow_underscores) [] (fresh_header u) 0 pieces)
   = outcome (ngx_http_parse_header_line allow_underscores (concat pieces) (fresh_header u) 0)"
  using header_line_call.pieces [of "[]" 0 "fresh_header u" allow_underscores pieces] fresh_header_inv by simp

subsection \<open>Accepted lines\<close>

lemma header_line_exit_inv:
  assumes "hl_inv mem p r" "header_line_step a mem r p (mem ! p) = Exit Done r'"
  shows "hl_inv mem (Suc p) (r'\<lparr>state := hl_almost_done\<rparr>) \<and> mem ! p = c_LF"
  using assms
  by (cases "state r")
     (auto simp: header_line_step_def header_line_steps hl_goto_def invalid_header_line_def hl_inv_def hl_inv_defs
        all_bytes_Suc line_end_def Let_def lowcase_zero split: if_splits option.splits)

text \<open>
  C27: an accepted header line consists of a name that is not empty and has no colon behind its first byte, a colon and
  spaces (or neither), a value that neither begins nor ends with a space, and spaces, \<open>CR\<close>s and the final \<open>LF\<close>, all
  inside the buffer; neither name nor value holds a \<open>NUL\<close>, \<open>CR\<close> or \<open>LF\<close>; and the index into the array of 32 lowercase
  bytes is inside it.
\<close>

theorem header_line_accepted:
  assumes "hl_inv mem pos r" "pos \<le> length mem"
    and "ngx_http_parse_header_line allow_underscores mem r pos = (NGX_OK, r', pos')"
  shows "\<exists>ns ne hs he. header_name_start r' = Some ns \<and> header_name_end r' = Some ne \<and>
      header_start r' = Some hs \<and> header_end r' = Some he \<and>
      ns < ne \<and> ne \<le> hs \<and> hs \<le> he \<and> he < pos' \<and> pos' \<le> length mem \<and> mem ! (pos' - 1) = c_LF \<and>
      (\<forall>k. ns \<le> k \<and> k < ne \<or> hs \<le> k \<and> k < he \<longrightarrow> mem ! k \<notin> {0, c_CR, c_LF}) \<and>
      (\<forall>k. ns < k \<and> k < ne \<longrightarrow> mem ! k \<noteq> c_colon) \<and>
      (mem ! ne = c_colon \<and> ne < hs \<and> (\<forall>k. ne < k \<and> k < hs \<longrightarrow> mem ! k = c_SP) \<or> mem ! ne \<in> {c_CR, c_LF} \<and> ne = hs \<and> hs = he) \<and>
      (hs < he \<longrightarrow> mem ! hs \<noteq> c_SP \<and> mem ! (he - 1) \<noteq> c_SP) \<and>
      (\<forall>k. he \<le> k \<and> k < pos' \<longrightarrow> mem ! k \<in> {c_SP, c_CR, c_LF}) \<and>
      lowcase_index r' < 32 \<and> length (lowcase_header r') = 32"
proof -
  obtain s p where x: "run (header_line_step allow_underscores) mem r pos = (Exit Done s, p)"
    "r' = s\<lparr>state := hl_start\<rparr>" "pos' = p + 1"
    using assms(3) header_run_exit_label [of allow_underscores mem r pos]
    by (fastforce simp: ngx_http_parse_header_line_def ngx_http_codes split: prod.splits verdict.splits exit_label.splits)
  obtain r0 where r0: "hl_inv mem p r0" "p < length mem" "header_line_step allow_underscores mem r0 p (mem ! p) = Exit Done s"
    using header_line.run_Exit [OF x(1) assms(1,2)] by auto
  let ?s = "s\<lparr>state := hl_almost_done\<rparr>"
  have inv: "name_closed mem pos' ?s" "value_closed mem pos' ?s" "lowcase_index s < 32" "length (lowcase_header s) = 32"
    and lf: "mem ! (pos' - 1) = c_LF" "pos' \<le> length mem"
    using header_line_exit_inv [OF r0(1,3)] r0(2) x(3) by (simp_all add: hl_inv_def NGX_HTTP_LC_HEADER_LEN_def)
  obtain ns ne where n: "header_name_start s = Some ns" "header_name_end s = Some ne" "ns < ne" "clean mem ns ne"
      "all_bytes (\<lambda>c. c \<noteq> c_colon) mem (Suc ns) ne" "mem ! ne \<in> {c_colon, c_CR, c_LF}"
    using inv(1) by (auto simp: name_closed_def split: option.splits)
  obtain hs he where v: "header_start s = Some hs" "header_end s = Some he" "ne \<le> hs" "hs \<le> he" "he < pos'" "clean mem hs he"
      "all_bytes (\<lambda>c. c = c_SP) mem (Suc ne) hs" "if mem ! ne = c_colon then ne < hs else ne = hs \<and> hs = he"
      "hs < he \<longrightarrow> mem ! hs \<noteq> c_SP \<and> mem ! (he - 1) \<noteq> c_SP" "all_bytes line_end mem he pos'"
    using inv(2) n(2) by (auto simp: value_closed_def split: option.splits)
  have "mem ! ne = c_colon \<and> ne < hs \<and> (\<forall>k. ne < k \<and> k < hs \<longrightarrow> mem ! k = c_SP) \<or> mem ! ne \<in> {c_CR, c_LF} \<and> ne = hs \<and> hs = he"
    using n(6) v(7,8) by (cases "mem ! ne = c_colon") (auto simp: all_bytes_def Suc_le_eq)
  moreover have "\<forall>k. ns \<le> k \<and> k < ne \<or> hs \<le> k \<and> k < he \<longrightarrow> mem ! k \<notin> {0, c_CR, c_LF}"
    using n(4) v(6) by (auto simp: clean_def)
  moreover have "\<forall>k. ns < k \<and> k < ne \<longrightarrow> mem ! k \<noteq> c_colon" using n(5) by (simp add: all_bytes_def Suc_le_eq)
  moreover have "\<forall>k. he \<le> k \<and> k < pos' \<longrightarrow> mem ! k \<in> {c_SP, c_CR, c_LF}" using v(10) by (simp add: all_bytes_def line_end_def)
  ultimately show ?thesis using inv(3,4) lf n(1-3) v(1-5,9) x(2) by simp
qed

theorem header_line_accepted_witness:
  "\<exists>r'. ngx_http_parse_header_line False (asc ''Host: a'' @ [c_LF]) (fresh_header False) 0 = (NGX_OK, r', 8) \<and>
     lowcase_index r' < 32"
proof -
  obtain r' where r': "ngx_http_parse_header_line False (asc ''Host: a'' @ [c_LF]) (fresh_header False) 0 = (NGX_OK, r', 8)"
    by (simp add: ngx_http_parse_header_line_def run_def header_line_steps lowcase_eq lowcase_char_def is_digit_def
        fresh_header_def add_name_char_def first_name_char_def hl_goto_def Let_def)
  from header_line_accepted [OF fresh_header_inv _ this] r' show ?thesis by auto
qed

subsection \<open>Printed lines\<close>

definition name_fold :: "header_line \<Rightarrow> bytes \<Rightarrow> header_line" where
  "name_fold r cs = foldl (\<lambda>r c. add_name_char (lowcase c) r) r cs"

lemma name_run:
  "list_all (\<lambda>c. lowcase c \<noteq> 0) cs \<Longrightarrow> state r = hl_name \<Longrightarrow>
     parse_loop (header_line_step a mem) r p cs = (Next (name_fold r cs), p + length cs)"
  by (induction cs arbitrary: r p) (simp_all add: name_fold_def header_line_step_def hl_step_name_def Let_def)

lemma name_fold_fields:
  "header_hash (name_fold r cs) = foldl ngx_hash (header_hash r) (map lowcase cs)"
  "header_name_start (name_fold r cs) = header_name_start r"
  "invalid_header (name_fold r cs) = invalid_header r"
  "state (name_fold r cs) = state r"
  by (induction cs arbitrary: r) (simp_all add: name_fold_def add_name_char_def)

lemma name_fold_lowcase:
  "lowcase_index r + length cs \<le> 32 \<Longrightarrow> length (lowcase_header r) = 32 \<Longrightarrow> cs \<noteq> [] \<Longrightarrow>
     take (lowcase_index r + length cs) (lowcase_header (name_fold r cs)) =
     take (lowcase_index r) (lowcase_header r) @ map lowcase cs"
proof (induction cs arbitrary: r)
  case (Cons c cs)
  let ?r = "add_name_char (lowcase c) r"
  have i: "lowcase_index r < 32" using Cons.prems(1) by simp
  have l: "lowcase_header ?r = (lowcase_header r)[lowcase_index r := lowcase c]" "length (lowcase_header ?r) = 32"
    using Cons.prems(2) by (simp_all add: add_name_char_def)
  have t: "take (Suc (lowcase_index r)) (lowcase_header ?r) = take (lowcase_index r) (lowcase_header r) @ [lowcase c]"
    using i Cons.prems(2) by (simp add: l(1) take_Suc_conv_app_nth)
  show ?case
  proof (cases cs)
    case Nil
    then show ?thesis using t by (simp add: name_fold_def)
  next
    case (Cons d ds)
    then have "lowcase_index ?r = Suc (lowcase_index r)"
      using Cons.prems(1) lc_index_wraps [of "lowcase_index r"]
      by (simp add: add_name_char_def NGX_HTTP_LC_HEADER_LEN_def)
    then show ?thesis
      using Cons.IH [of ?r] Cons.prems(1) l(2) t Cons by (simp add: name_fold_def)
  qed
qed simp

lemma value_run:
  "list_all (\<lambda>c. c \<notin> {0, c_CR, c_LF}) cs \<Longrightarrow> state r \<in> {hl_value, hl_space_after_value} \<Longrightarrow>
     \<exists>e s. parse_loop (header_line_step a mem) r p cs = (Next (r\<lparr>header_end := e, state := s\<rparr>), p + length cs) \<and>
       s \<in> {hl_value, hl_space_after_value} \<and> (if cs = [] then s = state r else last cs \<noteq> c_SP \<longrightarrow> s = hl_value)"
proof (induction cs arbitrary: r p)
  case Nil
  then show ?case by (intro exI [of _ "header_end r"] exI [of _ "state r"]) simp
next
  case (Cons c cs)
  define r1 where "r1 = r\<lparr>header_end := (if c = c_SP \<and> state r = hl_value then Some p else header_end r),
     state := (if c = c_SP then hl_space_after_value else hl_value)\<rparr>"
  have r1: "header_line_step a mem r p c = Next r1"
    using Cons.prems by (auto simp: header_line_step_def hl_step_value_def hl_goto_def r1_def)
  have l: "list_all (\<lambda>c. c \<notin> {0, c_CR, c_LF}) cs" using Cons.prems(1) by simp
  have s: "state r1 \<in> {hl_value, hl_space_after_value}" by (simp add: r1_def)
  obtain e s where e: "parse_loop (header_line_step a mem) r1 (Suc p) cs = (Next (r1\<lparr>header_end := e, state := s\<rparr>), Suc p + length cs)"
    "s \<in> {hl_value, hl_space_after_value}" "if cs = [] then s = state r1 else last cs \<noteq> c_SP \<longrightarrow> s = hl_value"
    using Cons.IH [OF l s, of "Suc p"] by blast
  have "parse_loop (header_line_step a mem) r p (c # cs) = (Next (r\<lparr>header_end := e, state := s\<rparr>), p + length (c # cs))"
    using r1 e(1) by (simp add: r1_def)
  moreover have "last (c # cs) \<noteq> c_SP \<longrightarrow> s = hl_value"
    using e(3) by (auto simp: r1_def)
  ultimately show ?case using e(2) by (metis list.distinct(1))
qed

lemma spaces_run:
  "state r \<in> {hl_space_before_value, hl_space_after_value} \<Longrightarrow>
     parse_loop (header_line_step a mem) r p (replicate n c_SP) = (Next r, p + n)"
  by (induction n arbitrary: p) (auto simp: header_line_step_def hl_step_value_def)

lemma value_end_run:
  "state r = hl_value \<Longrightarrow>
     parse_loop (header_line_step a mem) r p (replicate n c_SP @ c_CR # c_LF # rest) =
     (Exit Done (r\<lparr>header_end := Some p, state := hl_almost_done\<rparr>), p + n + 1)"
proof (cases n)
  case 0
  assume "state r = hl_value"
  with 0 show ?thesis by (simp add: header_line_step_def hl_step_value_def hl_step_end_def hl_goto_def)
next
  case (Suc m)
  assume "state r = hl_value"
  with Suc show ?thesis
    using spaces_run [of "r\<lparr>header_end := Some p, state := hl_space_after_value\<rparr>" a mem "Suc p" m]
    by (simp add: parse_loop_append header_line_step_def hl_step_value_def hl_step_end_def hl_goto_def)
qed

text \<open>
  C26: a printed header line "Name: value", with any number of spaces around the value, is accepted
  with exactly the name and the value, the hash of the lowercase name, and the lowercase name in the
  array when it fits.
\<close>

theorem header_line_printed:
  assumes "name \<noteq> []" "list_all (\<lambda>c. lowcase c \<noteq> 0) name"
    "val \<noteq> []" "list_all (\<lambda>c. c \<notin> {0, c_CR, c_LF}) val" "hd val \<noteq> c_SP" "last val \<noteq> c_SP"
    "line = name @ c_colon # replicate n c_SP @ val @ replicate k c_SP @ [c_CR, c_LF]"
  shows "\<exists>r. ngx_http_parse_header_line a (line @ rest) (fresh_header u) 0 = (NGX_OK, r, length line) \<and>
     header_name_start r = Some 0 \<and> header_name_end r = Some (length name) \<and>
     header_start r = Some (length name + 1 + n) \<and> header_end r = Some (length name + 1 + n + length val) \<and>
     header_hash r = foldl ngx_hash 0 (map lowcase name) \<and> \<not> invalid_header r \<and>
     (if length name \<le> 32 then take (length name) (lowcase_header r) = map lowcase name else True)"
proof -
  let ?mem = "line @ rest" and ?step = "header_line_step a (line @ rest)"
  obtain c cs where name: "name = c # cs" using assms(1) by (cases name) auto
  obtain v vs where val: "val = v # vs" using assms(3) by (cases val) auto
  let ?r0 = "first_name_char (lowcase c) (fresh_header u\<lparr>header_name_start := Some 0, invalid_header := False, state := hl_name\<rparr>)"
  have c: "c \<noteq> c_CR" "c \<noteq> c_LF" using assms(2) name lowcase_nonzero [of c] by auto
  have r0: "parse_loop ?step (fresh_header u) 0 name = (Next (name_fold ?r0 cs), length name)"
    using name_run [of cs ?r0 a ?mem 1] assms(2) c
    by (simp add: name header_line_step_def hl_step_start_def fresh_header_def Let_def)
  define r1 where "r1 = (name_fold ?r0 cs)\<lparr>header_name_end := Some (length name), state := hl_space_before_value\<rparr>"
  define r2 where "r2 = r1\<lparr>header_start := Some (length name + 1 + n), state := hl_value\<rparr>"
  have v: "v \<notin> {0, c_CR, c_LF, c_SP}" using assms(4,5) val by auto
  obtain e where e: "parse_loop ?step r2 (length name + 2 + n) vs = (Next (r2\<lparr>header_end := e, state := hl_value\<rparr>), length name + 2 + n + length vs)"
  proof (cases "vs = []")
    case True
    then show ?thesis using that [of "header_end r2"] by (simp add: r2_def)
  next
    case False
    then show ?thesis
      using value_run [of vs r2 a ?mem "length name + 2 + n"] assms(4,6) val that by (auto simp: r2_def)
  qed
  have "parse_loop ?step (fresh_header u) 0 ?mem =
      parse_loop ?step r1 (Suc (length name)) (replicate n c_SP @ val @ replicate k c_SP @ c_CR # c_LF # rest)"
    using r0 name_fold_fields(4) [of ?r0 cs]
    by (simp add: assms(7) parse_loop_append_Next header_line_step_def hl_step_name_def lowcase_zero Let_def hl_goto_def r1_def)
  also have "\<dots> = parse_loop ?step r2 (length name + 2 + n) (vs @ replicate k c_SP @ c_CR # c_LF # rest)"
    using spaces_run [of r1 a ?mem "Suc (length name)" n] v
    by (simp add: parse_loop_append_Next val header_line_step_def hl_step_value_def hl_goto_def r1_def r2_def)
  also have "\<dots> = (Exit Done (r2\<lparr>header_end := Some (length name + 2 + n + length vs), state := hl_almost_done\<rparr>),
      length name + 2 + n + length vs + k + 1)"
    using parse_loop_append_Next [OF e] by (simp add: value_end_run)
  finally have x: "run (header_line_step a) ?mem (fresh_header u) 0 = \<dots>" by (simp add: run_def)
  have "length name \<le> 32 \<longrightarrow> take (length name) (lowcase_header (name_fold ?r0 cs)) = map lowcase name"
  proof (cases "cs = []")
    case True
    then show ?thesis by (simp add: name name_fold_def first_name_char_def fresh_header_def NGX_HTTP_LC_HEADER_LEN_def take_Suc
        replicate_Suc_numeral)
  next
    case False
    then show ?thesis
      using name_fold_lowcase [of ?r0 cs]
      by (simp add: name first_name_char_def fresh_header_def NGX_HTTP_LC_HEADER_LEN_def take_Suc
          replicate_Suc_numeral)
  qed
  then show ?thesis
    using x by (simp add: ngx_http_parse_header_line_def assms(7) val r1_def r2_def name_fold_fields)
      (simp add: name first_name_char_def fresh_header_def)
qed

theorem header_line_printed_witness:
  "\<exists>r pos. ngx_http_parse_header_line False ((asc ''Age'' @ c_colon # replicate 2 c_SP @ asc ''1 2'' @ replicate 0 c_SP @ [c_CR, c_LF]) @ [])
       (fresh_header False) 0 = (NGX_OK, r, pos) \<and> header_start r = Some 6 \<and> header_end r = Some 9 \<and>
     header_hash r = foldl ngx_hash 0 (asc ''age'')"
proof -
  have l: "map lowcase (asc ''Age'') = asc ''age''" "list_all (\<lambda>c. lowcase c \<noteq> 0) (asc ''Age'')"
    by (simp_all add: lowcase_eq lowcase_char_def is_digit_def)
  have v: "list_all (\<lambda>c. c \<notin> {0, c_CR, c_LF}) (asc ''1 2'')" "hd (asc ''1 2'') \<noteq> c_SP" "last (asc ''1 2'') \<noteq> c_SP"
    by simp_all
  from header_line_printed [of "asc ''Age''" "asc ''1 2''" _ 2 0 False "[]" False, OF _ l(2) _ v refl]
  obtain r where r: "ngx_http_parse_header_line False ((asc ''Age'' @ c_colon # replicate 2 c_SP @ asc ''1 2'' @ replicate 0 c_SP @ [c_CR, c_LF]) @ [])
       (fresh_header False) 0 = (NGX_OK, r, length (asc ''Age'' @ c_colon # replicate 2 c_SP @ asc ''1 2'' @ replicate 0 c_SP @ [c_CR, c_LF]))"
    "header_start r = Some (length (asc ''Age'') + 1 + 2)" "header_end r = Some (length (asc ''Age'') + 1 + 2 + length (asc ''1 2''))"
    "header_hash r = foldl ngx_hash 0 (map lowcase (asc ''Age''))"
    by auto
  have n: "length (asc ''Age'') + 1 + 2 = 6" "6 + length (asc ''1 2'') = 9" by simp_all
  show ?thesis
    by (rule exI [of _ r], rule exI, intro conjI, rule r(1)) (use r(2-4) in \<open>simp_all only: n l(1)\<close>)
qed

end
