(* ===== verification/Ngx_Buf.thy ===== *)
theory Ngx_Buf
  imports Ngx_Printf
begin

text \<open>
  The buffers and chains of \<open>src/core/ngx_buf.h\<close>, as the output filters see them: a buffer holds bytes in
  memory, a part of a file, both, or nothing but flags.  The pools that chain links and buffers are taken from
  and given back to are left out: a buffer that a filter makes is a new one.
\<close>

subsection \<open>Buffers\<close>

text \<open>
  A buffer of a chain: its bytes from \<open>pos\<close> to \<open>last\<close> when it is in memory, \<open>file_pos\<close> and \<open>file_last\<close>
  when it is in a file, and the flags.
\<close>

record chain_buf =
  in_memory :: "bytes option"
  in_file :: "(int \<times> int) option"
  b_flush :: bool
  b_last :: bool
  b_sync :: bool

definition ngx_buf_special :: "chain_buf \<Rightarrow> bool" where
  "ngx_buf_special b \<longleftrightarrow> (b_flush b \<or> b_last b \<or> b_sync b) \<and> in_memory b = None \<and> in_file b = None"

definition ngx_buf_size :: "chain_buf \<Rightarrow> int" where
  "ngx_buf_size b =
     (case in_memory b of
        Some d \<Rightarrow> int (length d)
      | None \<Rightarrow> (case in_file b of Some (fp, fl) \<Rightarrow> fl - fp | None \<Rightarrow> 0))"

definition memory_buf :: "bytes \<Rightarrow> chain_buf" where
  "memory_buf d = \<lparr>in_memory = Some d, in_file = None, b_flush = False, b_last = False, b_sync = False\<rparr>"

definition CRLF :: bytes where "CRLF = [c_CR, c_LF]"

lemma special_size: "ngx_buf_special b \<Longrightarrow> ngx_buf_size b = 0"
  by (simp add: ngx_buf_special_def ngx_buf_size_def)

subsection \<open>The bytes of a chain\<close>

text \<open>What a buffer sends, with the contents \<open>f\<close> of the file; a buffer in both places holds the same bytes.\<close>

definition file_bytes :: "bytes \<Rightarrow> int \<times> int \<Rightarrow> bytes" where
  "file_bytes f p = take (nat (snd p - fst p)) (drop (nat (fst p)) f)"

definition buf_bytes :: "bytes \<Rightarrow> chain_buf \<Rightarrow> bytes" where
  "buf_bytes f b =
     (case in_memory b of Some d \<Rightarrow> d | None \<Rightarrow> (case in_file b of Some p \<Rightarrow> file_bytes f p | None \<Rightarrow> []))"

definition good_buf :: "bytes \<Rightarrow> chain_buf \<Rightarrow> bool" where
  "good_buf f b \<longleftrightarrow>
     (case in_file b of
        Some (fp, fl) \<Rightarrow> 0 \<le> fp \<and> fp \<le> fl \<and> fl \<le> int (length f) \<and> (\<forall>d. in_memory b = Some d \<longrightarrow> d = file_bytes f (fp, fl))
      | None \<Rightarrow> True)"

definition chain_bytes :: "bytes \<Rightarrow> chain_buf list \<Rightarrow> bytes" where
  "chain_bytes f bs = concat (map (buf_bytes f) bs)"

lemma chain_bytes_simps [simp]: "chain_bytes f [] = []" "chain_bytes f (b # bs) = buf_bytes f b @ chain_bytes f bs"
  by (simp_all add: chain_bytes_def)

lemma buf_bytes_last: "buf_bytes f (b\<lparr>b_last := x\<rparr>) = buf_bytes f b"
  by (simp add: buf_bytes_def split: option.splits)

lemma buf_size_bytes: "good_buf f b \<Longrightarrow> ngx_buf_size b = int (length (buf_bytes f b))"
  by (auto simp: good_buf_def ngx_buf_size_def buf_bytes_def file_bytes_def split: option.splits)

lemma chain_bytes_append [simp]: "chain_bytes f (xs @ ys) = chain_bytes f xs @ chain_bytes f ys"
  by (simp add: chain_bytes_def)

lemma memory_buf_bytes [simp]: "buf_bytes f (memory_buf d) = d"
  by (simp add: buf_bytes_def memory_buf_def)

end
