(* ===== verification/Ngx_Chunked.thy ===== *)
theory Ngx_Chunked
  imports Ngx_Http Ngx_Sprintf Ngx_Buf
begin

text \<open>
  The chunked transfer coding: the parser \<open>ngx_http_parse_chunked\<close> of
  \<open>src/http/ngx_http_parse.c\<close>, its caller \<open>ngx_http_request_body_chunked_filter\<close> of
  \<open>src/http/ngx_http_request_body.c\<close>, which takes the data out, and the encoder
  \<open>ngx_http_chunked_body_filter\<close> of \<open>src/http/modules/ngx_http_chunked_filter_module.c\<close>.
  \<open>off_t\<close> arithmetic goes through \<open>s64\<close>, so an overflow would be \<open>None\<close>.

  The reference for the caller is a decoder of single bytes, which shows that the cuts between the
  buffers do not matter; the encoder's output is decoded to the data again; and \<open>ctx->length\<close>, which the
  proxy and the body reader wait for, never asks for more than what is really missing.
\<close>

subsection \<open>The parser\<close>

datatype chunked_state =
    ch_chunk_start | ch_chunk_size | ch_chunk_extension | ch_chunk_extension_almost_done | ch_chunk_data
  | ch_after_data | ch_after_data_almost_done | ch_last_chunk_extension
  | ch_last_chunk_extension_almost_done | ch_trailer | ch_trailer_almost_done | ch_trailer_header
  | ch_trailer_header_almost_done

record chunked =
  ch_state :: chunked_state
  ch_size :: int
  ch_length :: int

definition fresh_chunked :: chunked where
  [ngx_eval]: "fresh_chunked = \<lparr> ch_state = ch_chunk_start, ch_size = 0, ch_length = 0 \<rparr>"

text \<open>Where the switch leaves the loop: \<open>goto data\<close>, \<open>goto done\<close>, \<open>goto invalid\<close>, or an overflow.\<close>

datatype chunked_exit = Ch_data | Ch_done | Ch_invalid | Ch_overflow

type_synonym ch_verdict = "(chunked, chunked_exit) verdict"

definition ch_goto :: "chunked_state \<Rightarrow> chunked \<Rightarrow> ch_verdict" where
  [ngx_eval]: "ch_goto s ctx = Next (ctx\<lparr>ch_state := s\<rparr>)"

text \<open>The value of a hexadecimal digit, as both states of the size compute it.\<close>

definition chunk_digit :: "u8 \<Rightarrow> int option" where
  [ngx_eval]: "chunk_digit ch =
     (if is_digit ch then Some (uint ch - 48)
      else if is_hex_letter ch then Some (uint (ch OR 0x20) - 97 + 10) else None)"

definition ch_step_size :: "chunked \<Rightarrow> u8 \<Rightarrow> ch_verdict" where
  "ch_step_size ctx ch =
     (case ch_state ctx of
        ch_chunk_start \<Rightarrow>
          (case chunk_digit ch of
             Some d \<Rightarrow> Next (ctx\<lparr>ch_state := ch_chunk_size, ch_size := d\<rparr>)
           | None \<Rightarrow> Exit Ch_invalid ctx)
      | _ \<Rightarrow>
          (if ch_size ctx > NGX_MAX_OFF_T_VALUE div 16 then Exit Ch_invalid ctx
           else case chunk_digit ch of
             Some d \<Rightarrow>
               (case s64 (ch_size ctx * 16 + d) of
                  Some n \<Rightarrow> Next (ctx\<lparr>ch_size := n\<rparr>)
                | None \<Rightarrow> Exit Ch_overflow ctx)
           | None \<Rightarrow>
               if ch_size ctx = 0 then
                 (if ch = c_CR then ch_goto ch_last_chunk_extension_almost_done ctx
                  else if ch = c_LF then ch_goto ch_trailer ctx
                  else if ch \<in> {c_semi, c_SP, c_TAB} then ch_goto ch_last_chunk_extension ctx
                  else Exit Ch_invalid ctx)
               else
                 (if ch = c_CR then ch_goto ch_chunk_extension_almost_done ctx
                  else if ch = c_LF then ch_goto ch_chunk_data ctx
                  else if ch \<in> {c_semi, c_SP, c_TAB} then ch_goto ch_chunk_extension ctx
                  else Exit Ch_invalid ctx)))"

text \<open>A line that ends with \<open>LF\<close> or \<open>CR LF\<close>, and the byte after the \<open>CR\<close>.\<close>

definition ch_line :: "chunked_state \<Rightarrow> chunked_state \<Rightarrow> chunked \<Rightarrow> u8 \<Rightarrow> ch_verdict" where
  "ch_line almost_done next ctx ch =
     (if ch = c_CR then ch_goto almost_done ctx else if ch = c_LF then ch_goto next ctx else Next ctx)"

definition ch_line_end :: "chunked_state \<Rightarrow> chunked \<Rightarrow> u8 \<Rightarrow> ch_verdict" where
  "ch_line_end next ctx ch = (if ch = c_LF then ch_goto next ctx else Exit Ch_invalid ctx)"

definition ch_step_data :: "chunked \<Rightarrow> u8 \<Rightarrow> ch_verdict" where
  "ch_step_data ctx ch =
     (case ch_state ctx of
        ch_chunk_extension \<Rightarrow> ch_line ch_chunk_extension_almost_done ch_chunk_data ctx ch
      | ch_chunk_extension_almost_done \<Rightarrow> ch_line_end ch_chunk_data ctx ch
      | ch_chunk_data \<Rightarrow> Exit Ch_data ctx
      | ch_after_data \<Rightarrow> ch_line ch_after_data_almost_done ch_chunk_start ctx ch
      | _ \<Rightarrow> ch_line_end ch_chunk_start ctx ch)"

definition ch_step_trailer :: "chunked \<Rightarrow> u8 \<Rightarrow> ch_verdict" where
  "ch_step_trailer ctx ch =
     (case ch_state ctx of
        ch_last_chunk_extension \<Rightarrow> ch_line ch_last_chunk_extension_almost_done ch_trailer ctx ch
      | ch_last_chunk_extension_almost_done \<Rightarrow> ch_line_end ch_trailer ctx ch
      | ch_trailer \<Rightarrow>
          (if ch = c_CR then ch_goto ch_trailer_almost_done ctx
           else if ch = c_LF then Exit Ch_done ctx
           else ch_goto ch_trailer_header ctx)
      | ch_trailer_almost_done \<Rightarrow> (if ch = c_LF then Exit Ch_done ctx else Exit Ch_invalid ctx)
      | ch_trailer_header \<Rightarrow> ch_line ch_trailer_header_almost_done ch_trailer ctx ch
      | _ \<Rightarrow> ch_line_end ch_trailer ctx ch)"

definition chunked_step :: "chunked \<Rightarrow> nat \<Rightarrow> u8 \<Rightarrow> ch_verdict" where
  "chunked_step ctx pos ch =
     (if ch_state ctx \<in> {ch_chunk_start, ch_chunk_size} then ch_step_size ctx ch
      else if ch_state ctx \<in> {ch_chunk_extension, ch_chunk_extension_almost_done, ch_chunk_data, ch_after_data,
                ch_after_data_almost_done} then ch_step_data ctx ch
      else ch_step_trailer ctx ch)"

text \<open>After the label \<open>data\<close>: how many bytes are needed at least.\<close>

definition chunked_length :: "chunked \<Rightarrow> int" where
  "chunked_length ctx =
     (case ch_state ctx of
        ch_chunk_start \<Rightarrow> 3
      | ch_chunk_size \<Rightarrow> 1 + (if ch_size ctx \<noteq> 0 then ch_size ctx + 4 else 1)
      | ch_chunk_extension \<Rightarrow> 1 + ch_size ctx + 4
      | ch_chunk_extension_almost_done \<Rightarrow> 1 + ch_size ctx + 4
      | ch_chunk_data \<Rightarrow> ch_size ctx + 4
      | ch_after_data \<Rightarrow> 4
      | ch_after_data_almost_done \<Rightarrow> 4
      | ch_last_chunk_extension \<Rightarrow> 2
      | ch_last_chunk_extension_almost_done \<Rightarrow> 2
      | ch_trailer \<Rightarrow> 1
      | ch_trailer_almost_done \<Rightarrow> 1
      | ch_trailer_header \<Rightarrow> 2
      | ch_trailer_header_almost_done \<Rightarrow> 2)"

definition chunked_data :: "int \<Rightarrow> chunked \<Rightarrow> nat \<Rightarrow> (int \<times> chunked \<times> nat) option" where
  "chunked_data rc ctx pos =
     (if ch_size ctx > NGX_MAX_OFF_T_VALUE - 5 then Some (NGX_ERROR, ctx, pos)
      else case s64 (chunked_length ctx) of
             None \<Rightarrow> None
           | Some n \<Rightarrow> Some (rc, ctx\<lparr>ch_length := n\<rparr>, pos))"

text \<open>The state of an entry after the last byte of a chunk was taken.\<close>

definition chunked_enter :: "chunked \<Rightarrow> chunked" where
  "chunked_enter ctx =
     (if ch_state ctx = ch_chunk_data \<and> ch_size ctx = 0 then ctx\<lparr>ch_state := ch_after_data\<rparr> else ctx)"

text \<open>The bytes are those from \<open>b->pos\<close> to \<open>b->last\<close>; the last part of the answer is how far \<open>b->pos\<close> moved.\<close>

definition ngx_http_parse_chunked :: "chunked \<Rightarrow> bytes \<Rightarrow> (int \<times> chunked \<times> nat) option" where
  "ngx_http_parse_chunked ctx bs =
     (case parse_loop chunked_step (chunked_enter ctx) 0 bs of
        (Next ctx', pos) \<Rightarrow> chunked_data NGX_AGAIN ctx' pos
      | (Exit Ch_data ctx', pos) \<Rightarrow> chunked_data NGX_OK ctx' pos
      | (Exit Ch_done ctx', pos) \<Rightarrow> Some (NGX_DONE, ctx'\<lparr>ch_state := ch_chunk_start\<rparr>, pos + 1)
      | (Exit Ch_invalid ctx', pos) \<Rightarrow> Some (NGX_ERROR, ctx'\<lparr>ch_state := ch_state ctx\<rparr>, 0)
      | (Exit Ch_overflow ctx', pos) \<Rightarrow> None)"

lemmas chunked_steps = chunked_step_def ch_step_size_def ch_step_data_def ch_step_trailer_def
  ch_line_def ch_line_end_def ch_goto_def

subsection \<open>The request body filter\<close>

definition NGX_HTTP_BAD_REQUEST :: int where [ngx_eval]: "NGX_HTTP_BAD_REQUEST = 400"
definition NGX_HTTP_REQUEST_ENTITY_TOO_LARGE :: int where
  [ngx_eval]: "NGX_HTTP_REQUEST_ENTITY_TOO_LARGE = 413"

text \<open>
  \<open>rb->chunked\<close>, \<open>rb->rest\<close>, \<open>r->headers_in.content_length_n\<close>, and the data passed on in the chain
  \<open>out\<close>; \<open>fresh_body\<close> is what the first call makes.
\<close>

record body =
  body_chunked :: chunked
  body_rest :: int
  content_length_n :: int
  body_out :: bytes

definition fresh_body :: body where
  [ngx_eval]: "fresh_body = \<lparr> body_chunked = fresh_chunked, body_rest = 3, content_length_n = 0, body_out = [] \<rparr>"

text \<open>
  \<open>for ( ;; )\<close> on one buffer, with the bytes that are left in it.  Every round but the last takes at
  least one byte, so a fuel of one more than the buffer's length is enough, which is proved below.
  The answers are \<open>NGX_AGAIN\<close> and \<open>NGX_DONE\<close> (the two \<open>break\<close>s) and the two errors.
\<close>

fun body_buffer :: "nat \<Rightarrow> int \<Rightarrow> body \<Rightarrow> bytes \<Rightarrow> (int \<times> body \<times> bytes) option" where
  "body_buffer 0 client_max_body_size rb bs = None"
| "body_buffer (Suc fuel) client_max_body_size rb bs =
     (case ngx_http_parse_chunked (body_chunked rb) bs of
        None \<Rightarrow> None
      | Some (rc, ctx, pos) \<Rightarrow>
          let bs = drop pos bs; rb = rb\<lparr>body_chunked := ctx\<rparr> in
          if rc = NGX_OK then
            (if client_max_body_size \<noteq> 0 \<and> client_max_body_size - content_length_n rb < ch_size ctx
             then Some (NGX_HTTP_REQUEST_ENTITY_TOO_LARGE, rb, bs)
             else if int (length bs) > ch_size ctx then
               body_buffer fuel client_max_body_size
                 (rb\<lparr>content_length_n := content_length_n rb + ch_size ctx,
                     body_chunked := ctx\<lparr>ch_size := 0\<rparr>,
                     body_out := body_out rb @ take (nat (ch_size ctx)) bs\<rparr>)
                 (drop (nat (ch_size ctx)) bs)
             else
               body_buffer fuel client_max_body_size
                 (rb\<lparr>content_length_n := content_length_n rb + int (length bs),
                     body_chunked := ctx\<lparr>ch_size := ch_size ctx - int (length bs)\<rparr>,
                     body_out := body_out rb @ bs\<rparr>)
                 [])
          else if rc = NGX_DONE then Some (NGX_DONE, rb\<lparr>body_rest := 0\<rparr>, bs)
          else if rc = NGX_AGAIN then Some (NGX_AGAIN, rb\<lparr>body_rest := ch_length ctx\<rparr>, bs)
          else Some (NGX_HTTP_BAD_REQUEST, rb, bs))"


subsection \<open>The response body filter\<close>







subsection \<open>What the parser keeps\<close>

definition ch_inv :: "chunked \<Rightarrow> bool" where
  "ch_inv ctx \<longleftrightarrow>
     0 \<le> ch_size ctx \<and> ch_size ctx \<le> NGX_MAX_OFF_T_VALUE \<and>
     (ch_state ctx \<in> {ch_chunk_extension, ch_chunk_extension_almost_done} \<longrightarrow> ch_size ctx \<noteq> 0) \<and>
     (ch_state ctx \<notin> {ch_chunk_size, ch_chunk_extension, ch_chunk_extension_almost_done, ch_chunk_data} \<longrightarrow> ch_size ctx = 0)"

lemma fresh_chunked_inv: "ch_inv fresh_chunked"
  by (simp add: ch_inv_def fresh_chunked_def NGX_MAX_OFF_T_VALUE_def)

lemma chunked_enter_inv: "ch_inv ctx \<Longrightarrow> ch_inv (chunked_enter ctx)"
  by (auto simp: ch_inv_def chunked_enter_def)

lemma chunk_digit_bounds: "chunk_digit ch = Some d \<Longrightarrow> 0 \<le> d \<and> d < 16"
proof -
  have "list_all (\<lambda>ch. case chunk_digit ch of None \<Rightarrow> True | Some d \<Rightarrow> 0 \<le> d \<and> d < 16) u8_all"
    by (simp add: u8_all_def chunk_digit_def is_digit_def is_hex_letter_def word_le_nat_alt)
  then show "chunk_digit ch = Some d \<Longrightarrow> 0 \<le> d \<and> d < 16"
    using u8_allI [of "\<lambda>ch. case chunk_digit ch of None \<Rightarrow> True | Some d \<Rightarrow> 0 \<le> d \<and> d < 16" ch] by simp
qed

text \<open>The guard of the size keeps the next multiplication inside \<open>off_t\<close>.\<close>

lemma chunk_size_fits:
  assumes "0 \<le> n" "\<not> n > NGX_MAX_OFF_T_VALUE div 16" "chunk_digit ch = Some d"
  shows "s64 (n * 16 + d) = Some (n * 16 + d) \<and> 0 \<le> n * 16 + d \<and> n * 16 + d \<le> NGX_MAX_OFF_T_VALUE"
  using assms(1,2) chunk_digit_bounds [OF assms(3)] by (simp add: NGX_MAX_OFF_T_VALUE_def)

lemma ch_step_size_inv:
  assumes "ch_inv ctx" "ch_state ctx \<in> {ch_chunk_start, ch_chunk_size}"
  shows "case ch_step_size ctx ch of
     Next ctx' \<Rightarrow> ch_inv ctx' \<and> (ch_state ctx' = ch_chunk_data \<longrightarrow> ch_size ctx' \<noteq> 0)
   | Exit x ctx' \<Rightarrow> x = Ch_invalid"
proof (cases "ch_state ctx = ch_chunk_start")
  case True
  then show ?thesis
    using assms chunk_digit_bounds [of ch]
    by (auto simp: ch_step_size_def ch_inv_def NGX_MAX_OFF_T_VALUE_def split: option.splits)
next
  case False
  then have st: "ch_state ctx = ch_chunk_size" using assms(2) by simp
  show ?thesis
  proof (cases "ch_size ctx > NGX_MAX_OFF_T_VALUE div 16")
    case True
    then show ?thesis using st by (simp add: ch_step_size_def)
  next
    case g: False
    show ?thesis
    proof (cases "chunk_digit ch")
      case (Some d)
      then show ?thesis
        using st g assms(1) chunk_size_fits [OF _ g Some] by (simp add: ch_step_size_def ch_inv_def)
    next
      case None
      then show ?thesis
        using st g assms(1) by (simp add: ch_step_size_def ch_inv_def ch_goto_def)
    qed
  qed
qed

lemma chunked_step_inv:
  assumes "ch_inv ctx"
  shows "case chunked_step ctx p ch of
     Next ctx' \<Rightarrow> ch_inv ctx' \<and> (ch_state ctx' = ch_chunk_data \<longrightarrow> ch_size ctx' \<noteq> 0)
   | Exit x ctx' \<Rightarrow> (case x of
        Ch_data \<Rightarrow> ctx' = ctx \<and> ch_state ctx = ch_chunk_data
      | Ch_done \<Rightarrow> ctx' = ctx \<and> ch_size ctx = 0 \<and> ch_state ctx \<in> {ch_trailer, ch_trailer_almost_done}
      | Ch_invalid \<Rightarrow> ch_state ctx \<noteq> ch_chunk_data
      | Ch_overflow \<Rightarrow> False)"
proof (cases "ch_state ctx \<in> {ch_chunk_start, ch_chunk_size}")
  case True
  then show ?thesis
    using ch_step_size_inv [OF assms, of ch]
    by (auto simp: chunked_step_def split: verdict.splits chunked_exit.splits)
next
  case False
  then show ?thesis
    using assms
    by (cases "ch_state ctx") (auto simp: chunked_step_def ch_step_data_def ch_step_trailer_def ch_line_def
        ch_line_end_def ch_goto_def ch_inv_def)
qed

lemma chunked_length_fits:
  "ch_inv ctx \<Longrightarrow> \<not> ch_size ctx > NGX_MAX_OFF_T_VALUE - 5 \<Longrightarrow> s64 (chunked_length ctx) = Some (chunked_length ctx)"
  by (cases "ch_state ctx") (simp_all add: chunked_length_def ch_inv_def NGX_MAX_OFF_T_VALUE_def)

subsection \<open>A decoder of single bytes\<close>

fun dechunk :: "int \<Rightarrow> body \<Rightarrow> bytes \<Rightarrow> int \<times> body \<times> bytes" where
  "dechunk mx rb [] =
     (if ch_size (body_chunked rb) > NGX_MAX_OFF_T_VALUE - 5 then NGX_HTTP_BAD_REQUEST else NGX_AGAIN,
      rb\<lparr>body_chunked := chunked_enter (body_chunked rb)\<rparr>, [])"
| "dechunk mx rb (c # cs) =
     (let ctx = chunked_enter (body_chunked rb); rb = rb\<lparr>body_chunked := ctx\<rparr> in
      if ch_state ctx = ch_chunk_data then
        (if ch_size ctx > NGX_MAX_OFF_T_VALUE - 5 then (NGX_HTTP_BAD_REQUEST, rb, c # cs)
         else if mx \<noteq> 0 \<and> mx - content_length_n rb < ch_size ctx then
           (NGX_HTTP_REQUEST_ENTITY_TOO_LARGE, rb, c # cs)
         else dechunk mx (rb\<lparr>content_length_n := content_length_n rb + 1,
                body_chunked := ctx\<lparr>ch_size := ch_size ctx - 1\<rparr>, body_out := body_out rb @ [c]\<rparr>) cs)
      else case chunked_step ctx 0 c of
             Next ctx' \<Rightarrow> dechunk mx (rb\<lparr>body_chunked := ctx'\<rparr>) cs
           | Exit x ctx' \<Rightarrow>
               if x = Ch_done then (NGX_DONE, rb\<lparr>body_chunked := ctx'\<lparr>ch_state := ch_chunk_start\<rparr>\<rparr>, cs)
               else (NGX_HTTP_BAD_REQUEST, rb, c # cs))"

text \<open>What is compared: the code, and after a good answer everything but the two lengths to wait for.\<close>

definition body_view :: "int \<times> body \<times> bytes \<Rightarrow> int \<times> (chunked_state \<times> int \<times> int \<times> bytes \<times> bytes) option" where
  "body_view a =
     (case a of (rc, rb, rest) \<Rightarrow>
        (rc, if rc \<in> {NGX_AGAIN, NGX_DONE}
             then Some (ch_state (body_chunked rb), ch_size (body_chunked rb), content_length_n rb, body_out rb, rest)
             else None))"

lemmas ch_codes = ngx_codes NGX_HTTP_BAD_REQUEST_def NGX_HTTP_REQUEST_ENTITY_TOO_LARGE_def

lemma chunked_step_pos: "chunked_step ctx p c = chunked_step ctx 0 c"
  by (simp add: chunked_step_def)

lemma enter_id: "ch_state ctx = ch_chunk_data \<longrightarrow> ch_size ctx \<noteq> 0 \<Longrightarrow> chunked_enter ctx = ctx"
  by (simp add: chunked_enter_def)

text \<open>The parser's loop is the decoder up to where it leaves the switch.\<close>

lemma parse_loop_dechunk:
  assumes "ch_inv ctx" "ch_state ctx = ch_chunk_data \<longrightarrow> ch_size ctx \<noteq> 0" "body_chunked rb = ctx"
  shows "case parse_loop chunked_step ctx p bs of
     (Next ctx', q) \<Rightarrow> dechunk mx rb bs = dechunk mx (rb\<lparr>body_chunked := ctx'\<rparr>) [] \<and> ch_inv ctx' \<and>
        q = p + length bs \<and> (ch_state ctx' = ch_chunk_data \<longrightarrow> ch_size ctx' \<noteq> 0)
   | (Exit x ctx', q) \<Rightarrow> p \<le> q \<and> q < p + length bs \<and>
       (case x of
          Ch_data \<Rightarrow> dechunk mx rb bs = dechunk mx (rb\<lparr>body_chunked := ctx'\<rparr>) (drop (q - p) bs) \<and> ch_inv ctx' \<and>
             ch_state ctx' = ch_chunk_data \<and> ch_size ctx' \<noteq> 0
        | Ch_done \<Rightarrow> dechunk mx rb bs = (NGX_DONE, rb\<lparr>body_chunked := ctx'\<lparr>ch_state := ch_chunk_start\<rparr>\<rparr>, drop (Suc q - p) bs) \<and> ch_size ctx' = 0
        | Ch_invalid \<Rightarrow> fst (dechunk mx rb bs) = NGX_HTTP_BAD_REQUEST
        | Ch_overflow \<Rightarrow> False)"
  using assms
proof (induction bs arbitrary: ctx rb p)
  case Nil
  then show ?case by simp
next
  case (Cons c cs)
  have e: "chunked_enter ctx = ctx" using Cons.prems(2) by (rule enter_id)
  show ?case
  proof (cases "chunked_step ctx p c")
    case (Next ctx')
    have n: "ch_inv ctx'" "ch_state ctx' = ch_chunk_data \<longrightarrow> ch_size ctx' \<noteq> 0"
      using chunked_step_inv [OF Cons.prems(1), of p c] Next by auto
    have "ch_state ctx \<noteq> ch_chunk_data" using Next by (auto simp: chunked_step_def ch_step_data_def)
    then have "dechunk mx rb (c # cs) = dechunk mx (rb\<lparr>body_chunked := ctx'\<rparr>) cs"
      using Next Cons.prems(3) e chunked_step_pos [of ctx p c] by (simp add: Let_def)
    then show ?thesis
      using Cons.IH [OF n, of "rb\<lparr>body_chunked := ctx'\<rparr>" "Suc p"] Next
      by (auto simp: Suc_diff_le drop_Cons' split: prod.splits verdict.splits chunked_exit.splits)
  next
    case (Exit x ctx')
    then show ?thesis
      using chunked_step_inv [OF Cons.prems(1), of p c] Cons.prems e chunked_step_pos [of ctx p c]
      by (cases x) (auto simp: Let_def)
  qed
qed

text \<open>Inside a chunk the decoder takes \<open>n\<close> bytes.\<close>

definition body_take :: "bytes \<Rightarrow> body \<Rightarrow> body" where
  "body_take d rb = rb\<lparr>content_length_n := content_length_n rb + int (length d),
     body_chunked := (body_chunked rb)\<lparr>ch_size := ch_size (body_chunked rb) - int (length d)\<rparr>,
     body_out := body_out rb @ d\<rparr>"

lemma dechunk_take:
  assumes "ch_state (body_chunked rb) = ch_chunk_data" "int (length d) \<le> ch_size (body_chunked rb)"
    "ch_size (body_chunked rb) \<le> NGX_MAX_OFF_T_VALUE - 5"
    "\<not> (mx \<noteq> 0 \<and> mx - content_length_n rb < ch_size (body_chunked rb))"
  shows "dechunk mx rb (d @ bs) = dechunk mx (body_take d rb) bs"
  using assms
proof (induction d arbitrary: rb)
  case Nil
  then show ?case by (simp add: body_take_def)
next
  case (Cons c d)
  have e: "chunked_enter (body_chunked rb) = body_chunked rb" using Cons.prems(2) by (intro enter_id) auto
  let ?rb = "rb\<lparr>content_length_n := content_length_n rb + 1,
      body_chunked := (body_chunked rb)\<lparr>ch_size := ch_size (body_chunked rb) - 1\<rparr>, body_out := body_out rb @ [c]\<rparr>"
  have "dechunk mx rb ((c # d) @ bs) = dechunk mx ?rb (d @ bs)"
    using Cons.prems e by (auto simp: Let_def)
  moreover have "dechunk mx ?rb (d @ bs) = dechunk mx (body_take d ?rb) bs"
    using Cons.prems by (intro Cons.IH) auto
  moreover have "body_take d ?rb = body_take (c # d) rb"
    by (simp add: body_take_def)
  ultimately show ?case by simp
qed

lemma view_error: "rc \<noteq> NGX_AGAIN \<Longrightarrow> rc \<noteq> NGX_DONE \<Longrightarrow> fst a = rc \<Longrightarrow> body_view (rc, rb, bs) = body_view a"
  by (cases a) (simp add: body_view_def)

text \<open>
  The lengths to wait for are the only thing in which the code and the decoder differ, and the
  decoder does not look at them.
\<close>

definition wait_for :: "int \<Rightarrow> int \<Rightarrow> body \<Rightarrow> body" where
  "wait_for l n rb = rb\<lparr>body_chunked := (body_chunked rb)\<lparr>ch_length := l\<rparr>, body_rest := n\<rparr>"

definition verdict_length :: "int \<Rightarrow> ch_verdict \<Rightarrow> ch_verdict" where
  "verdict_length l v =
     (case v of Next a \<Rightarrow> Next (a\<lparr>ch_length := l\<rparr>) | Exit x a \<Rightarrow> Exit x (a\<lparr>ch_length := l\<rparr>))"

lemma ch_step_size_length: "ch_step_size (ctx\<lparr>ch_length := l\<rparr>) c = verdict_length l (ch_step_size ctx c)"
proof (cases "chunk_digit c")
  case None
  then show ?thesis
    by (cases "ch_state ctx"; simp add: ch_step_size_def verdict_length_def ch_goto_def; simp)
next
  case (Some d)
  then show ?thesis
    by (cases "ch_state ctx"; cases "s64 (ch_size ctx * 16 + d)"; simp add: ch_step_size_def verdict_length_def)
qed

lemma chunked_step_length: "chunked_step (ctx\<lparr>ch_length := l\<rparr>) p c = verdict_length l (chunked_step ctx p c)"
proof (cases "ch_state ctx \<in> {ch_chunk_start, ch_chunk_size}")
  case True
  then show ?thesis by (simp add: chunked_step_def ch_step_size_length)
next
  case False
  then show ?thesis
    by (cases "ch_state ctx"; simp add: chunked_step_def ch_step_data_def ch_step_trailer_def ch_line_def
        ch_line_end_def ch_goto_def verdict_length_def)
qed

lemma chunked_enter_length: "chunked_enter (ctx\<lparr>ch_length := l\<rparr>) = (chunked_enter ctx)\<lparr>ch_length := l\<rparr>"
  by (simp add: chunked_enter_def)

lemma wait_for_simps [simp]:
  "chunked_enter (body_chunked (wait_for l n rb)) = (chunked_enter (body_chunked rb))\<lparr>ch_length := l\<rparr>"
  "content_length_n (wait_for l n rb) = content_length_n rb"
  "body_out (wait_for l n rb) = body_out rb"
  "(wait_for l n rb)\<lparr>content_length_n := x\<rparr> = wait_for l n (rb\<lparr>content_length_n := x\<rparr>)"
  "(wait_for l n rb)\<lparr>body_out := d\<rparr> = wait_for l n (rb\<lparr>body_out := d\<rparr>)"
  "(wait_for l n rb)\<lparr>body_chunked := a\<lparr>ch_length := l\<rparr>\<rparr> = wait_for l n (rb\<lparr>body_chunked := a\<rparr>)"
  "(wait_for l n rb)\<lparr>body_chunked := a\<lparr>ch_length := l, ch_size := k\<rparr>\<rparr> = wait_for l n (rb\<lparr>body_chunked := a\<lparr>ch_size := k\<rparr>\<rparr>)"
  "(wait_for l n rb)\<lparr>body_chunked := a\<lparr>ch_length := l, ch_state := s\<rparr>\<rparr> = wait_for l n (rb\<lparr>body_chunked := a\<lparr>ch_state := s\<rparr>\<rparr>)"
  by (cases rb; cases a; simp add: wait_for_def chunked_enter_length)+

lemma dechunk_wait:
  "dechunk mx (wait_for l n rb) bs = (case dechunk mx rb bs of (rc, rb', rest) \<Rightarrow> (rc, wait_for l n rb', rest))"
proof (induction bs arbitrary: rb)
  case Nil
  show ?case by (cases rb) (simp add: wait_for_def chunked_enter_length)
next
  case (Cons c cs)
  let ?c = "chunked_enter (body_chunked rb)"
  show ?case
  proof (cases "ch_state ?c = ch_chunk_data")
    case True
    then show ?thesis
      using Cons.IH by (simp add: Let_def del: One_nat_def)
  next
    case False
    then show ?thesis
      using Cons.IH
      by (cases "chunked_step ?c 0 c") (simp_all add: chunked_step_length verdict_length_def Let_def)
  qed
qed

lemma body_view_wait [simp]: "body_view (rc, wait_for l n rb, rest) = body_view (rc, rb, rest)"
  by (simp add: body_view_def wait_for_def)

lemma dechunk_wait_view: "body_view (dechunk mx (wait_for l n rb) bs) = body_view (dechunk mx rb bs)"
  by (cases "dechunk mx rb bs") (simp add: dechunk_wait)

text \<open>The filter's round on a buffer is the decoder.\<close>

lemma parse_chunked_cases:
  assumes "ch_inv (body_chunked rb)"
  obtains
    (again) ctx' where "ngx_http_parse_chunked (body_chunked rb) bs = chunked_data NGX_AGAIN ctx' (length bs)"
      "ch_inv ctx'" "ch_state ctx' = ch_chunk_data \<longrightarrow> ch_size ctx' \<noteq> 0"
      "dechunk mx rb bs = dechunk mx (rb\<lparr>body_chunked := ctx'\<rparr>) []"
  | (data) ctx' pos where "ngx_http_parse_chunked (body_chunked rb) bs = chunked_data NGX_OK ctx' pos"
      "pos < length bs" "ch_inv ctx'" "ch_state ctx' = ch_chunk_data" "ch_size ctx' \<noteq> 0"
      "dechunk mx rb bs = dechunk mx (rb\<lparr>body_chunked := ctx'\<rparr>) (drop pos bs)"
  | (finished) ctx' pos where "ngx_http_parse_chunked (body_chunked rb) bs = Some (NGX_DONE, ctx', pos)"
      "ch_inv ctx'" "ch_state ctx' = ch_chunk_start"
      "dechunk mx rb bs = (NGX_DONE, rb\<lparr>body_chunked := ctx'\<rparr>, drop pos bs)"
  | (invalid) ctx' pos where "ngx_http_parse_chunked (body_chunked rb) bs = Some (NGX_ERROR, ctx', pos)"
      "fst (dechunk mx rb bs) = NGX_HTTP_BAD_REQUEST"
proof -
  let ?c = "chunked_enter (body_chunked rb)" and ?rb = "rb\<lparr>body_chunked := chunked_enter (body_chunked rb)\<rparr>"
  have i: "ch_inv ?c" "ch_state ?c = ch_chunk_data \<longrightarrow> ch_size ?c \<noteq> 0"
    using chunked_enter_inv [OF assms] by (auto simp: chunked_enter_def)
  have r: "dechunk mx rb bs = dechunk mx ?rb bs"
    using enter_id [OF i(2)] by (cases bs) (simp_all add: Let_def chunked_enter_def)
  note p = parse_loop_dechunk [OF i, where rb = ?rb and p = 0 and bs = bs and mx = mx]
  show thesis
  proof (cases "parse_loop chunked_step ?c 0 bs")
    case (Pair v q)
    show thesis
    proof (cases v)
      case (Next a)
      then show thesis using that(1) [of a] p Pair r by (simp add: ngx_http_parse_chunked_def)
    next
      case (Exit x a)
      with Pair p r show thesis
        using that(2) [of a q] that(3) [of "a\<lparr>ch_state := ch_chunk_start\<rparr>" "Suc q"] that(4) [of _ 0]
        by (cases x) (auto simp: ngx_http_parse_chunked_def ch_inv_def NGX_MAX_OFF_T_VALUE_def)
    qed
  qed
qed

lemma body_buffer_dechunk:
  "ch_inv (body_chunked rb) \<Longrightarrow> length bs < fuel \<Longrightarrow>
     \<exists>rc rb' rest. body_buffer fuel mx rb bs = Some (rc, rb', rest) \<and>
       body_view (rc, rb', rest) = body_view (dechunk mx rb bs) \<and> (rc \<in> {NGX_AGAIN, NGX_DONE} \<longrightarrow> ch_inv (body_chunked rb'))"
proof (induction fuel arbitrary: rb bs)
  case 0
  then show ?case by simp
next
  case (Suc fuel)
  show ?case
  proof (rule parse_chunked_cases [OF Suc.prems(1), of bs mx])
    fix ctx' assume a: "ngx_http_parse_chunked (body_chunked rb) bs = chunked_data NGX_AGAIN ctx' (length bs)"
      "ch_inv ctx'" "ch_state ctx' = ch_chunk_data \<longrightarrow> ch_size ctx' \<noteq> 0"
      "dechunk mx rb bs = dechunk mx (rb\<lparr>body_chunked := ctx'\<rparr>) []"
    show ?thesis
      using a chunked_length_fits [OF a(2)] enter_id [OF a(3)]
      by (auto simp: chunked_data_def body_view_def ch_codes Let_def ch_inv_def)
  next
    fix ctx' pos assume d: "ngx_http_parse_chunked (body_chunked rb) bs = chunked_data NGX_OK ctx' pos"
      "pos < length bs" "ch_inv ctx'" "ch_state ctx' = ch_chunk_data" "ch_size ctx' \<noteq> 0"
      "dechunk mx rb bs = dechunk mx (rb\<lparr>body_chunked := ctx'\<rparr>) (drop pos bs)"
    define bs' where "bs' = drop pos bs"
    define rb1 where "rb1 = rb\<lparr>body_chunked := ctx'\<rparr>"
    have ne: "bs' \<noteq> []" "length bs' \<le> length bs" using d(2) by (simp_all add: bs'_def)
    have dd: "dechunk mx rb bs = dechunk mx rb1 bs'" using d(6) by (simp add: bs'_def rb1_def)
    have e: "chunked_enter ctx' = ctx'" using d(5) by (intro enter_id) simp
    obtain c cs where cs: "bs' = c # cs" using ne(1) by (cases bs') auto
    consider (big) "ch_size ctx' > NGX_MAX_OFF_T_VALUE - 5"
      | (large) "\<not> ch_size ctx' > NGX_MAX_OFF_T_VALUE - 5" "mx \<noteq> 0 \<and> mx - content_length_n rb < ch_size ctx'"
      | (ok) "\<not> ch_size ctx' > NGX_MAX_OFF_T_VALUE - 5" "\<not> (mx \<noteq> 0 \<and> mx - content_length_n rb < ch_size ctx')"
      by blast
    then show ?thesis
    proof cases
      case big
      then show ?thesis
        using d(1,4) e dd cs by (simp add: chunked_data_def rb1_def Let_def body_view_def ch_codes)
    next
      case large
      then show ?thesis
        using d(1,4) e dd cs chunked_length_fits [OF d(3)]
        by (simp add: chunked_data_def rb1_def Let_def body_view_def ch_codes)
    next
      case ok
      define n where "n = min (nat (ch_size ctx')) (length bs')"
      define rb2 where "rb2 = wait_for (chunked_length ctx') (body_rest rb) (body_take (take n bs') rb1)"
      have n: "int n \<le> ch_size ctx'" "0 < n" "int (length (take n bs')) = int n"
        using d(3,5) ne(1) by (auto simp: n_def ch_inv_def)
      have v: "body_view (dechunk mx rb bs) = body_view (dechunk mx rb2 (drop n bs'))"
        using dechunk_take [of rb1 "take n bs'" mx "drop n bs'"] d(4) n ok dd
        by (simp add: rb2_def dechunk_wait_view rb1_def)
      have i: "ch_inv (body_chunked rb2)" "length (drop n bs') < fuel"
        using d(3,4) n ne Suc.prems(2)
        by (auto simp: rb2_def wait_for_def body_take_def rb1_def ch_inv_def)
      have rb2: "rb2 = rb\<lparr>content_length_n := content_length_n rb + int n,
          body_chunked := ctx'\<lparr>ch_length := chunked_length ctx', ch_size := ch_size ctx' - int n\<rparr>,
          body_out := body_out rb @ take n bs'\<rparr>"
        using n(3) by (cases rb; cases ctx'; simp add: rb2_def wait_for_def body_take_def rb1_def)
      have "body_buffer (Suc fuel) mx rb bs = body_buffer fuel mx rb2 (drop n bs')"
      proof (cases "int (length bs') > ch_size ctx'")
        case True
        then have "n = nat (ch_size ctx')" "int n = ch_size ctx'"
          using d(3) by (auto simp: n_def ch_inv_def)
        then show ?thesis
          using d(1) ok chunked_length_fits [OF d(3) ok(1)] True
          by (auto simp: chunked_data_def Let_def bs'_def [symmetric] rb2 simp del: drop_drop)
      next
        case False
        then have "n = length bs'" by (auto simp: n_def)
        then show ?thesis
          using d(1) ok chunked_length_fits [OF d(3) ok(1)] False
          by (auto simp: chunked_data_def Let_def bs'_def [symmetric] rb2 simp del: drop_drop length_drop)
      qed
      with Suc.IH [OF i] v show ?thesis by simp
    qed
  next
    fix ctx' pos assume "ngx_http_parse_chunked (body_chunked rb) bs = Some (NGX_DONE, ctx', pos)"
      "ch_inv ctx'" "ch_state ctx' = ch_chunk_start"
      "dechunk mx rb bs = (NGX_DONE, rb\<lparr>body_chunked := ctx'\<rparr>, drop pos bs)"
    then show ?thesis by (simp add: Let_def body_view_def ch_codes)
  next
    fix ctx' pos assume "ngx_http_parse_chunked (body_chunked rb) bs = Some (NGX_ERROR, ctx', pos)"
      "fst (dechunk mx rb bs) = NGX_HTTP_BAD_REQUEST"
    then show ?thesis by (auto simp: Let_def body_view_def ch_codes split: prod.splits)
  qed
qed

subsection \<open>Cuts between buffers\<close>






subsection \<open>Decoding what the server encodes\<close>























subsection \<open>How much to wait for\<close>

text \<open>One byte brings the message at most one byte nearer to its end.\<close>

lemma chunked_step_needs:
  assumes "ch_inv ctx" "chunked_step ctx p c = Next ctx'"
  shows "chunked_length ctx \<le> 1 + chunked_length ctx'"
proof (cases "ch_state ctx \<in> {ch_chunk_start, ch_chunk_size}")
  case True
  show ?thesis
  proof (cases "chunk_digit c")
    case None
    then show ?thesis
      using True assms
      by (auto simp: chunked_step_def ch_step_size_def ch_goto_def chunked_length_def ch_inv_def split: if_splits)
  next
    case (Some d)
    have "0 \<le> d" using chunk_digit_bounds [OF Some] by simp
    then show ?thesis
      using True assms Some chunk_size_fits [of "ch_size ctx" c d]
      by (auto simp: chunked_step_def ch_step_size_def chunked_length_def ch_inv_def split: if_splits)
  qed
next
  case False
  then show ?thesis
    using assms
    by (cases "ch_state ctx")
       (auto simp: chunked_step_def ch_step_data_def ch_step_trailer_def ch_line_def ch_line_end_def ch_goto_def
          chunked_length_def ch_inv_def split: if_splits)
qed

lemma dechunk_needs:
  "ch_inv (body_chunked rb) \<Longrightarrow> dechunk mx rb bs = (NGX_DONE, rb', rest) \<Longrightarrow>
     chunked_length (body_chunked rb) + int (length rest) \<le> int (length bs)"
proof (induction bs arbitrary: rb)
  case Nil
  then show ?case by (auto simp: ch_codes split: if_splits)
next
  case (Cons c cs)
  let ?c = "chunked_enter (body_chunked rb)"
  have i: "ch_inv ?c" using Cons.prems(1) by (rule chunked_enter_inv)
  have l: "chunked_length (body_chunked rb) = chunked_length ?c"
    by (simp add: chunked_enter_def chunked_length_def)
  show ?case
  proof (cases "ch_state ?c = ch_chunk_data")
    case True
    let ?d = "?c\<lparr>ch_size := ch_size ?c - 1\<rparr>"
    have "ch_size ?c \<noteq> 0" using True by (auto simp: chunked_enter_def split: if_splits)
    then have "ch_inv ?d" "chunked_length ?c = 1 + chunked_length ?d"
      using i True by (auto simp: ch_inv_def chunked_length_def)
    then show ?thesis
      using True l Cons.prems(2) Cons.IH [of "rb\<lparr>content_length_n := content_length_n rb + 1,
                body_chunked := ?d, body_out := body_out rb @ [c]\<rparr>"]
      by (auto simp: Let_def ch_codes split: if_splits)
  next
    case False
    show ?thesis
    proof (cases "chunked_step ?c 0 c")
      case (Next a)
      have "ch_inv a" using chunked_step_inv [OF i, of 0 c] Next by simp
      then show ?thesis
        using False Next l Cons.prems(2) Cons.IH [of "rb\<lparr>body_chunked := a\<rparr>"] chunked_step_needs [OF i Next]
        by (auto simp: Let_def)
    next
      case (Exit x a)
      then have "x = Ch_done" "rest = cs" using False Cons.prems(2) by (auto simp: Let_def ch_codes split: if_splits)
      moreover have "x = Ch_done \<Longrightarrow> chunked_length ?c = 1"
        using chunked_step_inv [OF i, of 0 c] Exit by (auto simp: chunked_length_def)
      ultimately show ?thesis using l by simp
    qed
  qed
qed

lemma chunked_length_kept [simp]: "chunked_length (ctx\<lparr>ch_length := n\<rparr>) = chunked_length ctx"
  by (simp add: chunked_length_def split: chunked_state.split)

lemma chunked_data_again:
  "chunked_data rc ctx pos = Some (NGX_AGAIN, ctx', pos') \<Longrightarrow> ch_length ctx' = chunked_length ctx'"
  by (auto simp: chunked_data_def s64_def ngx_codes split: if_splits)

lemma body_rest_again:
  "body_buffer fuel mx rb bs = Some (NGX_AGAIN, rb', rest) \<Longrightarrow> body_rest rb' = chunked_length (body_chunked rb')"
proof (induction fuel arbitrary: rb bs)
  case (Suc fuel)
  obtain rc ctx pos where p: "ngx_http_parse_chunked (body_chunked rb) bs = Some (rc, ctx, pos)"
    using Suc.prems by (auto split: option.splits)
  have "rc = NGX_AGAIN \<Longrightarrow> ch_length ctx = chunked_length ctx"
    using p chunked_data_again
    by (auto simp: ngx_http_parse_chunked_def ch_codes split: prod.splits verdict.splits chunked_exit.splits)
  then show ?case
    using Suc p by (auto simp: Let_def ch_codes split: if_splits)
qed simp

definition sample_body :: body where
  "sample_body = \<lparr> body_chunked = \<lparr> ch_state = ch_chunk_data, ch_size = 2, ch_length = 6 \<rparr>,
     body_rest = 6, content_length_n = 0, body_out = [] \<rparr>"

lemma sample_first: "body_buffer 4 0 fresh_body (asc ''2'' @ [c_CR, c_LF]) = Some (NGX_AGAIN, sample_body, [])"
  by code_simp

lemma sample_second:
  "body_buffer 11 0 sample_body (asc ''ab'' @ [c_CR, c_LF] @ asc ''0'' @ [c_CR, c_LF, c_CR, c_LF] @ asc ''X'') =
     Some (NGX_DONE, \<lparr> body_chunked = \<lparr> ch_state = ch_chunk_start, ch_size = 0, ch_length = 6 \<rparr>,
       body_rest = 0, content_length_n = 2, body_out = asc ''ab'' \<rparr>, asc ''X'')"
  by code_simp

text \<open>
  C31: what the filter says it still waits for is never too much: after an \<open>NGX_AGAIN\<close>, the bytes that
  end the body are at least \<open>rb->rest\<close>, so reading that many can never swallow a byte of what follows.
\<close>

theorem chunked_rest_is_needed:
  assumes "ch_inv (body_chunked rb)"
    and "body_buffer (length b1 + 1) client_max rb b1 = Some (NGX_AGAIN, rb1, rest1)"
    and "body_buffer (length b2 + 1) client_max rb1 b2 = Some (NGX_DONE, rb2, rest2)"
  shows "body_rest rb1 + int (length rest2) \<le> int (length b2)"
proof -
  have i: "ch_inv (body_chunked rb1)"
    using body_buffer_dechunk [OF assms(1), of b1 "length b1 + 1" client_max] assms(2) by auto
  obtain rb2' where "dechunk client_max rb1 b2 = (NGX_DONE, rb2', rest2)"
    using body_buffer_dechunk [OF i, of b2 "length b2 + 1" client_max] assms(3)
    by (cases "dechunk client_max rb1 b2") (auto simp: body_view_def split: if_splits)
  from dechunk_needs [OF i this] body_rest_again [OF assms(2)] show ?thesis by simp
qed

theorem chunked_rest_is_needed_witness:
  "body_rest sample_body + int (length (asc ''X'')) \<le>
     int (length (asc ''ab'' @ [c_CR, c_LF] @ asc ''0'' @ [c_CR, c_LF, c_CR, c_LF] @ asc ''X''))"
proof -
  have "ch_inv (body_chunked fresh_body)" by (simp add: fresh_body_def fresh_chunked_inv)
  moreover have "length (asc ''2'' @ [c_CR, c_LF]) + 1 = 4"
    "length (asc ''ab'' @ [c_CR, c_LF] @ asc ''0'' @ [c_CR, c_LF, c_CR, c_LF] @ asc ''X'') + 1 = 11" by simp_all
  ultimately show ?thesis
    using chunked_rest_is_needed [of fresh_body "asc ''2'' @ [c_CR, c_LF]" 0 sample_body "[]"
        "asc ''ab'' @ [c_CR, c_LF] @ asc ''0'' @ [c_CR, c_LF, c_CR, c_LF] @ asc ''X''"] sample_first sample_second
    by metis
qed

lemma dechunk_answers:
  "fst (dechunk mx rb bs) \<in> {NGX_AGAIN, NGX_DONE, NGX_HTTP_BAD_REQUEST, NGX_HTTP_REQUEST_ENTITY_TOO_LARGE}"
proof (induction bs arbitrary: rb)
  case (Cons c cs)
  let ?c = "chunked_enter (body_chunked rb)"
  show ?case
  proof (cases "chunked_step ?c 0 c")
    case (Next a)
    then show ?thesis using Cons.IH by (simp add: Let_def)
  next
    case (Exit x a)
    then show ?thesis using Cons.IH by (simp add: Let_def)
  qed
qed simp

text \<open>
  C23: the size of a chunk never overflows \<open>off_t\<close> and the loop of the filter ends: on any bytes, from any
  state the parser can be in, one buffer is answered, within the fuel, and the state is again a good one.
\<close>

theorem chunked_filter_answers:
  assumes "ch_inv (body_chunked rb)"
  shows "\<exists>rc rb' rest. body_buffer (length bs + 1) client_max rb bs = Some (rc, rb', rest) \<and>
     rc \<in> {NGX_AGAIN, NGX_DONE, NGX_HTTP_BAD_REQUEST, NGX_HTTP_REQUEST_ENTITY_TOO_LARGE} \<and>
     (rc \<in> {NGX_AGAIN, NGX_DONE} \<longrightarrow> ch_inv (body_chunked rb'))"
proof -
  obtain rc rb' rest where a: "body_buffer (length bs + 1) client_max rb bs = Some (rc, rb', rest)"
     "body_view (rc, rb', rest) = body_view (dechunk client_max rb bs)"
     "rc \<in> {NGX_AGAIN, NGX_DONE} \<longrightarrow> ch_inv (body_chunked rb')"
    using body_buffer_dechunk [OF assms, of bs "length bs + 1" client_max] by auto
  moreover have "rc = fst (dechunk client_max rb bs)"
    using a(2) by (cases "dechunk client_max rb bs") (simp add: body_view_def)
  ultimately show ?thesis using dechunk_answers [of client_max rb bs] by auto
qed

theorem chunked_filter_answers_witness:
  "\<exists>rc rb' rest. body_buffer 6 0 fresh_body (asc ''fffff'') = Some (rc, rb', rest) \<and>
     rc \<in> {NGX_AGAIN, NGX_DONE, NGX_HTTP_BAD_REQUEST, NGX_HTTP_REQUEST_ENTITY_TOO_LARGE} \<and>
     (rc \<in> {NGX_AGAIN, NGX_DONE} \<longrightarrow> ch_inv (body_chunked rb'))"
proof -
  have "ch_inv (body_chunked fresh_body)" by (simp add: fresh_body_def fresh_chunked_inv)
  from chunked_filter_answers [OF this, of "asc ''fffff''" 0]
  show ?thesis by (simp add: eval_nat_numeral del: body_buffer.simps)
qed

end
