(* ===== verification/Ngx_Range.thy ===== *)
theory Ngx_Range
  imports Ngx_Printf Ngx_String
begin

text \<open>
  The \<open>Range\<close> header: \<open>ngx_http_range_parse\<close> of
  \<open>src/http/modules/ngx_http_range_filter_module.c\<close>.  The value is the C string from \<open>p\<close> on, its zero
  included; a read past it is the exit \<open>Read_past_end\<close>.  Every signed operation on an \<open>off_t\<close> that could
  overflow goes through \<open>s64\<close>, and its \<open>None\<close> is the exit \<open>Off_overflow\<close>.  The copy of the ranges of the
  main request by a subrequest is in theory \<open>Ngx_Range_Filter\<close>, with the caller.
\<close>

subsection \<open>The parser\<close>

datatype range_exit = Read_past_end | Off_overflow | Not_satisfiable | Declined

definition off :: "int \<Rightarrow> range_exit + int" where
  "off x = (case s64 x of Some x \<Rightarrow> Inr x | None \<Rightarrow> Inl Off_overflow)"

definition skip_sp :: "bytes \<Rightarrow> bytes" where
  "skip_sp p = dropWhile (\<lambda>c. c = c_SP) p"

text \<open>\<open>start = start * 10 + *p++ - '0'\<close> behind its guard; the sum comes before the difference.\<close>

fun range_number :: "int \<Rightarrow> bytes \<Rightarrow> range_exit + int \<times> bytes" where
  "range_number n [] = Inl Read_past_end"
| "range_number n (c # p) =
     (if c_0 \<le> c \<and> c \<le> c_9 then
        (let cutoff = NGX_MAX_OFF_T_VALUE div 10; cutlim = NGX_MAX_OFF_T_VALUE mod 10 in
         if n \<ge> cutoff \<and> (n > cutoff \<or> uint c - 48 > cutlim) then Inl Not_satisfiable
         else sbind (off (n * 10)) (\<lambda>t. sbind (off (t + uint c)) (\<lambda>t. sbind (off (t - 48)) (\<lambda>n. range_number n p))))
      else Inr (n, c # p))"

declare range_number.simps [simp del]

text \<open>\<open>*p\<close>; after it, \<open>p++\<close> is \<open>tl\<close>.\<close>

definition peek :: "bytes \<Rightarrow> range_exit + u8" where
  "peek p = (case p of [] \<Rightarrow> Inl Read_past_end | c # _ \<Rightarrow> Inr c)"

text \<open>The second number, from the test of its first digit to the label \<open>found\<close>.\<close>

definition range_clip :: "int \<Rightarrow> int \<Rightarrow> int \<Rightarrow> bool \<Rightarrow> range_exit + int \<times> int" where
  "range_clip content_length start end suffix =
     sbind (if suffix then sbind (off (content_length - end)) (\<lambda>start. sbind (off (content_length - 1)) (\<lambda>end. Inr (start, end)))
            else Inr (start, end)) (\<lambda>(start, end).
     if end \<ge> content_length then Inr (start, content_length)
     else sbind (off (end + 1)) (\<lambda>end. Inr (start, end)))"

definition range_end :: "int \<Rightarrow> int \<Rightarrow> bool \<Rightarrow> bytes \<Rightarrow> range_exit + int \<times> int \<times> bytes" where
  "range_end content_length start suffix p =
     sbind (peek p) (\<lambda>c.
     if c < c_0 \<or> c > c_9 then Inl Not_satisfiable
     else
       sbind (range_number 0 p) (\<lambda>(end, p).
       let p = skip_sp p in
       sbind (peek p) (\<lambda>c.
       if c \<noteq> c_comma \<and> c \<noteq> 0 then Inl Not_satisfiable
       else sbind (range_clip content_length start end suffix) (\<lambda>(start, end). Inr (start, end, p)))))"

text \<open>One turn of the loop up to the label \<open>found\<close>.\<close>

definition range_spec :: "int \<Rightarrow> bytes \<Rightarrow> range_exit + int \<times> int \<times> bytes" where
  "range_spec content_length p =
     (let p = skip_sp p in
      sbind (peek p) (\<lambda>c.
      if c \<noteq> c_minus then
        (if c < c_0 \<or> c > c_9 then Inl Not_satisfiable
         else
           sbind (range_number 0 p) (\<lambda>(start, p).
           let p = skip_sp p in
           sbind (peek p) (\<lambda>c.
           if c \<noteq> c_minus then Inl Not_satisfiable
           else
             (let p = skip_sp (tl p) in
              sbind (peek p) (\<lambda>c.
              if c = c_comma \<or> c = 0 then Inr (start, content_length, p)
              else range_end content_length start False p)))))
      else range_end content_length 0 True (tl p)))"

text \<open>The label \<open>found\<close>: the ranges so far, \<open>sz\<close>, and how many more are allowed.\<close>

definition range_found ::
  "int \<Rightarrow> int \<Rightarrow> (int \<times> int) list \<Rightarrow> int \<Rightarrow> nat \<Rightarrow> range_exit + (int \<times> int) list \<times> int \<times> nat" where
  "range_found start end rs sz ranges =
     (if start < end then
        sbind (off (end - start)) (\<lambda>len.
        sbind (off (NGX_MAX_OFF_T_VALUE - len)) (\<lambda>room.
        if sz > room then Inl Not_satisfiable
        else sbind (off (sz + len)) (\<lambda>sz.
          if ranges = 0 then Inl Declined else Inr (rs @ [(start, end)], sz, ranges - 1))))
      else Inr (rs, sz, ranges))"

lemma skip_sp_length: "length (skip_sp p) \<le> length p"
  by (simp add: skip_sp_def length_dropWhile_le)

lemma range_number_length: "range_number n p = Inr (m, q) \<Longrightarrow> length q \<le> length p"
  by (induction n p rule: range_number.induct)
    (fastforce simp: range_number.simps Let_def sbind_Inr_iff split: if_splits)+

lemma range_end_length: "range_end cl s suffix p = Inr (a, b, q) \<Longrightarrow> length q \<le> length p"
  by (auto simp: range_end_def sbind_Inr_iff Let_def split: if_splits
      dest!: range_number_length intro: le_trans [OF skip_sp_length])

lemma range_spec_length: "range_spec cl p = Inr (a, b, q) \<Longrightarrow> length q \<le> length p"
  by (auto simp: range_spec_def sbind_Inr_iff Let_def split: if_splits
      dest!: range_number_length range_end_length
      intro!: le_trans [OF skip_sp_length] elim!: le_trans intro: diff_le_self [THEN le_trans] skip_sp_length)

function range_loop :: "int \<Rightarrow> (int \<times> int) list \<Rightarrow> int \<Rightarrow> nat \<Rightarrow> bytes \<Rightarrow> range_exit + (int \<times> int) list \<times> int" where
  "range_loop content_length rs sz ranges p =
     (case range_spec content_length p of
        Inl e \<Rightarrow> Inl e
      | Inr (start, end, p) \<Rightarrow>
          (case range_found start end rs sz ranges of
             Inl e \<Rightarrow> Inl e
           | Inr (rs, sz, ranges) \<Rightarrow>
               (case p of
                  [] \<Rightarrow> Inl Read_past_end
                | c # p \<Rightarrow> if c \<noteq> c_comma then Inr (rs, sz) else range_loop content_length rs sz ranges p)))"
  by pat_completeness auto
termination by (relation "measure (\<lambda>(_, _, _, _, p). length p)") (auto dest: range_spec_length)

declare range_loop.simps [simp del]

definition ngx_http_range_parse :: "int \<Rightarrow> nat \<Rightarrow> bytes \<Rightarrow> range_exit + (int \<times> int) list" where
  "ngx_http_range_parse content_length ranges p =
     sbind (range_loop content_length [] 0 ranges p) (\<lambda>(rs, sz).
       if rs = [] then Inl Not_satisfiable
       else if sz > content_length then Inl Declined
       else Inr rs)"

subsection \<open>What an accepted header gives\<close>

lemma off_Inr_iff: "off x = Inr y \<longleftrightarrow> y = x \<and> - 9223372036854775808 \<le> x \<and> x \<le> NGX_MAX_OFF_T_VALUE"
  by (auto simp: off_def s64_def NGX_MAX_OFF_T_VALUE_def)

lemma off_Inl_iff: "off x = Inl e \<longleftrightarrow> e = Off_overflow \<and> \<not> (- 9223372036854775808 \<le> x \<and> x \<le> NGX_MAX_OFF_T_VALUE)"
  by (auto simp: off_def s64_def NGX_MAX_OFF_T_VALUE_def)

lemma range_number_bounds: "range_number n p = Inr (m, q) \<Longrightarrow> 0 \<le> n \<Longrightarrow> n \<le> NGX_MAX_OFF_T_VALUE \<Longrightarrow> 0 \<le> m \<and> m \<le> NGX_MAX_OFF_T_VALUE"
proof (induction p arbitrary: n)
  case (Cons c p)
  show ?case
  proof (cases "c_0 \<le> c \<and> c \<le> c_9")
    case True
    have "48 \<le> uint c" using True by (simp add: word_le_def)
    moreover have "range_number (n * 10 + uint c - 48) p = Inr (m, q)" "n * 10 + uint c - 48 \<le> NGX_MAX_OFF_T_VALUE"
      using Cons.prems(1) True by (auto simp: range_number.simps Let_def sbind_Inr_iff off_Inr_iff split: if_splits)
    ultimately show ?thesis using Cons.IH [of "n * 10 + uint c - 48"] Cons.prems(2) by simp
  qed (use Cons in \<open>auto simp: range_number.simps\<close>)
qed (simp add: range_number.simps)

definition in_content :: "int \<Rightarrow> int \<times> int \<Rightarrow> bool" where
  "in_content cl r \<longleftrightarrow> snd r \<le> cl \<and> (0 \<le> fst r \<or> snd r = cl)"

definition range_sum :: "(int \<times> int) list \<Rightarrow> int" where
  "range_sum rs = (\<Sum>(s, e)\<leftarrow>rs. e - s)"

lemma range_clip_in_content: "range_clip cl s e suffix = Inr (a, b) \<Longrightarrow> 0 \<le> s \<Longrightarrow> in_content cl (a, b)"
  by (auto simp: range_clip_def sbind_Inr_iff off_Inr_iff in_content_def split: if_splits)

lemma range_end_in_content: "range_end cl s suffix p = Inr (a, b, q) \<Longrightarrow> 0 \<le> s \<Longrightarrow> in_content cl (a, b)"
  by (auto simp: range_end_def sbind_Inr_iff Let_def split: if_splits dest: range_clip_in_content)

lemma range_spec_in_content: "range_spec cl p = Inr (a, b, q) \<Longrightarrow> in_content cl (a, b)"
  by (auto simp: range_spec_def sbind_Inr_iff Let_def split: if_splits dest!: range_end_in_content range_number_bounds)
    (auto simp: in_content_def NGX_MAX_OFF_T_VALUE_def)

lemma range_found_ok:
  assumes "range_found s e rs sz n = Inr (rs', sz', n')" "in_content cl (s, e)"
    and "\<forall>r\<in>set rs. fst r < snd r \<and> in_content cl r" "sz = range_sum rs"
  shows "(\<forall>r\<in>set rs'. fst r < snd r \<and> in_content cl r) \<and> sz' = range_sum rs' \<and> length rs' + n' = length rs + n"
  using assms by (auto simp: range_found_def sbind_Inr_iff off_Inr_iff range_sum_def split: if_splits)

lemma range_loop_ok:
  "range_loop cl rs sz n p = Inr (rs', sz') \<Longrightarrow> \<forall>r\<in>set rs. fst r < snd r \<and> in_content cl r \<Longrightarrow> sz = range_sum rs \<Longrightarrow>
     (\<forall>r\<in>set rs'. fst r < snd r \<and> in_content cl r) \<and> sz' = range_sum rs' \<and> length rs' \<le> length rs + n"
proof (induction cl rs sz n p rule: range_loop.induct)
  case (1 cl rs sz n p)
  obtain s e q where s: "range_spec cl p = Inr (s, e, q)"
    using 1(2) by (subst (asm) range_loop.simps) (auto split: sum.splits)
  obtain rs2 sz2 n2 where f: "range_found s e rs sz n = Inr (rs2, sz2, n2)"
    using 1(2) s by (subst (asm) range_loop.simps) (auto split: sum.splits)
  obtain c q' where q: "q = c # q'"
    using 1(2) s f by (subst (asm) range_loop.simps) (auto split: list.splits)
  note ok = range_found_ok [OF f range_spec_in_content [OF s] 1(3,4)]
  show ?case
  proof (cases "c = c_comma")
    case True
    then have "range_loop cl rs2 sz2 n2 q' = Inr (rs', sz')" using 1(2) s f q by (subst (asm) range_loop.simps) simp
    then show ?thesis using 1(1) [OF s refl refl f refl refl q] ok True by auto
  next
    case False
    then show ?thesis using 1(2) s f q ok by (subst (asm) range_loop.simps) auto
  qed
qed

lemma range_sum_member: "r \<in> set rs \<Longrightarrow> \<forall>r\<in>set rs. fst r < snd r \<Longrightarrow> snd r - fst r \<le> range_sum rs"
proof (induction rs)
  case (Cons x rs)
  have "0 \<le> range_sum rs" using Cons.prems(2)
    by (induction rs) (auto simp: range_sum_def)
  then show ?case using Cons by (cases x) (auto simp: range_sum_def)
qed simp

text \<open>
  C19: Every accepted \<open>Range\<close> header gives at least one and at most the allowed number of ranges, each of them a
  non-empty part of the content, and together they are not longer than the content.  The start of a suffix
  range can be negative on the way, and the sum of the sizes is what rejects it.
\<close>

theorem range_parse_sound:
  assumes "ngx_http_range_parse content_length ranges p = Inr rs"
  shows "rs \<noteq> [] \<and> length rs \<le> ranges \<and> (\<forall>(start, end)\<in>set rs. 0 \<le> start \<and> start < end \<and> end \<le> content_length) \<and>
     range_sum rs \<le> content_length"
proof -
  obtain sz where l: "range_loop content_length [] 0 ranges p = Inr (rs, sz)" "rs \<noteq> []" "sz \<le> content_length"
    using assms by (auto simp: ngx_http_range_parse_def sbind_Inr_iff split: if_splits)
  have ok: "\<forall>r\<in>set rs. fst r < snd r \<and> in_content content_length r" "sz = range_sum rs" "length rs \<le> ranges"
    using range_loop_ok [OF l(1)] by (simp_all add: range_sum_def)
  have "0 \<le> s" if "(s, e) \<in> set rs" for s e
    using range_sum_member [OF that] ok l(3) that by (fastforce simp: in_content_def)
  then show ?thesis using ok l by (auto simp: in_content_def)
qed

theorem range_parse_sound_witness:
  "ngx_http_range_parse 100 2 (asc ''0-9, -5'' @ [0]) = Inr [(0, 10), (95, 100)] \<and> range_sum [(0, 10), (95, 100)] \<le> 100"
proof -
  have "ngx_http_range_parse 100 2 (asc ''0-9, -5'' @ [0]) = Inr [(0, 10), (95, 100)]" by code_simp
  with range_parse_sound [OF this] show ?thesis by simp
qed

subsection \<open>No read past the value\<close>

text \<open>A position from which the zero can be reached.\<close>

abbreviation terminated :: "bytes \<Rightarrow> bool" where
  "terminated p \<equiv> 0 \<in> set p"

lemma terminated_skip: "terminated p \<Longrightarrow> terminated (skip_sp p)"
  by (induction p) (auto simp: skip_sp_def)

lemma terminated_tl: "terminated p \<Longrightarrow> peek p = Inr c \<Longrightarrow> c \<noteq> 0 \<Longrightarrow> terminated (tl p)"
  by (cases p) (auto simp: peek_def)

lemma terminated_peek: "terminated p \<Longrightarrow> \<exists>c. peek p = Inr c"
  by (cases p) (auto simp: peek_def)

lemma digit_not_zero: "c_0 \<le> c \<Longrightarrow> c \<noteq> (0 :: u8)"
  by (auto simp: word_le_def)

definition digit_run :: "nat \<Rightarrow> bytes \<Rightarrow> bool" where
  "digit_run k p \<longleftrightarrow> (\<exists>a b c. p = a @ b @ c \<and> length b = k \<and> list_all is_digit b)"

definition fault_free :: "bytes \<Rightarrow> range_exit + 'a \<Rightarrow> bool" where
  "fault_free p r \<longleftrightarrow> r \<noteq> Inl Read_past_end \<and> (r = Inl Off_overflow \<longrightarrow> digit_run 19 p)"

lemma digit_run_append: "digit_run k p \<Longrightarrow> digit_run k (q @ p)"
  unfolding digit_run_def by (metis append.assoc)

lemma digit_run_skip: "digit_run k (skip_sp p) \<Longrightarrow> digit_run k p"
  using digit_run_append [of k "skip_sp p" "takeWhile (\<lambda>c. c = c_SP) p"] by (simp add: skip_sp_def)

lemma digit_run_tl: "digit_run k (tl p) \<Longrightarrow> digit_run k p"
  using digit_run_append [of k "tl p" "[hd p]"] by (cases p) simp_all

text \<open>The number reader: the rest is a suffix, and an overflow needs eighteen digits before the last one.\<close>

lemma range_number_rest: "range_number n p = Inr (m, q) \<Longrightarrow> \<exists>d. p = d @ q \<and> list_all is_digit d"
proof (induction p arbitrary: n)
  case (Cons c p)
  show ?case
  proof (cases "c_0 \<le> c \<and> c \<le> c_9")
    case True
    then have "range_number (n * 10 + uint c - 48) p = Inr (m, q)"
      using Cons.prems by (auto simp: range_number.simps Let_def sbind_Inr_iff off_Inr_iff split: if_splits)
    then obtain d where "p = d @ q" "list_all is_digit d" using Cons.IH by blast
    then show ?thesis using True by (intro exI [of _ "c # d"]) (simp add: is_digit_def [of c])
  qed (use Cons in \<open>auto simp: range_number.simps\<close>)
qed (simp add: range_number.simps)

lemma range_number_faults:
  "terminated p \<Longrightarrow> 0 \<le> n \<Longrightarrow> n < 10 ^ k \<Longrightarrow>
     range_number n p \<noteq> Inl Read_past_end \<and>
     (range_number n p = Inl Off_overflow \<longrightarrow> (\<exists>d q. p = d @ q \<and> list_all is_digit d \<and> 19 \<le> k + length d))"
proof (induction p arbitrary: n k)
  case (Cons c p)
  show ?case
  proof (cases "c_0 \<le> c \<and> c \<le> c_9")
    case True
    have c: "48 \<le> uint c" "uint c \<le> 57" using True by (simp_all add: word_le_def)
    let ?n = "n * 10 + uint c - 48"
    show ?thesis
    proof (cases "n \<ge> NGX_MAX_OFF_T_VALUE div 10 \<and> (n > NGX_MAX_OFF_T_VALUE div 10 \<or> uint c - 48 > NGX_MAX_OFF_T_VALUE mod 10)")
      case guard: True
      then show ?thesis using True by (simp add: range_number.simps)
    next
      case guard: False
      then have g: "n \<le> 922337203685477580" by (auto simp: NGX_MAX_OFF_T_VALUE_def)
      have eq: "range_number n (c # p) = (if n * 10 + uint c > NGX_MAX_OFF_T_VALUE then Inl Off_overflow else range_number ?n p)"
        using True guard g c Cons.prems(2)
        by (auto simp: range_number.simps Let_def off_def s64_def NGX_MAX_OFF_T_VALUE_def)
      have "18 \<le> k" if "n * 10 + uint c > NGX_MAX_OFF_T_VALUE"
      proof (rule ccontr)
        assume "\<not> 18 \<le> k"
        then have "(10 :: int) ^ k \<le> 10 ^ 17" by (intro power_increasing) simp_all
        then show False using Cons.prems(3) that c by (simp add: NGX_MAX_OFF_T_VALUE_def)
      qed
      moreover have "\<exists>d q. c # p = d @ q \<and> list_all is_digit d \<and> 19 \<le> k + length d" if "18 \<le> k"
        using that True by (intro exI [of _ "[c]"] exI [of _ p]) (simp add: is_digit_def)
      moreover have "terminated p" "0 \<le> ?n" "?n < 10 ^ Suc k"
        using Cons.prems c digit_not_zero [of c] True by auto
      note ih = Cons.IH [OF this]
      have "\<exists>d q. c # p = d @ q \<and> list_all is_digit d \<and> 19 \<le> k + length d"
        if "p = d @ q" "list_all is_digit d" "19 \<le> Suc k + length d" for d q
        using that True by (intro exI [of _ "c # d"] exI [of _ q]) (simp add: is_digit_def [of c])
      ultimately show ?thesis using ih unfolding eq by (auto split: if_splits)
    qed
  qed (auto simp: range_number.simps)
qed simp

text \<open>Faults of a sequence of operations, and of a later position of the same value.\<close>

lemma fault_free_sbind:
  "fault_free p m \<Longrightarrow> (\<And>x. m = Inr x \<Longrightarrow> fault_free p (f x)) \<Longrightarrow> fault_free p (sbind m f)"
  by (cases m) (auto simp: fault_free_def)

lemma fault_free_simps [simp]: "fault_free p (Inr x)" "fault_free p (Inl Not_satisfiable)" "fault_free p (Inl Declined)"
  by (simp_all add: fault_free_def)

lemma fault_free_later: "fault_free q r \<Longrightarrow> (digit_run 19 q \<Longrightarrow> digit_run 19 p) \<Longrightarrow> fault_free p r"
  by (auto simp: fault_free_def)

lemma fault_free_off: "- 9223372036854775808 \<le> x \<Longrightarrow> x \<le> NGX_MAX_OFF_T_VALUE \<Longrightarrow> fault_free p (off x)"
  by (simp add: off_def NGX_MAX_OFF_T_VALUE_def)

lemma fault_free_peek: "terminated p \<Longrightarrow> fault_free q (peek p)"
  using terminated_peek [of p] by auto

lemma fault_free_number: "terminated p \<Longrightarrow> fault_free p (range_number 0 p)"
proof -
  assume "terminated p"
  from range_number_faults [OF this, of 0 0]
  have "range_number 0 p \<noteq> Inl Read_past_end"
    "range_number 0 p = Inl Off_overflow \<Longrightarrow> \<exists>d q. p = d @ q \<and> list_all is_digit d \<and> 19 \<le> length d" by auto
  moreover have "digit_run 19 p" if "p = d @ q" "list_all is_digit d" "19 \<le> length d" for d q
  proof -
    have "p = [] @ take 19 d @ drop 19 d @ q" using that(1) by simp
    moreover have "length (take 19 d) = 19" "list_all is_digit (take 19 d)" using that(2,3) by (auto simp: list_all_iff dest: in_set_takeD)
    ultimately show ?thesis unfolding digit_run_def by blast
  qed
  ultimately show ?thesis by (auto simp: fault_free_def)
qed

lemma number_rest:
  assumes "range_number 0 p = Inr (m, q)" "terminated p"
  shows "terminated q" "digit_run k q \<Longrightarrow> digit_run k p"
proof -
  obtain d where d: "p = d @ q" "list_all is_digit d" using range_number_rest [OF assms(1)] by blast
  have "0 \<notin> set d" using d(2) digit_not_zero by (auto simp: list_all_iff is_digit_def)
  then show "terminated q" using assms(2) d(1) by simp
  show "digit_run k q \<Longrightarrow> digit_run k p" using d(1) by (simp add: digit_run_append)
qed

lemma range_clip_fault_free:
  "0 \<le> cl \<Longrightarrow> cl \<le> NGX_MAX_OFF_T_VALUE \<Longrightarrow> 0 \<le> e \<Longrightarrow> e \<le> NGX_MAX_OFF_T_VALUE \<Longrightarrow> fault_free p (range_clip cl s e suffix)"
  by (auto simp: range_clip_def NGX_MAX_OFF_T_VALUE_def sbind_Inr_iff off_Inr_iff intro!: fault_free_sbind fault_free_off split: if_splits)

lemma range_end_fault_free:
  assumes "0 \<le> cl" "cl \<le> NGX_MAX_OFF_T_VALUE" "terminated p"
  shows "fault_free p (range_end cl s suffix p)"
  unfolding range_end_def Let_def
  using assms fault_free_number [OF assms(3)] number_rest [OF _ assms(3)] range_number_bounds [of 0 p]
  by (auto intro!: fault_free_sbind fault_free_peek range_clip_fault_free terminated_skip simp: NGX_MAX_OFF_T_VALUE_def)

lemma range_spec_fault_free:
  assumes "0 \<le> cl" "cl \<le> NGX_MAX_OFF_T_VALUE" "terminated p"
  shows "fault_free p (range_spec cl p)"
proof -
  let ?p = "skip_sp p"
  have t: "terminated ?p" using assms(3) by (rule terminated_skip)
  have second: "fault_free ?p (sbind (peek (skip_sp (tl q))) (\<lambda>c. if c = c_comma \<or> c = 0 then Inr (s, cl, skip_sp (tl q))
      else range_end cl s False (skip_sp (tl q))))"
    if "peek q = Inr c_minus" "terminated q" "digit_run 19 q \<Longrightarrow> digit_run 19 ?p" for q s
  proof -
    have r: "terminated (skip_sp (tl q))" using terminated_tl [OF that(2,1)] by (simp add: terminated_skip)
    have "fault_free ?p (range_end cl s False (skip_sp (tl q)))"
      using that(3) by (intro fault_free_later [OF range_end_fault_free [OF assms(1,2) r]]) (auto dest: digit_run_skip digit_run_tl)
    then show ?thesis using fault_free_peek [OF r] by (intro fault_free_sbind) auto
  qed
  have suffix: "fault_free ?p (range_end cl 0 True (tl ?p))" if "peek ?p = Inr c_minus"
    using terminated_tl [OF t that] by (intro fault_free_later [OF range_end_fault_free [OF assms(1,2)]]) (auto dest: digit_run_tl)
  have "fault_free ?p (range_spec cl p)"
    unfolding range_spec_def Let_def
  proof (rule fault_free_sbind [OF fault_free_peek [OF t]])
    fix c assume c: "peek ?p = Inr c"
    have "fault_free ?p (sbind (range_number 0 ?p) (\<lambda>(start, p). sbind (peek (skip_sp p)) (\<lambda>c. if c \<noteq> c_minus then Inl Not_satisfiable
        else sbind (peek (skip_sp (tl (skip_sp p)))) (\<lambda>c. if c = c_comma \<or> c = 0 then Inr (start, cl, skip_sp (tl (skip_sp p)))
          else range_end cl start False (skip_sp (tl (skip_sp p)))))))"
    proof (rule fault_free_sbind [OF fault_free_number [OF t]], clarify)
      fix m q assume "range_number 0 ?p = Inr (m, q)"
      note r = number_rest [OF this t]
      show "fault_free ?p (sbind (peek (skip_sp q)) (\<lambda>c. if c \<noteq> c_minus then Inl Not_satisfiable
        else sbind (peek (skip_sp (tl (skip_sp q)))) (\<lambda>c. if c = c_comma \<or> c = 0 then Inr (m, cl, skip_sp (tl (skip_sp q)))
          else range_end cl m False (skip_sp (tl (skip_sp q))))))"
        using fault_free_peek [OF terminated_skip [OF r(1)]] second [of "skip_sp q" m] terminated_skip [OF r(1)] r(2) [of 19]
        by (intro fault_free_sbind) (auto dest: digit_run_skip)
    qed
    then show "fault_free ?p (if c \<noteq> c_minus then if c < c_0 \<or> c > c_9 then Inl Not_satisfiable
        else sbind (range_number 0 ?p) (\<lambda>(start, p). sbind (peek (skip_sp p)) (\<lambda>c. if c \<noteq> c_minus then Inl Not_satisfiable
          else sbind (peek (skip_sp (tl (skip_sp p)))) (\<lambda>c. if c = c_comma \<or> c = 0 then Inr (start, cl, skip_sp (tl (skip_sp p)))
            else range_end cl start False (skip_sp (tl (skip_sp p))))))
      else range_end cl 0 True (tl ?p))"
      using suffix c by simp
  qed
  then show ?thesis by (rule fault_free_later) (rule digit_run_skip)
qed

lemma digit_not_end: "\<not> (c < c_0 \<or> c > c_9) \<Longrightarrow> c \<noteq> (0 :: u8)"
  by (auto simp: word_less_def)

lemma range_end_rest:
  assumes "range_end cl s suffix p = Inr (a, b, q)" "terminated p"
  shows "terminated q" "digit_run k q \<Longrightarrow> digit_run k p"
proof -
  obtain e r where "range_number 0 p = Inr (e, r)" "q = skip_sp r"
    using assms(1) by (auto simp: range_end_def sbind_Inr_iff Let_def split: if_splits)
  with number_rest [OF _ assms(2)] show "terminated q" "digit_run k q \<Longrightarrow> digit_run k p"
    by (auto intro: terminated_skip dest: digit_run_skip)
qed

lemma range_spec_rest:
  assumes "range_spec cl p = Inr (a, b, q)" "terminated p"
  shows "terminated q" "digit_run k q \<Longrightarrow> digit_run k p"
proof -
  let ?p = "skip_sp p"
  have t: "terminated ?p" using assms(2) by (rule terminated_skip)
  have minus: "terminated (skip_sp (tl r))" "digit_run k (skip_sp (tl r)) \<Longrightarrow> digit_run k r"
    if "peek r = Inr c_minus" "terminated r" for r
    using terminated_tl [OF that(2,1)] by (auto intro: terminated_skip dest: digit_run_skip digit_run_tl)
  consider "peek ?p = Inr c_minus" "range_end cl 0 True (tl ?p) = Inr (a, b, q)"
    | m r where "range_number 0 ?p = Inr (m, r)" "peek (skip_sp r) = Inr c_minus" "q = skip_sp (tl (skip_sp r))"
    | m r where "range_number 0 ?p = Inr (m, r)" "peek (skip_sp r) = Inr c_minus" "range_end cl m False (skip_sp (tl (skip_sp r))) = Inr (a, b, q)"
    using assms(1) by (auto simp: range_spec_def sbind_Inr_iff Let_def split: if_splits)
  then have "terminated q \<and> (digit_run k q \<longrightarrow> digit_run k ?p)"
  proof cases
    case 1
    then show ?thesis using terminated_tl [OF t 1(1)] range_end_rest [OF 1(2)] by (auto dest: digit_run_tl)
  next
    case (2 m r)
    then show ?thesis using number_rest [OF 2(1) t] minus [OF 2(2)] by (auto intro: terminated_skip dest: digit_run_skip)
  next
    case (3 m r)
    have "terminated (skip_sp r)" using number_rest(1) [OF 3(1) t] by (rule terminated_skip)
    then show ?thesis using number_rest [OF 3(1) t] minus [OF 3(2)] range_end_rest [OF 3(3)] by (auto dest: digit_run_skip)
  qed
  then show "terminated q" "digit_run k q \<Longrightarrow> digit_run k p" by (auto dest: digit_run_skip)
qed

lemma range_spec_width: "range_spec cl p = Inr (a, b, q) \<Longrightarrow> 0 \<le> cl \<Longrightarrow> cl \<le> NGX_MAX_OFF_T_VALUE \<Longrightarrow>
    b - a \<le> NGX_MAX_OFF_T_VALUE \<and> - NGX_MAX_OFF_T_VALUE \<le> b - a"
proof -
  have e: "range_end cl s f p = Inr (a, b, q) \<Longrightarrow> 0 \<le> s \<Longrightarrow> s \<le> NGX_MAX_OFF_T_VALUE \<Longrightarrow> 0 \<le> cl \<Longrightarrow> cl \<le> NGX_MAX_OFF_T_VALUE \<Longrightarrow>
    b - a \<le> NGX_MAX_OFF_T_VALUE \<and> - NGX_MAX_OFF_T_VALUE \<le> b - a" for s f p
    by (auto simp: range_end_def range_clip_def sbind_Inr_iff off_Inr_iff Let_def NGX_MAX_OFF_T_VALUE_def
        split: if_splits dest!: range_number_bounds)
  then show "range_spec cl p = Inr (a, b, q) \<Longrightarrow> 0 \<le> cl \<Longrightarrow> cl \<le> NGX_MAX_OFF_T_VALUE \<Longrightarrow>
    b - a \<le> NGX_MAX_OFF_T_VALUE \<and> - NGX_MAX_OFF_T_VALUE \<le> b - a"
    by (auto simp: range_spec_def sbind_Inr_iff Let_def NGX_MAX_OFF_T_VALUE_def split: if_splits dest!: range_number_bounds)
qed

lemma range_found_fault_free:
  "b - a \<le> NGX_MAX_OFF_T_VALUE \<Longrightarrow> 0 \<le> sz \<Longrightarrow> fault_free p (range_found a b rs sz n)"
  by (auto simp: range_found_def off_Inr_iff NGX_MAX_OFF_T_VALUE_def intro!: fault_free_sbind fault_free_off)

lemma range_loop_fault_free:
  assumes "0 \<le> cl" "cl \<le> NGX_MAX_OFF_T_VALUE"
  shows "terminated p \<Longrightarrow> 0 \<le> sz \<Longrightarrow> fault_free p (range_loop cl rs sz n p)"
proof (induction "length p" arbitrary: p rs sz n rule: less_induct)
  case less
  show ?case
  proof (cases "range_spec cl p")
    case (Inl e)
    then show ?thesis using range_spec_fault_free [OF assms less.prems(1)] by (subst range_loop.simps) (simp add: fault_free_def)
  next
    case (Inr x)
    then obtain a b q where s: "range_spec cl p = Inr (a, b, q)" by (cases x) auto
    note w = range_spec_width [OF s assms] and r = range_spec_rest [OF s less.prems(1)]
    show ?thesis
    proof (cases "range_found a b rs sz n")
      case (Inl e)
      then show ?thesis using range_found_fault_free [of b a sz p rs n] w less.prems(2) s
        by (subst range_loop.simps) (simp add: fault_free_def)
    next
      case (Inr y)
      then obtain rs2 sz2 n2 where f: "range_found a b rs sz n = Inr (rs2, sz2, n2)" by (cases y) auto
      have sz2: "0 \<le> sz2" using f less.prems(2) by (auto simp: range_found_def sbind_Inr_iff off_Inr_iff split: if_splits)
      obtain c q' where q: "q = c # q'" using r(1) by (cases q) auto
      have "fault_free p (range_loop cl rs2 sz2 n2 q')" if "c = c_comma"
      proof (rule fault_free_later)
        show "fault_free q' (range_loop cl rs2 sz2 n2 q')"
          using less.hyps [of q' sz2] range_spec_length [OF s] q r(1) that sz2 by simp
        show "digit_run 19 q' \<Longrightarrow> digit_run 19 p" using r(2) [of 19] digit_run_tl [of 19 q] q by simp
      qed
      then show ?thesis using s f q by (subst range_loop.simps) simp
    qed
  qed
qed

text \<open>
  C21: The parser never reads past the zero at the end of the value, whatever the value is, and its signed
  arithmetic stays in range unless the value holds a number of nineteen digits or more.
\<close>

theorem range_parse_safe:
  assumes "terminated p" "0 \<le> content_length" "content_length \<le> NGX_MAX_OFF_T_VALUE"
  shows "ngx_http_range_parse content_length ranges p \<noteq> Inl Read_past_end \<and>
     (ngx_http_range_parse content_length ranges p = Inl Off_overflow \<longrightarrow> digit_run 19 p)"
proof -
  have "fault_free p (ngx_http_range_parse content_length ranges p)"
    unfolding ngx_http_range_parse_def
    using range_loop_fault_free [OF assms(2,3,1), of 0] by (intro fault_free_sbind) auto
  then show ?thesis by (simp add: fault_free_def)
qed

theorem range_parse_safe_witness:
  "ngx_http_range_parse 5 1 (asc ''1-'' @ [0]) \<noteq> Inl Read_past_end"
  using range_parse_safe [of "asc ''1-'' @ [0]" 5 1] by (simp add: NGX_MAX_OFF_T_VALUE_def)

text \<open>
  The number 9223372036854775807 is in range, but \<open>start * 10 + *p - '0'\<close> adds the character first: the
  sum is above the greatest \<open>off_t\<close>, which is undefined behaviour.
\<close>

lemma range_parse_overflow:
  "ngx_http_range_parse 100 1 (asc ''9223372036854775807-'' @ [0]) = Inl Off_overflow"
  by code_simp

subsection \<open>What a header means\<close>

text \<open>The three forms of a range, their text, and the part of the content they name.\<close>

datatype byte_range = Between nat nat | From nat | Last nat

fun range_text :: "byte_range \<Rightarrow> bytes" where
  "range_text (Between a b) = num_dec a [] @ c_minus # num_dec b []"
| "range_text (From a) = num_dec a [] @ [c_minus]"
| "range_text (Last n) = c_minus # num_dec n []"

fun ranges_text :: "byte_range list \<Rightarrow> bytes" where
  "ranges_text [] = []"
| "ranges_text [x] = range_text x"
| "ranges_text (x # y # xs) = range_text x @ c_comma # ranges_text (y # xs)"

fun byte_part :: "int \<Rightarrow> byte_range \<Rightarrow> int \<times> int" where
  "byte_part cl (Between a b) = (int a, min (int b + 1) cl)"
| "byte_part cl (From a) = (int a, cl)"
| "byte_part cl (Last n) = (cl - int n, cl)"

definition range_answer :: "int \<Rightarrow> nat \<Rightarrow> byte_range list \<Rightarrow> range_exit + (int \<times> int) list" where
  "range_answer cl ranges xs =
     (let rs = filter (\<lambda>(s, e). s < e) (map (byte_part cl) xs) in
      if length rs > ranges then Inl Declined
      else if rs = [] then Inl Not_satisfiable
      else if range_sum rs > cl then Inl Declined
      else Inr rs)"

fun small_range :: "byte_range \<Rightarrow> bool" where
  "small_range (Between a b) \<longleftrightarrow> a < 10 ^ 15 \<and> b < 10 ^ 15"
| "small_range (From a) \<longleftrightarrow> a < 10 ^ 15"
| "small_range (Last n) \<longleftrightarrow> n < 10 ^ 15"

lemma range_number_text:
  "list_all is_digit d \<Longrightarrow> q \<noteq> [] \<Longrightarrow> \<not> is_digit (hd q) \<Longrightarrow> radix_val 10 digit_val n d < 10 ^ 17 \<Longrightarrow>
     range_number (int n) (d @ q) = Inr (int (radix_val 10 digit_val n d), q)"
proof (induction d arbitrary: n)
  case Nil
  then show ?case by (cases q) (auto simp: range_number.simps is_digit_def)
next
  case (Cons c d)
  have c: "c_0 \<le> c \<and> c \<le> c_9" "48 \<le> uint c" "uint c \<le> 57" using Cons.prems(1) by (simp_all add: is_digit_def word_le_def)
  have u: "int (unat c) = uint c" by simp
  have "48 \<le> unat c" using c(2) u by linarith
  then have v: "int (n * 10 + digit_val c) = int n * 10 + uint c - 48"
    unfolding digit_val_def u [symmetric] by (simp only: of_nat_add of_nat_mult of_nat_diff of_nat_numeral)
  have small: "n * 10 + digit_val c < 10 ^ 17"
    using Cons.prems(4) radix_val_ge [of 10 "n * 10 + digit_val c" digit_val d] by simp
  then have "int (n * 10 + digit_val c) < 10 ^ 17" by (metis of_nat_less_iff of_nat_numeral of_nat_power)
  then have "int n * 10 + uint c - 48 < 10 ^ 17" unfolding v .
  then have "range_number (int n) ((c # d) @ q) = range_number (int (n * 10 + digit_val c)) (d @ q)"
    using c unfolding v by (simp add: range_number.simps Let_def off_def NGX_MAX_OFF_T_VALUE_def)
  also have "\<dots> = Inr (int (radix_val 10 digit_val (n * 10 + digit_val c) d), q)"
    using Cons.prems by (intro Cons.IH) simp_all
  finally show ?case by simp
qed

lemma range_number_dec: "n < 10 ^ 15 \<Longrightarrow> q \<noteq> [] \<Longrightarrow> \<not> is_digit (hd q) \<Longrightarrow> range_number 0 (num_dec n [] @ q) = Inr (int n, q)"
  using range_number_text [of "num_dec n []" q 0] num_dec_digits [of n] by simp

lemma at_digit:
  "skip_sp (num_dec n [] @ q) = num_dec n [] @ q" "peek (num_dec n [] @ q) = Inr (hd (num_dec n []))"
  "hd (num_dec n []) \<noteq> c_minus" "hd (num_dec n []) \<noteq> c_comma" "hd (num_dec n []) \<noteq> 0"
  "\<not> hd (num_dec n []) < c_0" "\<not> c_9 < hd (num_dec n [])"
proof -
  have "num_dec n [] \<noteq> []" "list_all is_digit (num_dec n [])" using num_dec_digits [of n] by simp_all
  then obtain c r where c: "num_dec n [] = c # r" "is_digit c" by (cases "num_dec n []") auto
  have "c \<noteq> c_SP \<and> c \<noteq> c_minus \<and> c \<noteq> c_comma \<and> c \<noteq> 0 \<and> \<not> c < c_0 \<and> \<not> c_9 < c"
    using c(2) by (auto simp: is_digit_def word_le_def word_less_def)
  then show "skip_sp (num_dec n [] @ q) = num_dec n [] @ q" "peek (num_dec n [] @ q) = Inr (hd (num_dec n []))"
    "hd (num_dec n []) \<noteq> c_minus" "hd (num_dec n []) \<noteq> c_comma" "hd (num_dec n []) \<noteq> 0"
    "\<not> hd (num_dec n []) < c_0" "\<not> c_9 < hd (num_dec n [])"
    by (simp_all add: c(1) skip_sp_def peek_def)
qed

text \<open>The end of a range in the text: a comma or the zero.\<close>

definition at_end :: "bytes \<Rightarrow> bool" where
  "at_end q \<longleftrightarrow> q \<noteq> [] \<and> (hd q = c_comma \<or> hd q = 0)"

lemma at_end_simps:
  "at_end q \<Longrightarrow> q \<noteq> []" "at_end q \<Longrightarrow> \<not> is_digit (hd q)" "at_end q \<Longrightarrow> skip_sp q = q" "at_end q \<Longrightarrow> peek q = Inr (hd q)"
  by (cases q; auto simp: at_end_def is_digit_def skip_sp_def peek_def)+

lemma range_spec_text:
  assumes "small_range x" "at_end q" "0 \<le> cl" "cl < 10 ^ 15"
  shows "range_spec cl (range_text x @ q) = Inr (fst (byte_part cl x), snd (byte_part cl x), q)"
proof -
  note e = at_end_simps [OF assms(2)]
  have comma: "hd q = c_comma \<or> hd q = 0" using assms(2) by (simp add: at_end_def)
  have second: "range_end cl s suffix (num_dec b [] @ q) = sbind (range_clip cl s (int b) suffix) (\<lambda>(s, e). Inr (s, e, q))" if "b < 10 ^ 15" for s suffix b
    using comma by (auto simp add: range_end_def at_digit e range_number_dec [OF that] Let_def del: not_less de_Morgan_disj)
  have minus: "skip_sp (c_minus # p) = c_minus # p" "peek (c_minus # p) = Inr c_minus" for p by (simp_all add: skip_sp_def peek_def)
  have d: "\<not> is_digit c_minus" by (simp add: is_digit_def)
  show ?thesis
  proof (cases x)
    case (Between a b)
    then show ?thesis using assms(1,3,4)
      by (simp add: range_spec_def at_digit minus d range_number_dec second Let_def range_clip_def off_def s64_def min_def del: de_Morgan_disj)
  next
    case (From a)
    then show ?thesis using assms(1,3,4) comma
      by (simp add: range_spec_def at_digit minus d range_number_dec e Let_def del: de_Morgan_disj)
  next
    case (Last n)
    then show ?thesis using assms(1,3,4)
      by (simp add: range_spec_def minus second Let_def range_clip_def off_def s64_def)
  qed
qed

lemma byte_part_size:
  "small_range x \<Longrightarrow> 0 \<le> cl \<Longrightarrow> cl < 10 ^ 15 \<Longrightarrow> snd (byte_part cl x) - fst (byte_part cl x) < 10 ^ 15"
  by (cases x) (auto simp: min_def of_nat_less_iff [symmetric] simp del: of_nat_less_iff)

lemma range_found_small:
  assumes "e - s < 10 ^ 15" "0 \<le> sz" "sz \<le> 9000 * 10 ^ 15"
  shows "range_found s e rs sz n =
     (if s < e then if n = 0 then Inl Declined else Inr (rs @ [(s, e)], sz + (e - s), n - 1) else Inr (rs, sz, n))"
  using assms by (auto simp: range_found_def off_def s64_def NGX_MAX_OFF_T_VALUE_def)

definition kept :: "int \<Rightarrow> byte_range list \<Rightarrow> (int \<times> int) list" where
  "kept cl xs = filter (\<lambda>(s, e). s < e) (map (byte_part cl) xs)"

lemma range_loop_text:
  assumes "0 \<le> cl" "cl < 10 ^ 15"
  shows "xs \<noteq> [] \<Longrightarrow> list_all small_range xs \<Longrightarrow> 0 \<le> sz \<Longrightarrow> sz + int (length xs) * 10 ^ 15 \<le> 9000 * 10 ^ 15 \<Longrightarrow>
    range_loop cl rs sz n (ranges_text xs @ [0]) =
      (if length (kept cl xs) > n then Inl Declined else Inr (rs @ kept cl xs, sz + range_sum (kept cl xs)))"
proof (induction xs arbitrary: rs sz n)
  case (Cons x xs)
  note IH = Cons.IH and prems = Cons.prems
  obtain s e where b: "byte_part cl x = (s, e)" by (cases "byte_part cl x")
  have size: "e - s < 10 ^ 15" using byte_part_size [of x cl] prems(2) assms b by simp
  have f: "range_found s e rs sz n =
     (if s < e then if n = 0 then Inl Declined else Inr (rs @ [(s, e)], sz + (e - s), n - 1) else Inr (rs, sz, n))"
    using prems(3,4) by (intro range_found_small [OF size]) simp_all
  have k: "kept cl (x # xs) = (if s < e then (s, e) # kept cl xs else kept cl xs)" by (simp add: kept_def b)
  show ?case
  proof (cases xs)
    case Nil
    have "range_spec cl (range_text x @ [0]) = Inr (s, e, [0])"
      using range_spec_text [of x "[0]" cl] prems(2) assms b by (simp add: at_end_def)
    then show ?thesis using f k Nil by (subst range_loop.simps) (simp add: kept_def range_sum_def)
  next
    case (Cons y ys)
    let ?q = "c_comma # ranges_text xs @ [0]"
    have "range_spec cl (range_text x @ ?q) = Inr (s, e, ?q)"
      using range_spec_text [of x ?q cl] prems(2) assms b by (simp add: at_end_def)
    moreover have "ranges_text (x # xs) @ [0] = range_text x @ ?q" using Cons by simp
    ultimately have step: "range_loop cl rs sz n (ranges_text (x # xs) @ [0]) =
      (if s < e then if n = 0 then Inl Declined else range_loop cl (rs @ [(s, e)]) (sz + (e - s)) (n - 1) (ranges_text xs @ [0])
       else range_loop cl rs sz n (ranges_text xs @ [0]))"
      using f by (subst range_loop.simps) simp
    have ih: "range_loop cl rs2 sz2 n2 (ranges_text xs @ [0]) =
        (if length (kept cl xs) > n2 then Inl Declined else Inr (rs2 @ kept cl xs, sz2 + range_sum (kept cl xs)))"
      if "0 \<le> sz2" "sz2 \<le> sz + 10 ^ 15" for rs2 sz2 n2
      using IH [of sz2 rs2 n2] Cons prems(2,4) that by simp
    show ?thesis unfolding step k using ih size prems(3) by (auto simp: range_sum_def)
  qed
qed simp

text \<open>
  C20: A printed header of up to 9000 ranges with numbers below 10^15 is answered as its ranges say: those that
  name a non-empty part of the content are kept in their order; too many of them, or more bytes than the
  content has, and the header is ignored; none of them, and it is not satisfiable.
\<close>

theorem range_parse_printed:
  assumes "xs \<noteq> []" "length xs \<le> 9000" "list_all small_range xs" "0 \<le> content_length" "content_length < 10 ^ 15"
  shows "ngx_http_range_parse content_length ranges (ranges_text xs @ [0]) = range_answer content_length ranges xs"
proof -
  have "int (length xs) * 10 ^ 15 \<le> 9000 * 10 ^ 15" using assms(2) by simp
  then have "range_loop content_length [] 0 ranges (ranges_text xs @ [0]) =
      (if length (kept content_length xs) > ranges then Inl Declined
       else Inr (kept content_length xs, range_sum (kept content_length xs)))"
    using range_loop_text [OF assms(4,5,1,3), of 0 "[]" ranges] by simp
  then show ?thesis by (simp add: ngx_http_range_parse_def range_answer_def kept_def Let_def)
qed

theorem range_parse_printed_witness:
  "ngx_http_range_parse 1000 3 (ranges_text [Between 0 9, Between 2000 2001, Last 100, From 990] @ [0]) =
     Inr [(0, 10), (900, 1000), (990, 1000)]"
proof -
  have "range_answer 1000 3 [Between 0 9, Between 2000 2001, Last 100, From 990] = Inr [(0, 10), (900, 1000), (990, 1000)]"
    by code_simp
  then show ?thesis using range_parse_printed [of "[Between 0 9, Between 2000 2001, Last 100, From 990]" 1000 3] by simp
qed

end
