(* ===== verification/Ngx_Range_Filter.thy ===== *)
theory Ngx_Range_Filter
  imports Ngx_Range Ngx_Time Ngx_Buf
begin

text \<open>
  The range filters of \<open>src/http/modules/ngx_http_range_filter_module.c\<close>: the header filter, which turns a
  response into a partial one, and the body filter, which cuts the ranges out of the body.  The request is
  the record of the fields the filters read and write; a header that is added is the value it gets, a
  header that is cleared is \<open>None\<close> or \<open>False\<close>.  Allocations do not fail.  The bytes of \<open>ngx_sprintf\<close> must
  fit in the memory that was allocated for them; where they do not, the result is the fault \<open>Overflow\<close>.
\<close>

subsection \<open>The state of a request\<close>

record ngx_http_range =
  range_start :: int
  range_last :: int
  content_range_text :: bytes

record ngx_http_range_filter_ctx =
  ctx_offset :: int
  boundary_header :: bytes
  ctx_ranges :: "ngx_http_range list"

type_synonym range_ctx = ngx_http_range_filter_ctx

record range_request =
  http_version :: nat
  r_main :: bool
  main_ctx :: "range_ctx option"
  range_ctx :: "range_ctx option"
  subrequest_ranges :: bool
  allow_ranges :: bool
  single_range :: bool
  max_ranges :: nat
  in_range :: "bytes option"
  in_if_range :: "bytes option"
  status :: int
  content_length_n :: int
  content_length_header :: bool
  content_offset :: int
  last_modified_time :: int
  out_etag :: "bytes option"
  content_type :: bytes
  content_type_len :: nat
  charset :: bytes
  content_range :: "bytes option"
  accept_ranges :: bool

datatype header_verdict = Next_filter range_request | Return int range_request

definition NGX_HTTP_VERSION_10 :: nat where "NGX_HTTP_VERSION_10 = 1000"
definition NGX_HTTP_OK :: int where "NGX_HTTP_OK = 200"
definition NGX_HTTP_PARTIAL_CONTENT :: int where "NGX_HTTP_PARTIAL_CONTENT = 206"
definition NGX_HTTP_RANGE_NOT_SATISFIABLE :: int where "NGX_HTTP_RANGE_NOT_SATISFIABLE = 416"
definition NGX_OFF_T_LEN :: nat where "NGX_OFF_T_LEN = 20"
definition NGX_ATOMIC_T_LEN :: nat where "NGX_ATOMIC_T_LEN = 20"

subsection \<open>The header filter\<close>

definition range_not_satisfiable :: "range_request \<Rightarrow> fault + header_verdict" where
  "range_not_satisfiable r =
     (let r = r\<lparr>status := NGX_HTTP_RANGE_NOT_SATISFIABLE\<rparr> in
      sbind (ngx_sprintf (8 + NGX_OFF_T_LEN) (asc ''bytes */%O'') [VA_int (content_length_n r)]) (\<lambda>v.
      let r = r\<lparr>content_range := Some v\<rparr>;
          r = r\<lparr>content_length_n := -1, content_length_header := False\<rparr>
      in Inr (Return NGX_HTTP_RANGE_NOT_SATISFIABLE r)))"

definition range_singlepart_header :: "range_request \<Rightarrow> range_ctx \<Rightarrow> fault + header_verdict" where
  "range_singlepart_header r ctx =
     (if \<not> r_main r then Inr (Next_filter r)
      else
        (let rg = hd (ctx_ranges ctx) in
         sbind (ngx_sprintf (8 + 3 * NGX_OFF_T_LEN) (asc ''bytes %O-%O/%O'')
           [VA_int (range_start rg), VA_int (range_last rg - 1), VA_int (content_length_n r)]) (\<lambda>v.
         Inr (Next_filter (r\<lparr>content_range := Some v,
           content_length_n := range_last rg - range_start rg, content_offset := range_start rg,
           content_length_header := False\<rparr>)))))"

text \<open>The text of one range of a multipart response, and \<open>len\<close> after it.\<close>

fun multipart_ranges :: "int \<Rightarrow> nat \<Rightarrow> nat \<Rightarrow> ngx_http_range list \<Rightarrow> fault + ngx_http_range list \<times> nat" where
  "multipart_ranges content_length hlen len [] = Inr ([], len)"
| "multipart_ranges content_length hlen len (rg # ranges) =
     sbind (ngx_sprintf (3 * NGX_OFF_T_LEN + 2 + 4) (asc ''%O-%O/%O'' @ CRLF @ CRLF)
       [VA_int (range_start rg), VA_int (range_last rg - 1), VA_int content_length]) (\<lambda>text.
     let len = (len + hlen + length text + nat (range_last rg - range_start rg)) mod 2 ^ 64 in
     sbind (multipart_ranges content_length hlen len ranges) (\<lambda>(ranges, len).
     Inr (rg\<lparr>content_range_text := text\<rparr> # ranges, len)))"

text \<open>\<open>boundary\<close> is the answer of \<open>ngx_next_temp_number\<close>, below \<open>2 ^ 64\<close>.\<close>

definition range_multipart_header :: "nat \<Rightarrow> range_request \<Rightarrow> range_ctx \<Rightarrow> fault + header_verdict" where
  "range_multipart_header boundary r ctx =
     (let with_charset = (content_type_len r = length (content_type r) \<and> charset r \<noteq> []);
          len = 4 + NGX_ATOMIC_T_LEN + 16 + length (content_type r) + 23;
          len = (if with_charset then len + 10 + length (charset r) else len)
      in
      sbind
        (if with_charset then
           ngx_sprintf len (CRLF @ asc ''--%0muA'' @ CRLF @ asc ''Content-Type: %V; charset=%V'' @ CRLF @ asc ''Content-Range: bytes '')
             [VA_uint boundary, VA_str (content_type r), VA_str (charset r)]
         else if content_type r \<noteq> [] then
           ngx_sprintf len (CRLF @ asc ''--%0muA'' @ CRLF @ asc ''Content-Type: %V'' @ CRLF @ asc ''Content-Range: bytes '')
             [VA_uint boundary, VA_str (content_type r)]
         else
           ngx_sprintf len (CRLF @ asc ''--%0muA'' @ CRLF @ asc ''Content-Range: bytes '') [VA_uint boundary]) (\<lambda>header.
      let ctx = ctx\<lparr>boundary_header := header\<rparr> in
      sbind (ngx_sprintf (45 + NGX_ATOMIC_T_LEN) (asc ''multipart/byteranges; boundary=%0muA'') [VA_uint boundary]) (\<lambda>ctype.
      let r = r\<lparr>content_type := ctype, content_type_len := length ctype, charset := []\<rparr>;
          len = 4 + NGX_ATOMIC_T_LEN + 4
      in
      sbind (multipart_ranges (content_length_n r) (length header) len (ctx_ranges ctx)) (\<lambda>(ranges, len).
      Inr (Next_filter (r\<lparr>range_ctx := Some (ctx\<lparr>ctx_ranges := ranges\<rparr>), content_length_n := int len,
        content_length_header := False\<rparr>))))))"

text \<open>The ranges: the ones of the main request for a subrequest of it, or the ones of the header.\<close>

definition range_parse :: "range_request \<Rightarrow> nat \<Rightarrow> bytes \<Rightarrow> range_exit + ngx_http_range list" where
  "range_parse r ranges value =
     (case (if r_main r then None else main_ctx r) of
        Some mctx \<Rightarrow> Inr (ctx_ranges mctx)
      | None \<Rightarrow>
          sbind (ngx_http_range_parse (content_length_n r) ranges (drop 6 value @ [0])) (\<lambda>rs.
          Inr (map (\<lambda>(start, end). \<lparr>range_start = start, range_last = end, content_range_text = []\<rparr>) rs)))"

text \<open>The part from the label \<open>next_filter\<close>, and the part from the label \<open>parse\<close>.\<close>

definition range_next_filter :: "range_request \<Rightarrow> fault + header_verdict" where
  "range_next_filter r = Inr (Next_filter (r\<lparr>accept_ranges := True\<rparr>))"

datatype parse_outcome = Parse_fault range_exit | Parsed "fault + header_verdict"

definition range_parse_label :: "nat \<Rightarrow> range_request \<Rightarrow> bytes \<Rightarrow> parse_outcome" where
  "range_parse_label boundary r value =
     (let ranges = (if single_range r then 1 else max_ranges r) in
      case range_parse r ranges value of
        Inr rs \<Rightarrow>
          (let ctx = \<lparr>ctx_offset = content_offset r, boundary_header = [], ctx_ranges = rs\<rparr>;
               r = r\<lparr>range_ctx := Some ctx, status := NGX_HTTP_PARTIAL_CONTENT\<rparr>
           in Parsed (if length rs = 1 then range_singlepart_header r ctx else range_multipart_header boundary r ctx))
      | Inl Not_satisfiable \<Rightarrow> Parsed (range_not_satisfiable r)
      | Inl Declined \<Rightarrow> Parsed (range_next_filter r)
      | Inl e \<Rightarrow> Parse_fault e)"

text \<open>
  \<open>If-Range\<close>: an entity tag must be the one of the response, a date the time of its last change.  \<open>None\<close>
  is a read outside the value or the tag.
\<close>

definition if_range_matches :: "range_request \<Rightarrow> bytes \<Rightarrow> bool option" where
  "if_range_matches r v =
     (if length v \<ge> 2 \<and> last v = c_quot then
        (case out_etag r of
           None \<Rightarrow> Some False
         | Some etag \<Rightarrow>
             if length v \<noteq> length etag then Some False
             else map_option (\<lambda>rc. rc = 0) (strncmp v etag (length etag)))
      else if last_modified_time r = -1 then Some False
      else map_option (\<lambda>t. t = last_modified_time r) (ngx_parse_http_time v))"

definition ngx_http_range_header_filter :: "nat \<Rightarrow> range_request \<Rightarrow> parse_outcome" where
  "ngx_http_range_header_filter boundary r =
     (if http_version r < NGX_HTTP_VERSION_10 \<or> status r \<noteq> NGX_HTTP_OK \<or> (\<not> r_main r \<and> \<not> subrequest_ranges r) \<or>
         content_length_n r = -1 \<or> \<not> allow_ranges r
      then Parsed (Inr (Next_filter r))
      else if max_ranges r = 0 then Parsed (Inr (Next_filter r))
      else
        case in_range r of
          None \<Rightarrow> Parsed (range_next_filter r)
        | Some value \<Rightarrow>
            if length value < 7 then Parsed (range_next_filter r)
            else
              case ngx_strncasecmp value (asc ''bytes='') 6 of
                None \<Rightarrow> Parse_fault Read_past_end
              | Some rc \<Rightarrow>
                  if rc \<noteq> 0 then Parsed (range_next_filter r)
                  else
                    case in_if_range r of
                      None \<Rightarrow> range_parse_label boundary r value
                    | Some v \<Rightarrow>
                        (case if_range_matches r v of
                           None \<Rightarrow> Parse_fault Read_past_end
                         | Some ok \<Rightarrow> if ok then range_parse_label boundary r value else Parsed (range_next_filter r)))"

subsection \<open>The body filter\<close>

datatype body_verdict = Body_next "chain_buf list" | Body_ok | Body_error

text \<open>\<open>buf->pos\<close> and \<open>buf->file_pos\<close> go forward, \<open>buf->last\<close> and \<open>buf->file_last\<close> go back.\<close>

definition buf_skip :: "int \<Rightarrow> chain_buf \<Rightarrow> chain_buf" where
  "buf_skip n b = b\<lparr>in_file := map_option (\<lambda>(fp, fl). (fp + n, fl)) (in_file b), in_memory := map_option (drop (nat n)) (in_memory b)\<rparr>"

definition buf_cut :: "int \<Rightarrow> chain_buf \<Rightarrow> chain_buf" where
  "buf_cut n b =
     b\<lparr>in_file := map_option (\<lambda>(fp, fl). (fp, fl - n)) (in_file b),
       in_memory := map_option (\<lambda>d. take (length d - nat n) d) (in_memory b)\<rparr>"

text \<open>A buffer outside the range is emptied where it is.\<close>

definition buf_empty :: "chain_buf \<Rightarrow> chain_buf" where
  "buf_empty b =
     b\<lparr>in_file := map_option (\<lambda>(fp, fl). (fl, fl)) (in_file b), in_memory := map_option (\<lambda>_. []) (in_memory b), b_sync := True\<rparr>"

text \<open>
  The chain behind the link \<open>ll\<close>: whether it has been linked anew by \<open>*ll = cl\<close>, and its buffers.  Where it has
  not, the link still leads through the buffers that were emptied.
\<close>

fun range_singlepart_loop :: "ngx_http_range \<Rightarrow> int \<Rightarrow> chain_buf list \<Rightarrow> bool \<times> chain_buf list \<times> int" where
  "range_singlepart_loop rg offset [] = (False, [], offset)"
| "range_singlepart_loop rg offset (buf # cl) =
     (let start = offset; last = offset + ngx_buf_size buf in
      if ngx_buf_special buf then
        (let (_, out, offset) = range_singlepart_loop rg last cl in (True, buf # out, offset))
      else if range_last rg \<le> start \<or> range_start rg \<ge> last then
        (let (linked, out, offset) = range_singlepart_loop rg last cl in
         (linked, if linked then out else buf_empty buf # out, offset))
      else
        (let buf = (if range_start rg > start then buf_skip (range_start rg - start) buf else buf) in
         if range_last rg \<le> last then
           (True, [(buf_cut (last - range_last rg) buf)\<lparr>b_last := True\<rparr>], last)
         else
           (let (_, out, offset) = range_singlepart_loop rg last cl in (True, buf # out, offset))))"

definition range_singlepart_body :: "range_ctx \<Rightarrow> chain_buf list \<Rightarrow> body_verdict \<times> range_ctx" where
  "range_singlepart_body ctx chain =
     (let (linked, out, offset) = range_singlepart_loop (hd (ctx_ranges ctx)) (ctx_offset ctx) chain in
      (if linked then Body_next out else Body_ok, ctx\<lparr>ctx_offset := offset\<rparr>))"

definition range_test_overlapped :: "range_ctx \<Rightarrow> chain_buf \<Rightarrow> range_ctx option" where
  "range_test_overlapped ctx buf =
     (if ctx_offset ctx \<noteq> 0 then None
      else if \<not> b_last buf \<and>
        (\<exists>rg\<in>set (ctx_ranges ctx). ctx_offset ctx > range_start rg \<or> ctx_offset ctx + ngx_buf_size buf < range_last rg)
      then None
      else Some (ctx\<lparr>ctx_offset := ngx_buf_size buf\<rparr>))"

definition range_data_buf :: "chain_buf \<Rightarrow> ngx_http_range \<Rightarrow> chain_buf" where
  "range_data_buf buf rg =
     \<lparr>in_memory = map_option (\<lambda>d. take (nat (range_last rg) - nat (range_start rg)) (drop (nat (range_start rg)) d)) (in_memory buf),
      in_file = map_option (\<lambda>(fp, fl). (fp + range_start rg, fp + range_last rg)) (in_file buf),
      b_flush = False, b_last = False, b_sync = False\<rparr>"

definition range_multipart_body :: "range_ctx \<Rightarrow> chain_buf list \<Rightarrow> body_verdict" where
  "range_multipart_body ctx chain =
     Body_next
       (concat (map (\<lambda>rg. [memory_buf (boundary_header ctx), memory_buf (content_range_text rg), range_data_buf (hd chain) rg])
          (ctx_ranges ctx)) @
        [(memory_buf (take (4 + NGX_ATOMIC_T_LEN) (boundary_header ctx) @ [c_minus, c_minus, c_CR, c_LF]))\<lparr>b_last := True\<rparr>])"

definition ngx_http_range_body_filter :: "range_ctx option \<Rightarrow> chain_buf list \<Rightarrow> body_verdict \<times> range_ctx option" where
  "ngx_http_range_body_filter ctx chain =
     (case ctx of
        None \<Rightarrow> (Body_next chain, None)
      | Some c \<Rightarrow>
          if chain = [] then (Body_next chain, ctx)
          else if length (ctx_ranges c) = 1 then map_prod id Some (range_singlepart_body c chain)
          else if ngx_buf_special (hd chain) then (Body_next chain, ctx)
          else
            (case range_test_overlapped c (hd chain) of
               None \<Rightarrow> (Body_error, ctx)
             | Some c \<Rightarrow> (range_multipart_body c chain, Some c)))"

subsection \<open>The texts\<close>

definition dec_pad :: "nat \<Rightarrow> bytes" where
  "dec_pad n = replicate (20 - length (num_dec n [])) c_0 @ num_dec n []"

lemma dec_length: "n < 2 ^ 64 \<Longrightarrow> length (num_dec n []) \<le> 20"
  using num_dec_length [of n 19] by simp

lemma dec_pad_length: "n < 2 ^ 64 \<Longrightarrow> length (dec_pad n) = 20"
  using dec_length [of n] by (simp add: dec_pad_def)

lemma fmt_O: "0 < room \<Longrightarrow> 0 \<le> i \<Longrightarrow> length (num_dec (nat i) []) \<le> room \<Longrightarrow>
    ngx_vslprintf (c_pct # 0x4F # fmt) (VA_int i # args) (out, room) =
      ngx_vslprintf fmt args (out @ num_dec (nat i) [], room - length (num_dec (nat i) []))"
  by (subst ngx_vslprintf.simps)
    (simp add: vslprintf_step_def parse_spec_def conv_step_def conv_text_def num_value_def print_num_def sprintf_num_dec)

lemma fmt_0muA: "20 \<le> room \<Longrightarrow> n < 2 ^ 64 \<Longrightarrow>
    ngx_vslprintf (c_pct # c_0 # 0x6D # 0x75 # 0x41 # fmt) (VA_uint n # args) (out, room) =
      ngx_vslprintf fmt args (out @ dec_pad n, room - 20)"
  using dec_length [of n]
  by (subst ngx_vslprintf.simps)
    (simp add: vslprintf_step_def parse_spec_def conv_step_def conv_text_def num_value_def print_num_def sprintf_num_dec
      dec_pad_def NGX_INT64_LEN_def Let_def max_def)

lemma off_dec_length: "i \<le> NGX_MAX_OFF_T_VALUE \<Longrightarrow> length (num_dec (nat i) []) \<le> 20"
  by (intro dec_length) (simp add: NGX_MAX_OFF_T_VALUE_def nat_less_iff)

definition range_value :: "int \<Rightarrow> int \<Rightarrow> int \<Rightarrow> bytes" where
  "range_value s e cl = num_dec (nat s) [] @ c_minus # num_dec (nat (e - 1)) [] @ c_slash # num_dec (nat cl) []"

lemma range_value_length: "s \<le> NGX_MAX_OFF_T_VALUE \<Longrightarrow> e \<le> NGX_MAX_OFF_T_VALUE \<Longrightarrow> cl \<le> NGX_MAX_OFF_T_VALUE \<Longrightarrow> length (range_value s e cl) \<le> 62"
  using off_dec_length [of s] off_dec_length [of "e - 1"] off_dec_length [of cl] by (simp add: range_value_def)

lemma single_text:
  assumes "0 \<le> s" "s < e" "e \<le> cl" "cl \<le> NGX_MAX_OFF_T_VALUE"
  shows "ngx_sprintf (8 + 3 * NGX_OFF_T_LEN) (asc ''bytes %O-%O/%O'') [VA_int s, VA_int (e - 1), VA_int cl] =
    Inr (asc ''bytes '' @ range_value s e cl)"
  using assms off_dec_length [of s] off_dec_length [of "e - 1"] off_dec_length [of cl]
  by (simp add: ngx_sprintf_def ADDRESS_ROOM_def fmt_char fmt_O fmt_end NGX_OFF_T_LEN_def range_value_def)

lemma part_text:
  assumes "0 \<le> s" "s < e" "e \<le> cl" "cl \<le> NGX_MAX_OFF_T_VALUE"
  shows "ngx_sprintf (3 * NGX_OFF_T_LEN + 2 + 4) (asc ''%O-%O/%O'' @ CRLF @ CRLF) [VA_int s, VA_int (e - 1), VA_int cl] =
    Inr (range_value s e cl @ CRLF @ CRLF)"
  using assms off_dec_length [of s] off_dec_length [of "e - 1"] off_dec_length [of cl]
  by (simp add: ngx_sprintf_def ADDRESS_ROOM_def CRLF_def fmt_char fmt_O fmt_end NGX_OFF_T_LEN_def range_value_def)

lemma unsatisfiable_text:
  "0 \<le> cl \<Longrightarrow> cl \<le> NGX_MAX_OFF_T_VALUE \<Longrightarrow>
    ngx_sprintf (8 + NGX_OFF_T_LEN) (asc ''bytes */%O'') [VA_int cl] = Inr (asc ''bytes */'' @ num_dec (nat cl) [])"
  using off_dec_length [of cl]
  by (simp add: ngx_sprintf_def ADDRESS_ROOM_def fmt_char fmt_O fmt_end NGX_OFF_T_LEN_def)

definition boundary_text :: "nat \<Rightarrow> range_request \<Rightarrow> bytes" where
  "boundary_text boundary r =
     CRLF @ asc ''--'' @ dec_pad boundary @ CRLF @
     (if content_type_len r = length (content_type r) \<and> charset r \<noteq> []
      then asc ''Content-Type: '' @ content_type r @ asc ''; charset='' @ charset r @ CRLF
      else if content_type r \<noteq> [] then asc ''Content-Type: '' @ content_type r @ CRLF else []) @
     asc ''Content-Range: bytes ''"

lemma boundary_header_text:
  assumes "boundary < 2 ^ 64" "length (content_type r) \<le> 2 ^ 30" "length (charset r) \<le> 2 ^ 30"
  defines "with_charset \<equiv> content_type_len r = length (content_type r) \<and> charset r \<noteq> []"
  defines "len \<equiv> 4 + NGX_ATOMIC_T_LEN + 16 + length (content_type r) + 23"
  shows "(if with_charset then
           ngx_sprintf (if with_charset then len + 10 + length (charset r) else len)
             (CRLF @ asc ''--%0muA'' @ CRLF @ asc ''Content-Type: %V; charset=%V'' @ CRLF @ asc ''Content-Range: bytes '')
             [VA_uint boundary, VA_str (content_type r), VA_str (charset r)]
         else if content_type r \<noteq> [] then
           ngx_sprintf (if with_charset then len + 10 + length (charset r) else len)
             (CRLF @ asc ''--%0muA'' @ CRLF @ asc ''Content-Type: %V'' @ CRLF @ asc ''Content-Range: bytes '')
             [VA_uint boundary, VA_str (content_type r)]
         else
           ngx_sprintf (if with_charset then len + 10 + length (charset r) else len)
             (CRLF @ asc ''--%0muA'' @ CRLF @ asc ''Content-Range: bytes '') [VA_uint boundary]) =
    Inr (boundary_text boundary r)"
  using assms(1-3)
  by (auto simp: ngx_sprintf_def ADDRESS_ROOM_def CRLF_def fmt_char fmt_V fmt_0muA fmt_end boundary_text_def
      dec_pad_length NGX_ATOMIC_T_LEN_def with_charset_def len_def)

lemma multipart_type_text:
  "boundary < 2 ^ 64 \<Longrightarrow> ngx_sprintf (45 + NGX_ATOMIC_T_LEN) (asc ''multipart/byteranges; boundary=%0muA'') [VA_uint boundary] =
     Inr (asc ''multipart/byteranges; boundary='' @ dec_pad boundary)"
  by (simp add: ngx_sprintf_def ADDRESS_ROOM_def fmt_char fmt_0muA fmt_end dec_pad_length NGX_ATOMIC_T_LEN_def)

text \<open>The parts of a multipart body, and the number that is sent as its length.\<close>

definition part_length :: "nat \<Rightarrow> int \<Rightarrow> ngx_http_range \<Rightarrow> nat" where
  "part_length hlen cl rg =
     hlen + length (range_value (range_start rg) (range_last rg) cl) + 4 + nat (range_last rg - range_start rg)"

definition range_ok :: "int \<Rightarrow> ngx_http_range \<Rightarrow> bool" where
  "range_ok cl rg \<longleftrightarrow> 0 \<le> range_start rg \<and> range_start rg < range_last rg \<and> range_last rg \<le> cl"

definition with_text :: "int \<Rightarrow> ngx_http_range \<Rightarrow> ngx_http_range" where
  "with_text cl rg = rg\<lparr>content_range_text := range_value (range_start rg) (range_last rg) cl @ CRLF @ CRLF\<rparr>"

lemma multipart_ranges_text:
  "list_all (range_ok cl) rs \<Longrightarrow> cl \<le> NGX_MAX_OFF_T_VALUE \<Longrightarrow> len + sum_list (map (part_length hlen cl) rs) < 2 ^ 64 \<Longrightarrow>
     multipart_ranges cl hlen len rs = Inr (map (with_text cl) rs, len + sum_list (map (part_length hlen cl) rs))"
proof (induction rs arbitrary: len)
  case (Cons rg rs)
  have "multipart_ranges cl hlen (len + part_length hlen cl rg) rs =
      Inr (map (with_text cl) rs, len + part_length hlen cl rg + sum_list (map (part_length hlen cl) rs))"
    using Cons by simp
  moreover have "(len + hlen + length (range_value (range_start rg) (range_last rg) cl @ CRLF @ CRLF) +
      nat (range_last rg - range_start rg)) mod 2 ^ 64 = len + part_length hlen cl rg"
    using Cons.prems(3) by (simp add: part_length_def CRLF_def algebra_simps)
  ultimately show ?case
    using Cons.prems part_text [of "range_start rg" "range_last rg" cl]
    by (simp add: range_ok_def Let_def with_text_def)
qed simp

definition multipart_length :: "nat \<Rightarrow> range_request \<Rightarrow> ngx_http_range list \<Rightarrow> nat" where
  "multipart_length boundary r rs =
     28 + sum_list (map (part_length (length (boundary_text boundary r)) (content_length_n r)) rs)"

lemma multipart_header_text:
  assumes "boundary < 2 ^ 64" "length (content_type r) \<le> 2 ^ 30" "length (charset r) \<le> 2 ^ 30"
    and "list_all (range_ok (content_length_n r)) (ctx_ranges ctx)" "content_length_n r \<le> NGX_MAX_OFF_T_VALUE"
    and "multipart_length boundary r (ctx_ranges ctx) < 2 ^ 63"
  shows "range_multipart_header boundary r ctx =
    Inr (Next_filter (r\<lparr>content_type := asc ''multipart/byteranges; boundary='' @ dec_pad boundary,
      content_type_len := 51, charset := [],
      range_ctx := Some (ctx\<lparr>boundary_header := boundary_text boundary r, ctx_ranges := map (with_text (content_length_n r)) (ctx_ranges ctx)\<rparr>),
      content_length_n := int (multipart_length boundary r (ctx_ranges ctx)), content_length_header := False\<rparr>))"
proof -
  let ?h = "length (boundary_text boundary r)"
  have len: "4 + NGX_ATOMIC_T_LEN + 4 + sum_list (map (part_length ?h (content_length_n r)) (ctx_ranges ctx)) < 2 ^ 64"
    using assms(6) by (simp add: multipart_length_def NGX_ATOMIC_T_LEN_def)
  note parts = multipart_ranges_text [OF assms(4,5) len]
  show ?thesis
    unfolding range_multipart_header_def Let_def boundary_header_text [OF assms(1-3)] multipart_type_text [OF assms(1)] sbind_simps
    using parts assms(1)
    by (simp add: multipart_length_def NGX_ATOMIC_T_LEN_def dec_pad_length)
qed

subsection \<open>The bytes of a body\<close>

lemma buf_empty_bytes [simp]: "buf_bytes f (buf_empty b) = []"
  by (simp add: buf_empty_def buf_bytes_def file_bytes_def split: option.splits)

lemma buf_skip_bytes:
  "good_buf f b \<Longrightarrow> 0 \<le> n \<Longrightarrow> n \<le> ngx_buf_size b \<Longrightarrow> good_buf f (buf_skip n b) \<and> buf_bytes f (buf_skip n b) = drop (nat n) (buf_bytes f b)"
  by (auto simp: good_buf_def ngx_buf_size_def buf_bytes_def file_bytes_def buf_skip_def nat_add_distrib drop_take
      nat_diff_distrib algebra_simps split: option.splits)

lemma file_bytes_cut:
  assumes "0 \<le> fp" "fp \<le> fl" "fl \<le> int (length f)" "0 \<le> n" "n \<le> fl - fp"
  shows "file_bytes f (fp, fl - n) = take (length (file_bytes f (fp, fl)) - nat n) (file_bytes f (fp, fl))"
proof -
  have "length (file_bytes f (fp, fl)) = nat (fl - fp)" using assms(1-3) by (simp add: file_bytes_def nat_diff_distrib')
  moreover have "nat (fl - n - fp) = nat (fl - fp) - nat n" using assms(4,5) by (simp add: nat_diff_distrib' algebra_simps)
  ultimately show ?thesis by (simp add: file_bytes_def)
qed

lemma buf_cut_bytes:
  "good_buf f b \<Longrightarrow> 0 \<le> n \<Longrightarrow> n \<le> ngx_buf_size b \<Longrightarrow>
     buf_bytes f (buf_cut n b) = take (length (buf_bytes f b) - nat n) (buf_bytes f b)"
  using file_bytes_cut [where f = f and n = n]
  by (auto simp: good_buf_def ngx_buf_size_def buf_bytes_def buf_cut_def split: option.splits)

text \<open>The bytes of \<open>D\<close>, the first of which is at the offset \<open>o\<close>, that lie in the range.\<close>

definition in_range_of :: "ngx_http_range \<Rightarrow> int \<Rightarrow> bytes \<Rightarrow> bytes" where
  "in_range_of rg pos D = take (nat (range_last rg - pos) - nat (range_start rg - pos)) (drop (nat (range_start rg - pos)) D)"

lemma in_range_of_append:
  assumes "range_start rg < range_last rg"
  shows "in_range_of rg pos (A @ B) = in_range_of rg pos A @ in_range_of rg (pos + int (length A)) B"
proof -
  have "nat (range_start rg - (pos + int (length A))) = nat (range_start rg - pos) - length A"
    "nat (range_last rg - (pos + int (length A))) = nat (range_last rg - pos) - length A"
    by (simp_all add: nat_diff_distrib' algebra_simps)
  moreover have "take (b - a) (drop a (A @ B)) = take (b - a) (drop a A) @ take (b - length A - (a - length A)) (drop (a - length A) B)"
    if "a \<le> b" for a b :: nat
  proof -
    have "b - a - (length A - a) = b - length A - (a - length A)" using that by simp
    then show ?thesis by simp
  qed
  moreover have "nat (range_start rg - pos) \<le> nat (range_last rg - pos)" using assms by simp
  ultimately show ?thesis unfolding in_range_of_def by simp
qed

lemma in_range_of_outside: "range_last rg \<le> pos \<or> pos + int (length D) \<le> range_start rg \<Longrightarrow> in_range_of rg pos D = []"
  by (auto simp: in_range_of_def)

lemma singlepart_loop_unlinked: "\<not> fst (range_singlepart_loop rg pos bs) \<Longrightarrow> chain_bytes f (fst (snd (range_singlepart_loop rg pos bs))) = []"
  by (induction rg pos bs rule: range_singlepart_loop.induct) (auto simp: Let_def case_prod_beta split: if_splits)

lemma singlepart_loop_bytes:
  assumes "range_start rg < range_last rg" "list_all (good_buf f) bs"
  shows "chain_bytes f (fst (snd (range_singlepart_loop rg pos bs))) = in_range_of rg pos (chain_bytes f bs) \<and>
    (snd (snd (range_singlepart_loop rg pos bs)) = pos + int (length (chain_bytes f bs)) \<or>
     range_last rg \<le> snd (snd (range_singlepart_loop rg pos bs)) \<and> range_last rg \<le> pos + int (length (chain_bytes f bs)))"
  using assms(2)
proof (induction bs arbitrary: pos)
  case Nil
  then show ?case by (simp add: in_range_of_def)
next
  case (Cons b bs)
  let ?D = "buf_bytes f b" and ?R = "chain_bytes f bs"
  let ?last = "pos + int (length ?D)"
  have g: "good_buf f b" using Cons.prems by simp
  note size = buf_size_bytes [OF g]
  have split: "in_range_of rg pos (chain_bytes f (b # bs)) = in_range_of rg pos ?D @ in_range_of rg ?last ?R"
    using in_range_of_append [OF assms(1)] by simp
  have ih: "chain_bytes f (fst (snd (range_singlepart_loop rg ?last bs))) = in_range_of rg ?last ?R"
    "snd (snd (range_singlepart_loop rg ?last bs)) = ?last + int (length ?R) \<or>
     range_last rg \<le> snd (snd (range_singlepart_loop rg ?last bs)) \<and> range_last rg \<le> ?last + int (length ?R)"
    using Cons.IH [of ?last] Cons.prems by simp_all
  consider (special) "ngx_buf_special b" | (skip) "\<not> ngx_buf_special b" "range_last rg \<le> pos \<or> range_start rg \<ge> ?last"
    | (data) "\<not> ngx_buf_special b" "pos < range_last rg" "range_start rg < ?last" by linarith
  then show ?case
  proof cases
    case special
    then have "?D = []" by (auto simp: ngx_buf_special_def buf_bytes_def)
    then show ?thesis using special ih split size by (auto simp: Let_def case_prod_beta in_range_of_def)
  next
    case skip
    then have "in_range_of rg pos ?D = []" by (auto intro: in_range_of_outside)
    then show ?thesis using skip ih split size by (auto simp: Let_def case_prod_beta)
  next
    case data
    let ?b = "if range_start rg > pos then buf_skip (range_start rg - pos) b else b"
    have b: "good_buf f ?b" "buf_bytes f ?b = drop (nat (range_start rg - pos)) ?D"
      using buf_skip_bytes [OF g, of "range_start rg - pos"] g data size by auto
    show ?thesis
    proof (cases "range_last rg \<le> ?last")
      case True
      have "in_range_of rg ?last ?R = []" using True by (auto intro: in_range_of_outside)
      moreover have "buf_bytes f ((buf_cut (?last - range_last rg) ?b)\<lparr>b_last := True\<rparr>) = in_range_of rg pos ?D"
      proof -
        let ?n = "?last - range_last rg"
        have k: "ngx_buf_size ?b = int (length ?D - nat (range_start rg - pos))" using buf_size_bytes [OF b(1)] b(2) by simp
        then have n: "0 \<le> ?n" "?n \<le> ngx_buf_size ?b" using True data assms(1) by linarith+
        have "buf_bytes f ((buf_cut ?n ?b)\<lparr>b_last := True\<rparr>) = buf_bytes f (buf_cut ?n ?b)"
          by (rule buf_bytes_last)
        also have "\<dots> = take (length (buf_bytes f ?b) - nat ?n) (buf_bytes f ?b)" by (rule buf_cut_bytes [OF b(1) n])
        also have "length (buf_bytes f ?b) - nat ?n = nat (range_last rg - pos) - nat (range_start rg - pos)"
          using n data assms(1) unfolding b(2) by simp
        finally show ?thesis unfolding b(2) in_range_of_def .
      qed
      ultimately show ?thesis using data split size True by (auto simp: Let_def)
    next
      case False
      then have "in_range_of rg pos ?D = buf_bytes f ?b" unfolding b(2) in_range_of_def by simp
      then show ?thesis using data split size ih False by (auto simp: Let_def case_prod_beta)
    qed
  qed
qed

subsection \<open>The whole response\<close>

text \<open>The calls of the body filter for the pieces of a body, and the bytes they send.\<close>

fun body_calls :: "range_ctx option \<Rightarrow> chain_buf list list \<Rightarrow> body_verdict list" where
  "body_calls ctx [] = []"
| "body_calls ctx (chain # css) =
     (let (v, ctx) = ngx_http_range_body_filter ctx chain in v # body_calls ctx css)"

definition sent :: "bytes \<Rightarrow> body_verdict list \<Rightarrow> bytes" where
  "sent f vs = concat (map (\<lambda>v. case v of Body_next bs \<Rightarrow> chain_bytes f bs | _ \<Rightarrow> []) vs)"

definition body_bytes :: "bytes \<Rightarrow> chain_buf list list \<Rightarrow> bytes" where
  "body_bytes f css = concat (map (chain_bytes f) css)"

lemma single_calls:
  assumes "ctx_ranges c = [rg]" "range_start rg < range_last rg" "list_all (list_all (good_buf f)) css"
    and "ctx_offset c = pos \<or> range_last rg \<le> ctx_offset c \<and> range_last rg \<le> pos"
  shows "sent f (body_calls (Some c) css) = in_range_of rg pos (body_bytes f css)"
  using assms(1,3,4)
proof (induction css arbitrary: c pos)
  case Nil
  then show ?case by (simp add: sent_def body_bytes_def in_range_of_def)
next
  case (Cons ch css)
  let ?l = "range_singlepart_loop rg (ctx_offset c) ch"
  have l: "chain_bytes f (fst (snd ?l)) = in_range_of rg pos (chain_bytes f ch)"
    "snd (snd ?l) = pos + int (length (chain_bytes f ch)) \<or>
     range_last rg \<le> snd (snd ?l) \<and> range_last rg \<le> pos + int (length (chain_bytes f ch))"
    using singlepart_loop_bytes [OF assms(2), of f ch "ctx_offset c"] Cons.prems(2,3)
      in_range_of_outside [of rg pos "chain_bytes f ch"] in_range_of_outside [of rg "ctx_offset c" "chain_bytes f ch"]
    by auto
  have step: "ngx_http_range_body_filter (Some c) ch =
      (if fst ?l \<or> ch = [] then Body_next (fst (snd ?l)) else Body_ok, Some (c\<lparr>ctx_offset := snd (snd ?l)\<rparr>))"
    using Cons.prems(1) by (simp add: ngx_http_range_body_filter_def range_singlepart_body_def case_prod_beta)
  have "sent f (body_calls (Some c) (ch # css)) =
      chain_bytes f (fst (snd ?l)) @ sent f (body_calls (Some (c\<lparr>ctx_offset := snd (snd ?l)\<rparr>)) css)"
    unfolding body_calls.simps step using singlepart_loop_unlinked [of rg "ctx_offset c" ch f] by (auto simp: sent_def)
  also have "sent f (body_calls (Some (c\<lparr>ctx_offset := snd (snd ?l)\<rparr>)) css) =
      in_range_of rg (pos + int (length (chain_bytes f ch))) (body_bytes f css)"
    using Cons.prems l(2) by (intro Cons.IH) simp_all
  finally show ?case unfolding l(1) using in_range_of_append [OF assms(2)] by (simp add: body_bytes_def)
qed

text \<open>A response becomes partial only behind the label \<open>parse\<close>.\<close>

lemma partial_parsed:
  assumes "ngx_http_range_header_filter boundary r = Parsed (Inr (Next_filter r'))" "status r' = NGX_HTTP_PARTIAL_CONTENT"
    and "status r \<noteq> NGX_HTTP_PARTIAL_CONTENT" "r_main r"
  obtains hv rs where "in_range r = Some hv"
    and "ngx_http_range_parse (content_length_n r) (if single_range r then 1 else max_ranges r) (drop 6 hv @ [0]) = Inr rs"
    and "(let ctx = \<lparr>ctx_offset = content_offset r, boundary_header = [],
            ctx_ranges = map (\<lambda>(start, end). \<lparr>range_start = start, range_last = end, content_range_text = []\<rparr>) rs\<rparr>;
          r = r\<lparr>range_ctx := Some ctx, status := NGX_HTTP_PARTIAL_CONTENT\<rparr>
      in if length rs = 1 then range_singlepart_header r ctx else range_multipart_header boundary r ctx) = Inr (Next_filter r')"
proof -
  have n: "range_next_filter r \<noteq> Inr (Next_filter r')" using assms(2,3) by (auto simp: range_next_filter_def)
  have s: "range_not_satisfiable r \<noteq> Inr (Next_filter r')"
    by (auto simp: range_not_satisfiable_def Let_def sbind_Inr_iff)
  obtain v where v: "in_range r = Some v" "range_parse_label boundary r v = Parsed (Inr (Next_filter r'))"
    using assms(1-3) n by (auto simp: ngx_http_range_header_filter_def split: if_splits option.splits)
  then obtain rs0 where rs0: "range_parse r (if single_range r then 1 else max_ranges r) v = Inr rs0"
    using n s by (auto simp: range_parse_label_def Let_def split: sum.splits range_exit.splits)
  then obtain rs where rs: "ngx_http_range_parse (content_length_n r) (if single_range r then 1 else max_ranges r) (drop 6 v @ [0]) = Inr rs"
    "rs0 = map (\<lambda>(start, end). \<lparr>range_start = start, range_last = end, content_range_text = []\<rparr>) rs"
    using assms(4) by (auto simp: range_parse_def sbind_Inr_iff)
  show ?thesis
    using that [OF v(1) rs(1)] v(2) rs0 rs(2) by (simp add: range_parse_label_def Let_def)
qed

text \<open>The part of a body that a range names.\<close>

definition slice_of :: "int \<Rightarrow> int \<Rightarrow> bytes \<Rightarrow> bytes" where
  "slice_of s e d = take (nat (e - s)) (drop (nat s) d)"

definition range_of :: "int \<times> int \<Rightarrow> ngx_http_range" where
  "range_of = (\<lambda>(s, e). \<lparr>range_start = s, range_last = e, content_range_text = []\<rparr>)"

lemma range_of_simps [simp]: "range_start (range_of p) = fst p" "range_last (range_of p) = snd p"
  by (simp_all add: range_of_def case_prod_beta)

text \<open>
  C17: When one range is accepted, the response announces the range, its length is the length of the range, and
  the body filter sends exactly the bytes of the range, however the body is cut into buffers and calls, and
  whether the buffers are in memory or in a file.
\<close>

theorem single_part_response:
  assumes "ngx_http_range_header_filter boundary r = Parsed (Inr (Next_filter r'))" "status r' = NGX_HTTP_PARTIAL_CONTENT"
    and "status r \<noteq> NGX_HTTP_PARTIAL_CONTENT" "r_main r" "content_offset r = 0"
    and "content_length_n r \<le> NGX_MAX_OFF_T_VALUE" "length (ctx_ranges (the (range_ctx r'))) = 1"
    and "list_all (list_all (good_buf f)) css" "int (length (body_bytes f css)) = content_length_n r"
  shows "\<exists>s e. 0 \<le> s \<and> s < e \<and> e \<le> content_length_n r \<and>
    content_range r' = Some (asc ''bytes '' @ range_value s e (content_length_n r)) \<and>
    content_length_n r' = e - s \<and> int (length (sent f (body_calls (range_ctx r') css))) = e - s \<and>
    sent f (body_calls (range_ctx r') css) = slice_of s e (body_bytes f css)"
proof -
  obtain hv rs where rs: "ngx_http_range_parse (content_length_n r) (if single_range r then 1 else max_ranges r) (drop 6 hv @ [0]) = Inr rs"
    and h: "(let ctx = \<lparr>ctx_offset = content_offset r, boundary_header = [], ctx_ranges = map range_of rs\<rparr>;
          r = r\<lparr>range_ctx := Some ctx, status := NGX_HTTP_PARTIAL_CONTENT\<rparr>
      in if length rs = 1 then range_singlepart_header r ctx else range_multipart_header boundary r ctx) = Inr (Next_filter r')"
    using partial_parsed [OF assms(1-4)] unfolding range_of_def by metis
  have one: "length rs = 1"
  proof (rule ccontr)
    assume n: "length rs \<noteq> 1"
    have "multipart_ranges cl hl len rg = Inr (rg', len') \<Longrightarrow> length rg' = length rg" for cl hl len rg rg' len'
      by (induction rg arbitrary: len rg' len') (auto simp: Let_def sbind_Inr_iff)
    then have "length (ctx_ranges (the (range_ctx r'))) = length rs"
      using h n by (fastforce simp: Let_def range_multipart_header_def sbind_Inr_iff)
    then show False using n assms(7) by simp
  qed
  then obtain s e where se: "rs = [(s, e)]" by (auto simp: length_Suc_conv)
  have ok: "0 \<le> s" "s < e" "e \<le> content_length_n r" using range_parse_sound [OF rs] se by simp_all
  have r': "content_range r' = Some (asc ''bytes '' @ range_value s e (content_length_n r))" "content_length_n r' = e - s"
    "range_ctx r' = Some \<lparr>ctx_offset = 0, boundary_header = [], ctx_ranges = [range_of (s, e)]\<rparr>"
    using h single_text [OF ok assms(6)] assms(4,5) by (auto simp: se Let_def range_singlepart_header_def)
  have "sent f (body_calls (range_ctx r') css) = in_range_of (range_of (s, e)) 0 (body_bytes f css)"
    unfolding r'(3) using ok assms(8) by (intro single_calls) simp_all
  also have "\<dots> = slice_of s e (body_bytes f css)"
    using ok by (simp add: in_range_of_def slice_of_def nat_diff_distrib)
  finally have b: "sent f (body_calls (range_ctx r') css) = slice_of s e (body_bytes f css)" .
  have "int (length (slice_of s e (body_bytes f css))) = e - s" using ok assms(9) by (simp add: slice_of_def)
  with b ok r'(1,2) show ?thesis by (intro exI [of _ s] exI [of _ e]) simp
qed

definition part_of :: "nat \<Rightarrow> range_request \<Rightarrow> bytes \<Rightarrow> int \<times> int \<Rightarrow> bytes" where
  "part_of boundary r d p =
     boundary_text boundary r @ range_value (fst p) (snd p) (content_length_n r) @ CRLF @ CRLF @ slice_of (fst p) (snd p) d"

definition last_boundary :: "nat \<Rightarrow> bytes" where
  "last_boundary boundary = CRLF @ asc ''--'' @ dec_pad boundary @ asc ''--'' @ CRLF"

lemma boundary_text_start: "boundary < 2 ^ 64 \<Longrightarrow> take 24 (boundary_text boundary r) = CRLF @ asc ''--'' @ dec_pad boundary"
  by (simp add: boundary_text_def CRLF_def dec_pad_length)

lemma boundary_text_length:
  "boundary < 2 ^ 64 \<Longrightarrow> length (boundary_text boundary r) \<le> 73 + length (content_type r) + length (charset r)"
  by (simp add: boundary_text_def CRLF_def dec_pad_length)

lemma part_length_sum:
  assumes "list_all (range_ok cl) rs" "cl \<le> NGX_MAX_OFF_T_VALUE"
  shows "int (sum_list (map (part_length h cl) rs)) \<le>
    int (length rs) * (int h + 66) + (\<Sum>rg\<leftarrow>rs. range_last rg - range_start rg)"
  using assms(1)
proof (induction rs)
  case (Cons rg rs)
  have "length (range_value (range_start rg) (range_last rg) cl) \<le> 62"
    using Cons.prems assms(2) by (intro range_value_length) (simp_all add: range_ok_def)
  then show ?case using Cons by (simp add: part_length_def range_ok_def algebra_simps)
qed simp

lemma multipart_length_bound:
  assumes "boundary < 2 ^ 64" "length (content_type r) \<le> 2 ^ 16" "length (charset r) \<le> 2 ^ 16"
    and "list_all (range_ok (content_length_n r)) rs" "content_length_n r \<le> 2 ^ 62" "length rs < 2 ^ 31"
    and "(\<Sum>rg\<leftarrow>rs. range_last rg - range_start rg) \<le> content_length_n r"
  shows "multipart_length boundary r rs < 2 ^ 63"
proof -
  let ?h = "length (boundary_text boundary r)"
  have "?h \<le> 73 + 2 ^ 17" using boundary_text_length [OF assms(1), of r] assms(2,3) by simp
  moreover have "int (length rs) \<le> 2 ^ 31" using assms(6) by simp
  ultimately have "int (length rs) * (int ?h + 66) \<le> 2 ^ 31 * (2 ^ 18 :: int)" by (intro mult_mono) simp_all
  moreover have "content_length_n r \<le> NGX_MAX_OFF_T_VALUE" using assms(5) by (simp add: NGX_MAX_OFF_T_VALUE_def)
  ultimately have "int (sum_list (map (part_length ?h (content_length_n r)) rs)) \<le> 2 ^ 49 + 2 ^ 62"
    using part_length_sum [OF assms(4), of ?h] assms(5,7) by simp
  then have "int (multipart_length boundary r rs) < 2 ^ 63" by (simp add: multipart_length_def)
  then show ?thesis by (metis of_nat_less_iff of_nat_numeral of_nat_power)
qed

text \<open>The bytes of the parts, and their number.\<close>

lemma range_data_bytes:
  assumes "good_buf f b" "0 \<le> range_start rg" "range_start rg \<le> range_last rg" "range_last rg \<le> ngx_buf_size b"
  shows "buf_bytes f (range_data_buf b rg) = slice_of (range_start rg) (range_last rg) (buf_bytes f b)"
proof (cases "in_memory b")
  case None
  show ?thesis
  proof (cases "in_file b")
    case (Some p)
    obtain fp fl where p: "p = (fp, fl)" by (cases p)
    have b: "0 \<le> fp" "fp \<le> fl" "fl \<le> int (length f)" "range_last rg \<le> fl - fp"
      using assms(1,4) None Some p by (auto simp: good_buf_def ngx_buf_size_def)
    have "nat (fp + range_start rg) = nat fp + nat (range_start rg)"
      "min (nat (range_last rg) - nat (range_start rg)) (nat (fl - fp) - nat (range_start rg)) =
         nat (range_last rg) - nat (range_start rg)"
      using b assms(2,3) by (simp_all add: nat_add_distrib min_def nat_le_iff)
    then show ?thesis
      using None Some p assms(2,3) b
      by (simp add: buf_bytes_def range_data_buf_def file_bytes_def slice_of_def drop_take nat_diff_distrib add.commute)
  qed (use None in \<open>simp add: buf_bytes_def range_data_buf_def slice_of_def\<close>)
next
  case (Some d)
  then show ?thesis using assms(2,3) by (simp add: buf_bytes_def range_data_buf_def slice_of_def nat_diff_distrib)
qed

lemma multipart_body_bytes:
  assumes "boundary < 2 ^ 64" "list_all (range_ok (content_length_n r)) rs" "good_buf f b" "ngx_buf_size b = content_length_n r"
    and "boundary_header c = boundary_text boundary r" "ctx_ranges c = map (with_text (content_length_n r)) rs"
  shows "sent f [range_multipart_body c [b]] =
    concat (map (\<lambda>rg. part_of boundary r (buf_bytes f b) (range_start rg, range_last rg)) rs) @ last_boundary boundary"
proof -
  have "chain_bytes f (concat (map (\<lambda>rg. [memory_buf (boundary_header c), memory_buf (content_range_text rg), range_data_buf b rg])
      (map (with_text (content_length_n r)) rs))) =
    concat (map (\<lambda>rg. part_of boundary r (buf_bytes f b) (range_start rg, range_last rg)) rs)"
    using assms(2)
  proof (induction rs)
    case (Cons rg rs)
    then have "buf_bytes f (range_data_buf b (with_text (content_length_n r) rg)) =
        slice_of (range_start rg) (range_last rg) (buf_bytes f b)"
      using range_data_bytes [OF assms(3), of "with_text (content_length_n r) rg"] assms(4) by (simp add: range_ok_def with_text_def)
    then show ?case using Cons by (simp add: assms(5) part_of_def with_text_def)
  qed simp
  then show ?thesis
    using boundary_text_start [OF assms(1), of r]
    by (simp add: sent_def range_multipart_body_def assms(5,6) NGX_ATOMIC_T_LEN_def last_boundary_def CRLF_def buf_bytes_last)
qed

lemma multipart_bytes_length:
  assumes "boundary < 2 ^ 64" "list_all (range_ok (content_length_n r)) rs" "int (length d) = content_length_n r"
  shows "length (concat (map (\<lambda>rg. part_of boundary r d (range_start rg, range_last rg)) rs) @ last_boundary boundary) =
    multipart_length boundary r rs"
proof -
  have l: "length (last_boundary boundary) = 28" using dec_pad_length [OF assms(1)] by (simp add: last_boundary_def CRLF_def)
  have "length (concat (map (\<lambda>rg. part_of boundary r d (range_start rg, range_last rg)) rs)) =
      sum_list (map (part_length (length (boundary_text boundary r)) (content_length_n r)) rs)"
    using assms(2)
  proof (induction rs)
    case (Cons rg rs)
    then have "range_ok (content_length_n r) rg" by simp
    then have "length (part_of boundary r d (range_start rg, range_last rg)) =
        part_length (length (boundary_text boundary r)) (content_length_n r) rg"
      using assms(3) by (auto simp: part_of_def part_length_def slice_of_def CRLF_def range_ok_def)
    then show ?case using Cons by simp
  qed simp
  with l show ?thesis by (simp add: multipart_length_def)
qed

lemma sum_range_of: "(\<Sum>rg\<leftarrow>map range_of rs. range_last rg - range_start rg) = range_sum rs"
  by (induction rs) (auto simp: range_sum_def)

lemma multi_part_header:
  assumes "ngx_http_range_header_filter boundary r = Parsed (Inr (Next_filter r'))" "status r' = NGX_HTTP_PARTIAL_CONTENT"
    and "status r \<noteq> NGX_HTTP_PARTIAL_CONTENT" "r_main r" "content_offset r = 0" "content_length_n r \<le> 2 ^ 62"
    and "length (ctx_ranges (the (range_ctx r'))) \<noteq> 1" "boundary < 2 ^ 64" "max_ranges r < 2 ^ 31"
    and "length (content_type r) \<le> 2 ^ 16" "length (charset r) \<le> 2 ^ 16"
  obtains hv rs where "in_range r = Some hv"
    "ngx_http_range_parse (content_length_n r) (if single_range r then 1 else max_ranges r) (drop 6 hv @ [0]) = Inr rs"
    "length rs \<ge> 2" "list_all (range_ok (content_length_n r)) (map range_of rs)"
    "range_ctx r' = Some \<lparr>ctx_offset = 0, boundary_header = boundary_text boundary r,
       ctx_ranges = map (with_text (content_length_n r)) (map range_of rs)\<rparr>"
    "content_length_n r' = int (multipart_length boundary r (map range_of rs))"
proof -
  obtain hv rs where hv: "in_range r = Some hv"
    and rs: "ngx_http_range_parse (content_length_n r) (if single_range r then 1 else max_ranges r) (drop 6 hv @ [0]) = Inr rs"
    and h: "(let ctx = \<lparr>ctx_offset = content_offset r, boundary_header = [], ctx_ranges = map range_of rs\<rparr>;
          r = r\<lparr>range_ctx := Some ctx, status := NGX_HTTP_PARTIAL_CONTENT\<rparr>
      in if length rs = 1 then range_singlepart_header r ctx else range_multipart_header boundary r ctx) = Inr (Next_filter r')"
    using partial_parsed [OF assms(1-4)] unfolding range_of_def by metis
  note ok = range_parse_sound [OF rs]
  have many: "length rs \<noteq> 1"
  proof
    assume "length rs = 1"
    then have "length (ctx_ranges (the (range_ctx r'))) = 1"
      using h assms(4) by (auto simp: Let_def range_singlepart_header_def sbind_Inr_iff)
    then show False using assms(7) by simp
  qed
  then have two: "length rs \<ge> 2" using ok by (cases rs; cases "tl rs") auto
  let ?c = "\<lparr>ctx_offset = 0, boundary_header = [], ctx_ranges = map range_of rs\<rparr>"
  let ?r = "r\<lparr>range_ctx := Some ?c, status := NGX_HTTP_PARTIAL_CONTENT\<rparr>"
  have good: "list_all (range_ok (content_length_n r)) (map range_of rs)" using ok by (auto simp: list_all_iff range_ok_def)
  have sum: "(\<Sum>rg\<leftarrow>map range_of rs. range_last rg - range_start rg) \<le> content_length_n r"
    unfolding sum_range_of using ok by simp
  have n: "length (map range_of rs) < 2 ^ 31" using ok assms(9) by (auto split: if_splits)
  have len: "multipart_length boundary r (map range_of rs) < 2 ^ 63"
    by (rule multipart_length_bound [OF assms(8,10,11) good assms(6) n sum])
  have bt: "boundary_text boundary ?r = boundary_text boundary r" by (simp add: boundary_text_def)
  have ml: "multipart_length boundary ?r (map range_of rs) = multipart_length boundary r (map range_of rs)"
    by (simp add: multipart_length_def bt)
  have "range_ctx r' = Some \<lparr>ctx_offset = 0, boundary_header = boundary_text boundary r,
       ctx_ranges = map (with_text (content_length_n r)) (map range_of rs)\<rparr>"
    "content_length_n r' = int (multipart_length boundary r (map range_of rs))"
    using h many multipart_header_text [of boundary ?r ?c] assms(5,6,8,10,11) good len ml
    by (auto simp: Let_def bt NGX_MAX_OFF_T_VALUE_def)
  then show ?thesis by (rule that [OF hv rs two good])
qed

text \<open>
  C18: When several ranges are accepted and the body comes in one buffer, in memory or in a file, the multipart body
  has one part for each range that the parser of the \<open>Range\<close> header answers, in the order of that answer: the
  boundary, the announced range and exactly the bytes of the range.  The closing boundary follows the last one, and
  the length that is announced is the number of bytes that are sent.
\<close>

theorem multi_part_response:
  assumes "ngx_http_range_header_filter boundary r = Parsed (Inr (Next_filter r'))" "status r' = NGX_HTTP_PARTIAL_CONTENT"
    and "status r \<noteq> NGX_HTTP_PARTIAL_CONTENT" "r_main r" "content_offset r = 0" "content_length_n r \<le> 2 ^ 62"
    and "length (ctx_ranges (the (range_ctx r'))) \<noteq> 1" "boundary < 2 ^ 64" "max_ranges r < 2 ^ 31"
    and "length (content_type r) \<le> 2 ^ 16" "length (charset r) \<le> 2 ^ 16"
    and "good_buf f b" "int (length (buf_bytes f b)) = content_length_n r"
  shows "\<exists>hv rs. in_range r = Some hv \<and>
    ngx_http_range_parse (content_length_n r) (if single_range r then 1 else max_ranges r) (drop 6 hv @ [0]) = Inr rs \<and>
    length rs \<ge> 2 \<and> (\<forall>(s, e)\<in>set rs. 0 \<le> s \<and> s < e \<and> e \<le> content_length_n r) \<and>
    sent f (body_calls (range_ctx r') [[b]]) =
      concat (map (part_of boundary r (buf_bytes f b)) rs) @ last_boundary boundary \<and>
    content_length_n r' = int (length (sent f (body_calls (range_ctx r') [[b]])))"
proof -
  obtain hv rs where hv: "in_range r = Some hv"
    and rs: "ngx_http_range_parse (content_length_n r) (if single_range r then 1 else max_ranges r) (drop 6 hv @ [0]) = Inr rs"
    and two: "length rs \<ge> 2" and good: "list_all (range_ok (content_length_n r)) (map range_of rs)"
    and r': "range_ctx r' = Some \<lparr>ctx_offset = 0, boundary_header = boundary_text boundary r,
         ctx_ranges = map (with_text (content_length_n r)) (map range_of rs)\<rparr>"
      "content_length_n r' = int (multipart_length boundary r (map range_of rs))"
    by (rule multi_part_header [OF assms(1-11)])
  note ok = range_parse_sound [OF rs]
  let ?c' = "\<lparr>ctx_offset = 0, boundary_header = boundary_text boundary r,
    ctx_ranges = map (with_text (content_length_n r)) (map range_of rs)\<rparr>"
  have size: "ngx_buf_size b = content_length_n r" using buf_size_bytes [OF assms(12)] assms(13) by simp
  have "content_length_n r > 0" using ok two by (cases rs) force+
  then have special: "\<not> ngx_buf_special b" using size special_size [of b] by auto
  have "range_test_overlapped ?c' b = Some (?c'\<lparr>ctx_offset := ngx_buf_size b\<rparr>)"
    using ok size by (auto simp: range_test_overlapped_def with_text_def)
  then have calls: "body_calls (range_ctx r') [[b]] = [range_multipart_body (?c'\<lparr>ctx_offset := ngx_buf_size b\<rparr>) [b]]"
    using two special by (simp add: r'(1) ngx_http_range_body_filter_def)
  have bytes: "sent f (body_calls (range_ctx r') [[b]]) =
      concat (map (\<lambda>rg. part_of boundary r (buf_bytes f b) (range_start rg, range_last rg)) (map range_of rs)) @
        last_boundary boundary"
    unfolding calls by (rule multipart_body_bytes [OF assms(8) good assms(12) size]) simp_all
  have "content_length_n r' = int (length (sent f (body_calls (range_ctx r') [[b]])))"
    unfolding bytes r'(2) multipart_bytes_length [OF assms(8) good assms(13)] ..
  moreover have "sent f (body_calls (range_ctx r') [[b]]) =
      concat (map (part_of boundary r (buf_bytes f b)) rs) @ last_boundary boundary"
    unfolding bytes by (simp add: comp_def)
  ultimately show ?thesis using hv rs two ok by (intro exI [of _ hv] exI [of _ rs]) blast
qed

text \<open>The request of the witnesses: ten bytes of content, and two ranges or one.\<close>

definition sample_request :: "bytes \<Rightarrow> range_request" where
  "sample_request v =
     \<lparr>http_version = 1001, r_main = True, main_ctx = None, range_ctx = None, subrequest_ranges = False, allow_ranges = True,
      single_range = False, max_ranges = 5, in_range = Some (asc ''bytes='' @ v), in_if_range = None, status = 200,
      content_length_n = 10, content_length_header = True, content_offset = 0, last_modified_time = -1, out_etag = None,
      content_type = asc ''a/b'', content_type_len = 3, charset = [], content_range = None, accept_ranges = False\<rparr>"

lemma bytes_unit: "ngx_strncasecmp (asc ''bytes='' @ v) (asc ''bytes='') 6 = Some 0"
  by (simp add: eval_nat_numeral ngx_tolower_def)

lemma sample_fields:
  "http_version (sample_request v) = 1001" "status (sample_request v) = NGX_HTTP_OK" "r_main (sample_request v)"
  "content_length_n (sample_request v) = 10" "allow_ranges (sample_request v)" "max_ranges (sample_request v) = 5"
  "in_range (sample_request v) = Some (asc ''bytes='' @ v)" "in_if_range (sample_request v) = None"
  by (simp_all add: sample_request_def NGX_HTTP_OK_def)

lemma sample_header:
  assumes "v \<noteq> []"
  shows "ngx_http_range_header_filter b (sample_request v) = range_parse_label b (sample_request v) (asc ''bytes='' @ v)"
proof -
  have "\<not> length (asc ''bytes='' @ v) < 7" using assms by (cases v) simp_all
  then show ?thesis
    unfolding ngx_http_range_header_filter_def sample_fields option.case bytes_unit by (simp add: sample_fields NGX_HTTP_VERSION_10_def)
qed

theorem single_part_response_witness:
  "\<exists>r'. ngx_http_range_header_filter 7 (sample_request (asc ''2-4'')) = Parsed (Inr (Next_filter r')) \<and>
     int (length (sent [] (body_calls (range_ctx r') [[memory_buf (asc ''0123'')], [memory_buf (asc ''456789'')]]))) = content_length_n r'"
proof -
  let ?r = "sample_request (asc ''2-4'')"
  have p: "ngx_http_range_parse 10 5 (asc ''2-4'' @ [0]) = Inr [(2, 5)]" by code_simp
  have t: "ngx_sprintf (8 + 3 * NGX_OFF_T_LEN) (asc ''bytes %O-%O/%O'') [VA_int 2, VA_int 4, VA_int 10] =
      Inr (asc ''bytes '' @ range_value 2 5 10)"
    using single_text [of 2 5 10] by (simp add: NGX_MAX_OFF_T_VALUE_def)
  have "\<exists>r'. range_parse_label 7 ?r (asc ''bytes='' @ asc ''2-4'') = Parsed (Inr (Next_filter r')) \<and>
      status r' = NGX_HTTP_PARTIAL_CONTENT \<and> length (ctx_ranges (the (range_ctx r'))) = 1"
    using p t by (simp add: range_parse_label_def range_parse_def sample_request_def range_singlepart_header_def Let_def)
  then obtain r' where r': "ngx_http_range_header_filter 7 ?r = Parsed (Inr (Next_filter r'))"
    "status r' = NGX_HTTP_PARTIAL_CONTENT" "length (ctx_ranges (the (range_ctx r'))) = 1"
    using sample_header [of _ 7] by auto
  show ?thesis
    using single_part_response [OF r'(1,2) _ _ _ _ r'(3), of "[]" "[[memory_buf (asc ''0123'')], [memory_buf (asc ''456789'')]]"] r'(1)
    by (auto simp: sample_request_def NGX_HTTP_PARTIAL_CONTENT_def NGX_MAX_OFF_T_VALUE_def good_buf_def memory_buf_def body_bytes_def buf_bytes_def)
qed

theorem multi_part_response_witness:
  "\<exists>r'. ngx_http_range_header_filter 7 (sample_request (asc ''0-1,-2'')) = Parsed (Inr (Next_filter r')) \<and>
     sent [] (body_calls (range_ctx r') [[memory_buf (asc ''0123456789'')]]) =
       concat (map (part_of 7 (sample_request (asc ''0-1,-2'')) (asc ''0123456789'')) [(0, 2), (8, 10)]) @ last_boundary 7 \<and>
     content_length_n r' = int (length (sent [] (body_calls (range_ctx r') [[memory_buf (asc ''0123456789'')]])))"
proof -
  let ?r = "sample_request (asc ''0-1,-2'')"
  have p: "ngx_http_range_parse 10 5 (asc ''0-1,-2'' @ [0]) = Inr [(0, 2), (8, 10)]" by code_simp
  let ?c = "\<lparr>ctx_offset = 0, boundary_header = [], ctx_ranges = map range_of [(0, 2), (8, 10)]\<rparr>"
  let ?r2 = "?r\<lparr>range_ctx := Some ?c, status := NGX_HTTP_PARTIAL_CONTENT\<rparr>"
  have l: "range_parse_label 7 ?r (asc ''bytes='' @ asc ''0-1,-2'') = Parsed (range_multipart_header 7 ?r2 ?c)"
    using p by (simp add: range_parse_label_def range_parse_def sample_request_def Let_def range_of_def)
  have n: "multipart_length 7 ?r (map range_of [(0, 2), (8, 10)]) < 2 ^ 63"
    by (rule multipart_length_bound) (simp_all add: sample_request_def range_ok_def)
  have "\<exists>r'. range_multipart_header 7 ?r2 ?c = Inr (Next_filter r') \<and> status r' = NGX_HTTP_PARTIAL_CONTENT \<and>
      length (ctx_ranges (the (range_ctx r'))) = 2"
    using multipart_header_text [of 7 ?r2 ?c] n
    by (simp add: sample_request_def range_ok_def NGX_MAX_OFF_T_VALUE_def multipart_length_def boundary_text_def)
  then obtain r' where r': "ngx_http_range_header_filter 7 ?r = Parsed (Inr (Next_filter r'))"
    "status r' = NGX_HTTP_PARTIAL_CONTENT" "length (ctx_ranges (the (range_ctx r'))) \<noteq> 1"
    using sample_header [of _ 7] l by auto
  show ?thesis
    using multi_part_response [OF r'(1,2) _ _ _ _ r'(3), of "[]" "memory_buf (asc ''0123456789'')"] r'(1) p
    by (auto simp: sample_request_def NGX_HTTP_PARTIAL_CONTENT_def good_buf_def memory_buf_def buf_bytes_def)
qed

end
