(* ===== verification/Ngx_Round_Robin.thy ===== *)
theory Ngx_Round_Robin
  imports Ngx_Prelude
begin

text \<open>
  The round robin balancer, \<open>src/http/ngx_http_upstream_round_robin.c\<close>.  The peers of an upstream are a
  chain of groups, the servers and then the backup servers, linked by \<open>next\<close>: the list of the groups.
  The pointer \<open>rrp->peers\<close> is the number of the group, and a pointer to a peer is the number of its
  group and its place there.  Every operation holds the lock of the group while it works on it and is one step.
  A call of \<open>peer.get\<close> that goes on to the backup servers gives the lock of its group back and takes it again to
  forget the failures; the model takes the whole call as one step, as it is in a worker whose upstream is not in a
  shared \<open>zone\<close>.  The counters \<open>conns\<close> and \<open>fails\<close> are 64-bit words, the weights and times are signed and read
  as \<open>int\<close>; theorem \<open>balancers_account\<close> bounds the weights, and \<open>get_peer64\<close> is the choice
  with its sums checked.
\<close>

subsection \<open>The data\<close>

record rr_peer =
  sockaddr :: bytes
  peer_name :: bytes
  server :: bytes
  current_weight :: int
  effective_weight :: int
  weight :: int
  conns :: u64
  fails :: u64
  accessed :: int
  checked :: int
  max_fails :: u64
  fail_timeout :: int
  down :: bool

record rr_peers =
  number :: nat
  total_weight :: u64
  single :: bool
  weighted :: bool
  upstream_name :: bytes
  peer_list :: "rr_peer list"

text \<open>The balancer data of a request, and the part of its \<open>ngx_peer_connection_t\<close> that the balancer sees.\<close>

record rr_peer_data =
  rrp_peers :: nat
  current :: "(nat \<times> nat) option"
  tried :: "u64 list"

record peer_connection =
  pc_sockaddr :: "bytes option"
  pc_name :: "bytes option"
  pc_tries :: nat
  pc_cached :: bool

definition NGX_BUSY :: int where "NGX_BUSY = -3"
definition NGX_PEER_KEEPALIVE :: nat where "NGX_PEER_KEEPALIVE = 1"
definition NGX_PEER_NEXT :: nat where "NGX_PEER_NEXT = 2"
definition NGX_PEER_FAILED :: nat where "NGX_PEER_FAILED = 4"

subsection \<open>The configuration\<close>

text \<open>A \<open>server\<close> directive; an address is its \<open>sockaddr\<close> and its name.\<close>

record upstream_server =
  srv_name :: bytes
  srv_addrs :: "(bytes \<times> bytes) list"
  srv_weight :: nat
  srv_max_fails :: u64
  srv_fail_timeout :: int
  srv_down :: bool
  srv_backup :: bool

record upstream_conf =
  us_host :: bytes
  us_port :: nat
  us_servers :: "upstream_server list option"

definition server_peers :: "upstream_server \<Rightarrow> rr_peer list" where
  "server_peers s =
     map (\<lambda>(addr, name).
       \<lparr>sockaddr = addr, peer_name = name, server = srv_name s, current_weight = 0,
        effective_weight = int (srv_weight s), weight = int (srv_weight s), conns = 0, fails = 0, accessed = 0, checked = 0,
        max_fails = srv_max_fails s, fail_timeout = srv_fail_timeout s, down = srv_down s\<rparr>) (srv_addrs s)"

definition server_group :: "bytes \<Rightarrow> upstream_server list \<Rightarrow> rr_peers" where
  "server_group host ss =
     (let n = (\<Sum>s\<leftarrow>ss. length (srv_addrs s));
          w = (\<Sum>s\<leftarrow>ss. of_nat (length (srv_addrs s)) * of_nat (srv_weight s))
      in \<lparr>number = n, total_weight = w, single = (n = 1), weighted = (w \<noteq> of_nat n), upstream_name = host,
          peer_list = concat (map server_peers ss)\<rparr>)"

definition address_group :: "bytes \<Rightarrow> (bytes \<times> bytes) list \<Rightarrow> rr_peers" where
  "address_group host addrs =
     \<lparr>number = length addrs, total_weight = of_nat (length addrs), single = (length addrs = 1), weighted = False,
      upstream_name = host,
      peer_list = map (\<lambda>(addr, name).
        \<lparr>sockaddr = addr, peer_name = name, server = [], current_weight = 0, effective_weight = 1, weight = 1,
         conns = 0, fails = 0, accessed = 0, checked = 0, max_fails = 1, fail_timeout = 10, down = False\<rparr>) addrs\<rparr>"

text \<open>\<open>resolve\<close> stands for \<open>ngx_inet_resolve_host\<close>: the addresses of a host, or no answer.\<close>

definition ngx_http_upstream_init_round_robin ::
  "(bytes \<Rightarrow> nat \<Rightarrow> (bytes \<times> bytes) list option) \<Rightarrow> upstream_conf \<Rightarrow> rr_peers list option" where
  "ngx_http_upstream_init_round_robin resolve us =
     (case us_servers us of
        Some servers \<Rightarrow>
          (let primary = server_group (us_host us) (filter (\<lambda>s. \<not> srv_backup s) servers);
               backup = server_group (us_host us) (filter srv_backup servers)
           in if number primary = 0 then None
              else if number backup = 0 then Some [primary]
              else Some [primary\<lparr>single := False\<rparr>, backup\<lparr>single := False\<rparr>])
      | None \<Rightarrow>
          if us_port us = 0 then None
          else map_option (\<lambda>addrs. [address_group (us_host us) addrs]) (resolve (us_host us) (us_port us)))"

definition tried_words :: "nat \<Rightarrow> nat" where
  "tried_words n = (n + 63) div 64"

definition ngx_http_upstream_tries :: "rr_peers list \<Rightarrow> nat" where
  "ngx_http_upstream_tries ups = number (hd ups) + (case tl ups of [] \<Rightarrow> 0 | next # _ \<Rightarrow> number next)"

definition ngx_http_upstream_init_round_robin_peer :: "rr_peers list \<Rightarrow> peer_connection \<Rightarrow> rr_peer_data \<times> peer_connection" where
  "ngx_http_upstream_init_round_robin_peer ups pc =
     (let n = number (hd ups);
          n = (case tl ups of [] \<Rightarrow> n | next # _ \<Rightarrow> if number next > n then number next else n)
      in (\<lparr>rrp_peers = 0, current = None, tried = (if n \<le> 64 then [0] else replicate (tried_words n) 0)\<rparr>,
          pc\<lparr>pc_tries := ngx_http_upstream_tries ups\<rparr>))"

subsection \<open>The choice of a peer\<close>

text \<open>The bit of the peer \<open>i\<close> among the tried ones.\<close>

definition is_tried :: "u64 list \<Rightarrow> nat \<Rightarrow> bool" where
  "is_tried ts i \<longleftrightarrow> ts ! (i div 64) AND push_bit (i mod 64) 1 \<noteq> 0"

definition set_tried :: "u64 list \<Rightarrow> nat \<Rightarrow> u64 list" where
  "set_tried ts i = ts[i div 64 := ts ! (i div 64) OR push_bit (i mod 64) 1]"

text \<open>The two tests that pass a peer over.\<close>

definition unusable :: "int \<Rightarrow> rr_peer \<Rightarrow> bool" where
  "unusable now peer \<longleftrightarrow>
     down peer \<or> (max_fails peer \<noteq> 0 \<and> fails peer \<ge> max_fails peer \<and> now - checked peer \<le> fail_timeout peer)"

text \<open>A peer that takes part in the choice.\<close>

definition raise_weight :: "rr_peer \<Rightarrow> rr_peer" where
  "raise_weight peer =
     peer\<lparr>current_weight := current_weight peer + effective_weight peer,
          effective_weight := (if effective_weight peer < weight peer then effective_weight peer + 1 else effective_weight peer)\<rparr>"

text \<open>\<open>best\<close> is the place of the best peer so far and its \<open>current_weight\<close>.\<close>

fun get_peer_loop ::
  "int \<Rightarrow> u64 list \<Rightarrow> nat \<Rightarrow> (nat \<times> int) option \<Rightarrow> int \<Rightarrow> rr_peer list \<Rightarrow> rr_peer list \<times> (nat \<times> int) option \<times> int" where
  "get_peer_loop now ts i best tot [] = ([], best, tot)"
| "get_peer_loop now ts i best tot (peer # ps) =
     (if is_tried ts i \<or> unusable now peer then
        (let (ps, best, tot) = get_peer_loop now ts (i + 1) best tot ps in (peer # ps, best, tot))
      else
        (let tot = tot + effective_weight peer;
             peer = raise_weight peer;
             best = (case best of
                       None \<Rightarrow> Some (i, current_weight peer)
                     | Some (p, w) \<Rightarrow> if current_weight peer > w then Some (i, current_weight peer) else best);
             (ps, best, tot) = get_peer_loop now ts (i + 1) best tot ps
         in (peer # ps, best, tot)))"

text \<open>\<open>best->checked\<close> when the failure timeout of the chosen peer is over.\<close>

definition touch_checked :: "int \<Rightarrow> rr_peer \<Rightarrow> rr_peer" where
  "touch_checked now best = (if now - checked best > fail_timeout best then best\<lparr>checked := now\<rparr> else best)"

definition ngx_http_upstream_get_peer :: "int \<Rightarrow> rr_peers \<Rightarrow> u64 list \<Rightarrow> (rr_peers \<times> u64 list \<times> nat) option" where
  "ngx_http_upstream_get_peer now peers ts =
     (case get_peer_loop now ts 0 None 0 (peer_list peers) of
        (ps, None, _) \<Rightarrow> None
      | (ps, Some (p, _), tot) \<Rightarrow>
          (let best = ps ! p;
               best = touch_checked now (best\<lparr>current_weight := current_weight best - tot\<rparr>)
           in Some (peers\<lparr>peer_list := ps[p := best]\<rparr>, set_tried ts p, p)))"

text \<open>
  The same choice with every sum and difference of the weights checked: \<open>None\<close> where an \<open>ngx_int_t\<close> overflows.
\<close>

definition raise_weight64 :: "rr_peer \<Rightarrow> rr_peer option" where
  "raise_weight64 peer =
     Option.bind (s64 (current_weight peer + effective_weight peer)) (\<lambda>cw.
     Option.bind (if effective_weight peer < weight peer then s64 (effective_weight peer + 1) else Some (effective_weight peer)) (\<lambda>ew.
     Some (peer\<lparr>current_weight := cw, effective_weight := ew\<rparr>)))"

fun get_peer_loop64 ::
  "int \<Rightarrow> u64 list \<Rightarrow> nat \<Rightarrow> (nat \<times> int) option \<Rightarrow> int \<Rightarrow> rr_peer list \<Rightarrow> (rr_peer list \<times> (nat \<times> int) option \<times> int) option" where
  "get_peer_loop64 now ts i best tot [] = Some ([], best, tot)"
| "get_peer_loop64 now ts i best tot (peer # ps) =
     (if is_tried ts i \<or> unusable now peer then
        Option.bind (get_peer_loop64 now ts (i + 1) best tot ps) (\<lambda>(ps, best, tot). Some (peer # ps, best, tot))
      else
        Option.bind (s64 (tot + effective_weight peer)) (\<lambda>tot.
        Option.bind (raise_weight64 peer) (\<lambda>peer.
        let best = (case best of
                      None \<Rightarrow> Some (i, current_weight peer)
                    | Some (p, w) \<Rightarrow> if current_weight peer > w then Some (i, current_weight peer) else best)
        in Option.bind (get_peer_loop64 now ts (i + 1) best tot ps) (\<lambda>(ps, best, tot). Some (peer # ps, best, tot)))))"

definition get_peer64 :: "int \<Rightarrow> rr_peers \<Rightarrow> u64 list \<Rightarrow> (rr_peers \<times> u64 list \<times> nat) option option" where
  "get_peer64 now peers ts =
     Option.bind (get_peer_loop64 now ts 0 None 0 (peer_list peers)) (\<lambda>r. case r of
        (ps, None, _) \<Rightarrow> Some None
      | (ps, Some (p, _), tot) \<Rightarrow>
          (let best = ps ! p in
           Option.bind (s64 (current_weight best - tot)) (\<lambda>cw.
           let best = touch_checked now (best\<lparr>current_weight := cw\<rparr>)
           in Some (Some (peers\<lparr>peer_list := ps[p := best]\<rparr>, set_tried ts p, p)))))"

text \<open>\<open>peer->conns++\<close> and the fields of the connection.\<close>

definition take_peer :: "nat \<Rightarrow> rr_peers \<Rightarrow> rr_peers" where
  "take_peer p peers = peers\<lparr>peer_list := (peer_list peers)[p := (peer_list peers ! p)\<lparr>conns := conns (peer_list peers ! p) + 1\<rparr>]\<rparr>"

definition point_at :: "nat \<Rightarrow> rr_peers \<Rightarrow> peer_connection \<Rightarrow> peer_connection" where
  "point_at p peers pc = pc\<lparr>pc_sockaddr := Some (sockaddr (peer_list peers ! p)), pc_name := Some (peer_name (peer_list peers ! p))\<rparr>"

text \<open>The label \<open>failed\<close>: what happens to \<open>tried\<close>, and to the peers when no peer was found.\<close>

definition clear_tried :: "nat \<Rightarrow> u64 list \<Rightarrow> u64 list" where
  "clear_tried n ts = replicate (tried_words n) 0 @ drop (tried_words n) ts"

definition forget_fails :: "rr_peers \<Rightarrow> rr_peers" where
  "forget_fails peers = peers\<lparr>peer_list := map (\<lambda>peer. peer\<lparr>fails := 0\<rparr>) (peer_list peers)\<rparr>"

type_synonym get_result = "int \<times> rr_peers list \<times> rr_peer_data \<times> peer_connection"

text \<open>
  What the balancers do with a choice in the group \<open>peers\<close>: at the label \<open>failed\<close> the group behind it
  follows, in the same step, although the code holds one lock at a time.  \<open>None\<close> when \<open>rrp->peers\<close> is not a group.
\<close>

fun get_chain ::
  "(rr_peers \<Rightarrow> u64 list \<Rightarrow> (rr_peers \<times> u64 list \<times> nat) option) \<Rightarrow> rr_peers \<Rightarrow> rr_peers list \<Rightarrow> rr_peer_data \<Rightarrow> peer_connection \<Rightarrow> get_result"
where
  "get_chain choice peers next rrp pc =
     (let pc = pc\<lparr>pc_cached := False\<rparr> in
      case choice peers (tried rrp) of
        Some (peers, ts, p) \<Rightarrow>
          (NGX_OK, take_peer p peers # next, rrp\<lparr>current := Some (rrp_peers rrp, p), tried := ts\<rparr>, point_at p peers pc)
      | None \<Rightarrow>
          (case next of
             [] \<Rightarrow> (NGX_BUSY, [forget_fails peers], rrp, pc\<lparr>pc_name := Some (upstream_name peers)\<rparr>)
           | backup # rest \<Rightarrow>
               (let rrp = rrp\<lparr>rrp_peers := rrp_peers rrp + 1, tried := clear_tried (number backup) (tried rrp)\<rparr>;
                    (rc, next, rrp, pc) = get_chain choice backup rest rrp pc
                in if rc \<noteq> NGX_BUSY then (rc, peers # next, rrp, pc)
                   else (NGX_BUSY, forget_fails peers # next, rrp, pc\<lparr>pc_name := Some (upstream_name peers)\<rparr>))))"

declare get_chain.simps [simp del]

definition get_from ::
  "(rr_peers \<Rightarrow> rr_peers list \<Rightarrow> rr_peer_data \<Rightarrow> peer_connection \<Rightarrow> get_result) \<Rightarrow> rr_peers list \<Rightarrow> rr_peer_data \<Rightarrow> peer_connection \<Rightarrow> get_result option"
where
  "get_from get ups rrp pc =
     (case drop (rrp_peers rrp) ups of
        [] \<Rightarrow> None
      | peers # next \<Rightarrow>
          (let (rc, gs, rrp', pc) = get peers next rrp pc in Some (rc, take (rrp_peers rrp) ups @ gs, rrp', pc)))"

text \<open>The choice of the round robin balancer in a group.\<close>

definition rr_choice :: "int \<Rightarrow> rr_peers \<Rightarrow> u64 list \<Rightarrow> (rr_peers \<times> u64 list \<times> nat) option" where
  "rr_choice now peers ts =
     (if single peers then (if down (hd (peer_list peers)) then None else Some (peers, ts, 0))
      else ngx_http_upstream_get_peer now peers ts)"

definition ngx_http_upstream_get_round_robin_peer :: "int \<Rightarrow> rr_peers list \<Rightarrow> rr_peer_data \<Rightarrow> peer_connection \<Rightarrow> get_result option" where
  "ngx_http_upstream_get_round_robin_peer now = get_from (get_chain (rr_choice now))"

subsection \<open>The end of a try\<close>

text \<open>
  \<open>peer->effective_weight -= peer->weight / peer->max_fails\<close>: the weight is converted to the unsigned type of
  \<open>max_fails\<close> and the result back.
\<close>

definition lower_weight :: "rr_peer \<Rightarrow> int" where
  "lower_weight peer = sint ((word_of_int (effective_weight peer) :: u64) - word_of_int (weight peer) div max_fails peer)"

definition peer_failed :: "int \<Rightarrow> rr_peer \<Rightarrow> rr_peer" where
  "peer_failed now peer =
     (let peer = peer\<lparr>fails := fails peer + 1, accessed := now, checked := now\<rparr>;
          peer = (if max_fails peer \<noteq> 0 then peer\<lparr>effective_weight := lower_weight peer\<rparr> else peer)
      in if effective_weight peer < 0 then peer\<lparr>effective_weight := 0\<rparr> else peer)"

definition peer_passed :: "rr_peer \<Rightarrow> rr_peer" where
  "peer_passed peer = (if accessed peer < checked peer then peer\<lparr>fails := 0\<rparr> else peer)"

definition on_peer :: "nat \<times> nat \<Rightarrow> (rr_peer \<Rightarrow> rr_peer) \<Rightarrow> rr_peers list \<Rightarrow> rr_peers list" where
  "on_peer lp f ups =
     ups[fst lp := (ups ! fst lp)\<lparr>peer_list := (peer_list (ups ! fst lp))[snd lp := f (peer_list (ups ! fst lp) ! snd lp)]\<rparr>]"

text \<open>\<open>None\<close> when \<open>rrp->current\<close> is a null pointer.\<close>

definition ngx_http_upstream_free_round_robin_peer ::
  "int \<Rightarrow> rr_peers list \<Rightarrow> rr_peer_data \<Rightarrow> peer_connection \<Rightarrow> nat \<Rightarrow> (rr_peers list \<times> peer_connection) option" where
  "ngx_http_upstream_free_round_robin_peer now ups rrp pc state =
     (case current rrp of
        None \<Rightarrow> None
      | Some lp \<Rightarrow>
          if single (ups ! rrp_peers rrp) then
            Some (on_peer lp (\<lambda>peer. peer\<lparr>conns := conns peer - 1\<rparr>) ups, pc\<lparr>pc_tries := 0\<rparr>)
          else
            (let f = (if state AND NGX_PEER_FAILED \<noteq> 0 then peer_failed now else peer_passed) in
             Some (on_peer lp (\<lambda>peer. let peer = f peer in peer\<lparr>conns := conns peer - 1\<rparr>) ups,
                   pc\<lparr>pc_tries := (if pc_tries pc \<noteq> 0 then pc_tries pc - 1 else pc_tries pc)\<rparr>)))"

subsection \<open>The bits of the tried peers\<close>

lemma push_bit_and: "(x AND push_bit k 1 \<noteq> 0) = bit x k" if "k < 64" for x :: u64
proof -
  have "x AND push_bit k 1 = (if bit x k then push_bit k 1 else 0)"
    by (rule bit_word_eqI) (auto simp: bit_simps)
  moreover have "push_bit k (1 :: u64) \<noteq> 0" using that by (auto simp: bit_eq_iff bit_simps)
  ultimately show ?thesis by simp
qed

lemma is_tried_bit: "is_tried ts i \<longleftrightarrow> bit (ts ! (i div 64)) (i mod 64)"
  unfolding is_tried_def by (rule push_bit_and) simp

lemma is_tried_set:
  assumes "p div 64 < length ts"
  shows "is_tried (set_tried ts p) q \<longleftrightarrow> q = p \<or> is_tried ts q"
proof (cases "q div 64 = p div 64")
  case True
  then have "q = p \<longleftrightarrow> q mod 64 = p mod 64" by (metis div_mult_mod_eq)
  then show ?thesis using True assms by (auto simp: is_tried_bit set_tried_def bit_simps)
next
  case False
  then have "q \<noteq> p" by auto
  then show ?thesis using False by (simp add: is_tried_bit set_tried_def)
qed

lemma length_set_tried [simp]: "length (set_tried ts p) = length ts"
  by (simp add: set_tried_def)

lemma tried_words_less: "p < n \<Longrightarrow> p div 64 < tried_words n"
  by (simp add: tried_words_def)

lemma tried_words_mono: "m \<le> n \<Longrightarrow> tried_words m \<le> tried_words n"
  by (simp add: tried_words_def div_le_mono)

lemma clear_tried_none: "p < n \<Longrightarrow> \<not> is_tried (clear_tried n ts) p"
  using tried_words_less [of p n] by (simp add: is_tried_bit clear_tried_def nth_append)

lemma length_clear_tried [simp]: "tried_words n \<le> length ts \<Longrightarrow> length (clear_tried n ts) = length ts"
  by (simp add: clear_tried_def)

subsection \<open>What the loop over the peers does\<close>

definition passed_over :: "int \<Rightarrow> u64 list \<Rightarrow> nat \<Rightarrow> rr_peer \<Rightarrow> bool" where
  "passed_over now ts i peer \<longleftrightarrow> is_tried ts i \<or> unusable now peer"

definition looked_at :: "int \<Rightarrow> u64 list \<Rightarrow> nat \<Rightarrow> rr_peer \<Rightarrow> rr_peer" where
  "looked_at now ts i peer = (if passed_over now ts i peer then peer else raise_weight peer)"

abbreviation weight_sum :: "rr_peer list \<Rightarrow> int" where
  "weight_sum ps \<equiv> sum_list (map current_weight ps)"

lemma loop_length [simp]: "length (fst (get_peer_loop now ts i best tot ps)) = length ps"
  by (induction now ts i best tot ps rule: get_peer_loop.induct) (auto simp: Let_def case_prod_beta)

lemma loop_nth:
  "k < length ps \<Longrightarrow> fst (get_peer_loop now ts i best tot ps) ! k = looked_at now ts (i + k) (ps ! k)"
  by (induction now ts i best tot ps arbitrary: k rule: get_peer_loop.induct)
    (auto simp: Let_def case_prod_beta nth_Cons' looked_at_def passed_over_def)

lemma loop_sum: "weight_sum (fst (get_peer_loop now ts i best tot ps)) = weight_sum ps + (snd (snd (get_peer_loop now ts i best tot ps)) - tot)"
  by (induction now ts i best tot ps rule: get_peer_loop.induct) (auto simp: Let_def case_prod_beta raise_weight_def)

lemma peer_loop_total:
  "snd (snd (get_peer_loop now ts i best tot ps)) =
     tot + (\<Sum>k<length ps. if passed_over now ts (i + k) (ps ! k) then 0 else effective_weight (ps ! k))"
  by (induction now ts i best tot ps rule: get_peer_loop.induct)
    (auto simp: Let_def case_prod_beta passed_over_def sum.lessThan_Suc_shift simp del: sum.lessThan_Suc cong: if_cong)

text \<open>The best peer is the first of the greatest current weight.\<close>

lemma loop_best:
  "case fst (snd (get_peer_loop now ts i best tot ps)) of
     None \<Rightarrow> best = None \<and> (\<forall>k<length ps. passed_over now ts (i + k) (ps ! k))
   | Some (p, w) \<Rightarrow>
       (best = Some (p, w) \<or>
        (\<exists>k<length ps. p = i + k \<and> \<not> passed_over now ts p (ps ! k) \<and> w = current_weight (raise_weight (ps ! k)))) \<and>
       (\<forall>k<length ps. \<not> passed_over now ts (i + k) (ps ! k) \<longrightarrow> current_weight (raise_weight (ps ! k)) \<le> w) \<and>
       (\<forall>q v. best = Some (q, v) \<longrightarrow> v \<le> w)"
proof (induction now ts i best tot ps rule: get_peer_loop.induct)
  case (1 now ts i best tot)
  then show ?case by (auto split: option.splits)
next
  case (2 now ts i best tot peer ps)
  show ?case
  proof (cases "is_tried ts i \<or> unusable now peer")
    case True
    then have l: "fst (snd (get_peer_loop now ts i best tot (peer # ps))) = fst (snd (get_peer_loop now ts (i + 1) best tot ps))"
      by (simp add: Let_def case_prod_beta)
    have "passed_over now ts i peer" using True by (simp add: passed_over_def)
    with 2(1) [OF True] show ?thesis unfolding l
      by (auto simp: All_less_Suc2 Ex_less_Suc2 split: option.splits)
  next
    case False
    let ?b = "case best of None \<Rightarrow> Some (i, current_weight (raise_weight peer))
      | Some (p, w) \<Rightarrow> if current_weight (raise_weight peer) > w then Some (i, current_weight (raise_weight peer)) else best"
    have l: "fst (snd (get_peer_loop now ts i best tot (peer # ps))) =
        fst (snd (get_peer_loop now ts (i + 1) ?b (tot + effective_weight peer) ps))"
      using False by (simp add: Let_def case_prod_beta)
    have "\<not> passed_over now ts i peer" using False by (simp add: passed_over_def)
    with 2(2) [OF False refl refl refl] show ?thesis unfolding l
      by (auto simp: All_less_Suc2 Ex_less_Suc2 split: option.splits if_splits)
  qed
qed

text \<open>The effective weights of the peers that take part, and what the choice leaves of a group.\<close>

definition round_total :: "int \<Rightarrow> u64 list \<Rightarrow> rr_peer list \<Rightarrow> int" where
  "round_total now ts ps = (\<Sum>k<length ps. if passed_over now ts k (ps ! k) then 0 else effective_weight (ps ! k))"

definition chosen_peer :: "int \<Rightarrow> int \<Rightarrow> rr_peer \<Rightarrow> rr_peer" where
  "chosen_peer now tot peer = touch_checked now (peer\<lparr>current_weight := current_weight peer - tot\<rparr>)"

lemma sum_list_update_peer: "k < length ps \<Longrightarrow> weight_sum (ps[k := x]) = weight_sum ps - current_weight (ps ! k) + current_weight x"
  by (induction ps arbitrary: k) (auto simp: nth_Cons' split: nat.splits)

lemma get_peer_cases:
  obtains (none) "ngx_http_upstream_get_peer now peers ts = None"
    "\<And>k. k < length (peer_list peers) \<Longrightarrow> passed_over now ts k (peer_list peers ! k)"
  | (some) p ps where
    "ngx_http_upstream_get_peer now peers ts = Some (peers\<lparr>peer_list := ps\<rparr>, set_tried ts p, p)"
    "p < length (peer_list peers)" "\<not> passed_over now ts p (peer_list peers ! p)" "length ps = length (peer_list peers)"
    "ps ! p = chosen_peer now (round_total now ts (peer_list peers)) (raise_weight (peer_list peers ! p))"
    "\<And>k. k < length ps \<Longrightarrow> k \<noteq> p \<Longrightarrow> ps ! k = looked_at now ts k (peer_list peers ! k)"
    "weight_sum ps = weight_sum (peer_list peers)"
    "\<And>k. k < length ps \<Longrightarrow> \<not> passed_over now ts k (peer_list peers ! k) \<Longrightarrow>
       current_weight (raise_weight (peer_list peers ! k)) \<le> current_weight (raise_weight (peer_list peers ! p))"
proof -
  let ?l = "get_peer_loop now ts 0 None 0 (peer_list peers)"
  let ?ps = "fst ?l" and ?tot = "snd (snd ?l)"
  have tot: "?tot = round_total now ts (peer_list peers)" by (simp add: peer_loop_total round_total_def)
  show ?thesis
  proof (cases "fst (snd ?l)")
    case None
    then have "ngx_http_upstream_get_peer now peers ts = None"
      by (simp add: ngx_http_upstream_get_peer_def case_prod_beta split: prod.splits)
    moreover have "passed_over now ts k (peer_list peers ! k)" if "k < length (peer_list peers)" for k
      using loop_best [where now = now and ts = ts and i = 0 and best = None and tot = 0 and ps = "peer_list peers"] None that by simp
    ultimately show ?thesis by (rule none)
  next
    case (Some pw)
    then obtain p w where b: "fst (snd ?l) = Some (p, w)" by (cases pw) simp
    note best = loop_best [where now = now and ts = ts and i = 0 and best = None and tot = 0 and ps = "peer_list peers", unfolded b]
    have p: "p < length (peer_list peers)" "\<not> passed_over now ts p (peer_list peers ! p)"
      and w: "w = current_weight (raise_weight (peer_list peers ! p))" using best by auto
    have at: "?ps ! p = raise_weight (peer_list peers ! p)" using loop_nth p by (simp add: looked_at_def)
    let ?new = "chosen_peer now ?tot (raise_weight (peer_list peers ! p))"
    have cw: "current_weight ?new = current_weight (?ps ! p) - ?tot" by (simp add: chosen_peer_def touch_checked_def at)
    have "weight_sum (?ps[p := ?new]) = weight_sum ?ps - ?tot"
      using sum_list_update_peer [of p ?ps ?new] p(1) cw by simp
    then have sum: "weight_sum (?ps[p := ?new]) = weight_sum (peer_list peers)" using loop_sum [of now ts 0 None 0 "peer_list peers"] by simp
    obtain qs t where l: "?l = (qs, Some (p, w), t)" using b by (metis prod.collapse)
    have "ngx_http_upstream_get_peer now peers ts = Some (peers\<lparr>peer_list := ?ps[p := ?new]\<rparr>, set_tried ts p, p)"
      using at unfolding ngx_http_upstream_get_peer_def l by (simp add: chosen_peer_def Let_def)
    then show ?thesis
      using p sum best w by (rule_tac some [of "?ps[p := ?new]" p]) (auto simp: loop_nth tot)
  qed
qed

text \<open>Where the weights stay clear of the bounds, the checked choice is the choice.\<close>

definition weights_fit :: "int \<Rightarrow> rr_peer \<Rightarrow> bool" where
  "weights_fit lim peer \<longleftrightarrow> 0 \<le> effective_weight peer \<and> effective_weight peer \<le> weight peer \<and> weight peer \<le> lim \<and>
     - lim \<le> current_weight peer \<and> current_weight peer + effective_weight peer \<le> lim"

lemma raise_weight64_eq: "weights_fit (2 ^ 62) peer \<Longrightarrow> raise_weight64 peer = Some (raise_weight peer)"
  by (auto simp: raise_weight64_def raise_weight_def weights_fit_def)

lemma get_peer_loop64_eq:
  assumes "list_all (weights_fit (2 ^ 62)) ps" "0 \<le> tot" "tot + sum_list (map effective_weight ps) \<le> 2 ^ 62"
  shows "get_peer_loop64 now ts i best tot ps = Some (get_peer_loop now ts i best tot ps)"
  using assms
proof (induction ps arbitrary: i best tot)
  case (Cons peer ps)
  have e: "0 \<le> effective_weight peer" using Cons.prems(1) by (simp add: weights_fit_def)
  have "0 \<le> sum_list (map effective_weight ps)"
    using Cons.prems(1) by (intro sum_list_nonneg) (auto simp: list_all_iff weights_fit_def)
  then have "s64 (tot + effective_weight peer) = Some (tot + effective_weight peer)"
    using Cons.prems(2,3) e by (intro s64_Some) simp_all
  moreover have "raise_weight64 peer = Some (raise_weight peer)" using Cons.prems(1) raise_weight64_eq by simp
  ultimately show ?case using Cons e by (simp add: Let_def case_prod_beta add.assoc)
qed simp

lemma get_peer64_eq:
  assumes "list_all (weights_fit (2 ^ 62)) (peer_list g)" "sum_list (map effective_weight (peer_list g)) \<le> 2 ^ 62"
  shows "get_peer64 now g ts = Some (ngx_http_upstream_get_peer now g ts)"
proof -
  let ?l = "get_peer_loop now ts 0 None 0 (peer_list g)"
  note l = get_peer_loop64_eq [OF assms(1), of 0 now ts 0 None]
  obtain ps best tot where eq: "?l = (ps, best, tot)" by (cases ?l)
  show ?thesis
  proof (cases best)
    case None
    then show ?thesis using l assms(2) eq by (simp add: get_peer64_def ngx_http_upstream_get_peer_def)
  next
    case (Some pw)
    obtain p w where pw: "pw = (p, w)" by (cases pw)
    have b: "p < length (peer_list g)" "\<not> passed_over now ts p (peer_list g ! p)"
      using loop_best [where now = now and ts = ts and i = 0 and best = None and tot = 0 and ps = "peer_list g"] eq Some pw by auto
    have at: "ps ! p = raise_weight (peer_list g ! p)"
      using loop_nth [OF b(1), of now ts 0 None 0] eq b(2) by (simp add: looked_at_def)
    have fit: "weights_fit (2 ^ 62) (peer_list g ! p)" using assms(1) b(1) by (simp add: list_all_length)
    have e: "0 \<le> effective_weight (peer_list g ! k)" if "k < length (peer_list g)" for k
      using assms(1) that by (auto simp: list_all_length weights_fit_def)
    have "tot = round_total now ts (peer_list g)" using peer_loop_total [of now ts 0 None 0 "peer_list g"] eq by (simp add: round_total_def)
    moreover have "0 \<le> round_total now ts (peer_list g)" unfolding round_total_def using e by (intro sum_nonneg) simp
    moreover have "round_total now ts (peer_list g) \<le> sum_list (map effective_weight (peer_list g))"
      unfolding round_total_def sum_list_sum_nth length_map atLeast0LessThan using e by (intro sum_mono) simp
    ultimately have t: "0 \<le> tot" "tot \<le> 2 ^ 62" using assms(2) by simp_all
    have "s64 (current_weight (ps ! p) - tot) = Some (current_weight (ps ! p) - tot)"
      using fit t by (intro s64_Some) (simp_all add: at raise_weight_def weights_fit_def)
    then show ?thesis using l assms(2) eq Some pw by (simp add: get_peer64_def ngx_http_upstream_get_peer_def Let_def)
  qed
qed

subsection \<open>The shares of the peers\<close>

text \<open>One request after the other, each of which succeeds with the first peer it gets.\<close>

definition blank_connection :: peer_connection where
  "blank_connection = \<lparr>pc_sockaddr = None, pc_name = None, pc_tries = 0, pc_cached = False\<rparr>"

definition serve_request :: "int \<Rightarrow> rr_peers list \<Rightarrow> ((nat \<times> nat) \<times> rr_peers list) option" where
  "serve_request now ups =
     (let (rrp, pc) = ngx_http_upstream_init_round_robin_peer ups blank_connection in
      case ngx_http_upstream_get_round_robin_peer now ups rrp pc of
        None \<Rightarrow> None
      | Some (rc, ups, rrp, pc) \<Rightarrow>
          if rc \<noteq> NGX_OK then None
          else Option.bind (current rrp) (\<lambda>lp. Option.bind (ngx_http_upstream_free_round_robin_peer now ups rrp pc 0) (\<lambda>(ups, pc). Some (lp, ups))))"

fun serve_requests :: "int list \<Rightarrow> rr_peers list \<Rightarrow> ((nat \<times> nat) list \<times> rr_peers list) option" where
  "serve_requests [] ups = Some ([], ups)"
| "serve_requests (now # nows) ups =
     Option.bind (serve_request now ups) (\<lambda>(lp, ups). Option.bind (serve_requests nows ups) (\<lambda>(lps, ups). Some (lp # lps, ups)))"

abbreviation weights :: "rr_peers \<Rightarrow> int" where
  "weights g \<equiv> sum_list (map weight (peer_list g))"

text \<open>
  After \<open>t\<close> requests of which \<open>n k\<close> went to the peer \<open>k\<close>: its current weight says how far it is behind its share.
\<close>

definition fair :: "nat \<Rightarrow> (nat \<Rightarrow> nat) \<Rightarrow> rr_peers \<Rightarrow> bool" where
  "fair t n g \<longleftrightarrow>
     length (peer_list g) = number g \<and> 0 < number g \<and> (single g \<longrightarrow> number g = 1) \<and> weight_sum (peer_list g) = 0 \<and>
     (\<forall>k<number g. let peer = peer_list g ! k in
        \<not> down peer \<and> fails peer = 0 \<and> 1 \<le> weight peer \<and> effective_weight peer = weight peer \<and>
        current_weight peer = int t * weight peer - weights g * int (n k) \<and> - weights g < current_weight peer)"

lemma init_tried:
  assumes "g \<in> set (take 2 ups)" "k < number g"
  shows "k div 64 < length (tried (fst (ngx_http_upstream_init_round_robin_peer ups pc)))"
    "\<not> is_tried (tried (fst (ngx_http_upstream_init_round_robin_peer ups pc))) k"
proof -
  define n where "n = (case tl ups of [] \<Rightarrow> number (hd ups) | next # _ \<Rightarrow> if number next > number (hd ups) then number next else number (hd ups))"
  have ts: "tried (fst (ngx_http_upstream_init_round_robin_peer ups pc)) = (if n \<le> 64 then [0] else replicate (tried_words n) 0)"
    by (simp add: ngx_http_upstream_init_round_robin_peer_def n_def Let_def)
  have "k < n" using assms by (cases ups; cases "tl ups") (auto simp: n_def)
  then show "k div 64 < length (tried (fst (ngx_http_upstream_init_round_robin_peer ups pc)))"
    "\<not> is_tried (tried (fst (ngx_http_upstream_init_round_robin_peer ups pc))) k"
    using tried_words_less [of k n] unfolding ts by (auto simp: is_tried_bit)
qed

lemma sum_list_fields: "sum_list (map f ps) = (\<Sum>k<length ps. f (ps ! k))" for f :: "rr_peer \<Rightarrow> int"
  by (simp add: sum_list_sum_nth atLeast0LessThan)

text \<open>The peer with the greatest current weight is ahead of nothing, so it can give up a whole round.\<close>

lemma best_positive:
  assumes "\<forall>k<n. x k + w k \<le> x p + w p" "(\<Sum>k<n. x k) = 0" "0 < (\<Sum>k<n. w k)" "p < n"
  shows "0 < x p + (w p :: int)"
proof (rule ccontr)
  assume "\<not> 0 < x p + w p"
  then have "(\<Sum>k<n. x k + w k) \<le> 0" using assms(1) by (intro sum_nonpos) force
  then show False using assms(2,3) by (simp add: sum.distrib)
qed

lemma fair_choice:
  assumes "fair t n g" "\<And>k. k < number g \<Longrightarrow> \<not> is_tried ts k"
  shows "\<exists>p g' ts'. rr_choice now g ts = Some (g', ts', p) \<and> p < number g \<and> fair (Suc t) (n(p := Suc (n p))) g' \<and>
    number g' = number g \<and> map weight (peer_list g') = map weight (peer_list g)"
proof (cases "single g")
  case True
  then have n: "number g = 1" using assms(1) by (simp add: fair_def)
  then obtain peer where peer: "peer_list g = [peer]" using assms(1) by (auto simp: fair_def length_Suc_conv)
  have "n 0 = t" using assms(1) n peer by (auto simp: fair_def)
  then have "fair (Suc t) (n(0 := Suc (n 0))) g" using assms(1) n peer by (simp add: fair_def algebra_simps)
  moreover have "rr_choice now g ts = Some (g, ts, 0)" using True assms(1) peer n by (simp add: rr_choice_def fair_def)
  ultimately show ?thesis using n by (intro exI conjI; assumption?) simp_all
next
  case False
  note f = assms(1) [unfolded fair_def Let_def]
  let ?P = "peer_list g"
  have len: "length ?P = number g" and sum0: "weight_sum ?P = 0" and n: "0 < number g" using f by blast+
  have wpos: "0 < weight (?P ! k)" if "k < number g" for k using f that by force
  have pass: "\<not> passed_over now ts k (?P ! k)" if "k < number g" for k
    using f that assms(2) by (auto simp: passed_over_def unusable_def)
  have tot: "round_total now ts ?P = weights g"
    unfolding round_total_def sum_list_fields using pass f len by (intro sum.cong) auto
  show ?thesis
  proof (cases rule: get_peer_cases [where now = now and peers = g and ts = ts])
    case none
    then show ?thesis using f pass by (auto simp: len)
  next
    case (some p ps)
    let ?g = "g\<lparr>peer_list := ps\<rparr>"
    have p: "p < number g" using some(2) len by simp
    have at_p: "current_weight (ps ! p) = current_weight (?P ! p) + weight (?P ! p) - weights g"
      "weight (ps ! p) = weight (?P ! p)" "effective_weight (ps ! p) = weight (?P ! p)" "fails (ps ! p) = 0" "\<not> down (ps ! p)"
      using f p some(5) tot by (auto simp: chosen_peer_def touch_checked_def raise_weight_def)
    have at_k: "current_weight (ps ! k) = current_weight (?P ! k) + weight (?P ! k)"
      "weight (ps ! k) = weight (?P ! k)" "effective_weight (ps ! k) = weight (?P ! k)" "fails (ps ! k) = 0" "\<not> down (ps ! k)"
      if "k < number g" "k \<noteq> p" for k
      using f that some(4) some(6) [of k] pass [of k] len by (auto simp: looked_at_def raise_weight_def)
    have "weight (ps ! k) = weight (?P ! k)" if "k < number g" for k using at_p(2) at_k(2) that by (cases "k = p") auto
    then have w: "map weight ps = map weight ?P" using some(4) len by (intro nth_equalityI) auto
    have "0 < current_weight (?P ! p) + weight (?P ! p)"
    proof (rule best_positive [where n = "number g" and x = "\<lambda>k. current_weight (?P ! k)" and w = "\<lambda>k. weight (?P ! k)"])
      show "\<forall>k<number g. current_weight (?P ! k) + weight (?P ! k) \<le> current_weight (?P ! p) + weight (?P ! p)"
        using f p some(4) some(8) pass len by (auto simp: raise_weight_def)
      show "(\<Sum>k<number g. current_weight (?P ! k)) = 0" using sum0 unfolding sum_list_fields len .
      show "0 < (\<Sum>k<number g. weight (?P ! k))" using wpos n by (intro sum_pos) auto
    qed (rule p)
    then have "fair (Suc t) (n(p := Suc (n p))) ?g"
      unfolding fair_def Let_def using w f p at_p at_k some(4,7) len False
      by (auto simp: algebra_simps)
    then show ?thesis
      using some(1) False p w by (intro exI [of _ p] exI [of _ ?g]) (simp add: rr_choice_def)
  qed
qed

lemma fair_update:
  assumes "fair t n g" "p < number g" "\<And>peer. fails peer = 0 \<Longrightarrow> fails (f peer) = 0"
    and "\<And>peer. current_weight (f peer) = current_weight peer \<and> effective_weight (f peer) = effective_weight peer \<and>
      weight (f peer) = weight peer \<and> down (f peer) = down peer"
  shows "fair t n (g\<lparr>peer_list := (peer_list g)[p := f (peer_list g ! p)]\<rparr>)"
    "map weight ((peer_list g)[p := f (peer_list g ! p)]) = map weight (peer_list g)"
proof -
  have m: "map h ((peer_list g)[p := f (peer_list g ! p)]) = map h (peer_list g)" if "\<And>peer. h (f peer) = h peer" for h :: "rr_peer \<Rightarrow> int"
    by (rule nth_equalityI) (auto, metis nth_list_update_eq nth_list_update_neq that)
  show "map weight ((peer_list g)[p := f (peer_list g ! p)]) = map weight (peer_list g)" using m assms(4) by blast
  moreover have "map current_weight ((peer_list g)[p := f (peer_list g ! p)]) = map current_weight (peer_list g)" using m assms(4) by blast
  ultimately show "fair t n (g\<lparr>peer_list := (peer_list g)[p := f (peer_list g ! p)]\<rparr>)"
    using assms by (auto simp: fair_def Let_def nth_list_update)
qed

lemma fair_serve:
  assumes "fair t n g"
  shows "\<exists>p g'. serve_request now (g # rest) = Some ((0, p), g' # rest) \<and> p < number g \<and> fair (Suc t) (n(p := Suc (n p))) g' \<and>
    number g' = number g \<and> map weight (peer_list g') = map weight (peer_list g)"
proof -
  let ?init = "ngx_http_upstream_init_round_robin_peer (g # rest) blank_connection"
  have new: "\<not> is_tried (tried (fst ?init)) k" if "k < number g" for k using init_tried [of g "g # rest"] that by simp
  from fair_choice [OF assms new] obtain p g' ts' where c: "rr_choice now g (tried (fst ?init)) = Some (g', ts', p)" "p < number g"
    "fair (Suc t) (n(p := Suc (n p))) g'" "number g' = number g" "map weight (peer_list g') = map weight (peer_list g)" by metis
  let ?t = "take_peer p g'"
  have t: "fair (Suc t) (n(p := Suc (n p))) ?t" "map weight (peer_list ?t) = map weight (peer_list g)" "number ?t = number g"
    using fair_update [OF c(3), of p "\<lambda>peer. peer\<lparr>conns := conns peer + 1\<rparr>"] c(2,4,5) by (simp_all add: take_peer_def)
  define f where "f = (if single ?t then (\<lambda>peer. peer\<lparr>conns := conns peer - 1\<rparr>)
    else (\<lambda>peer. (peer_passed peer)\<lparr>conns := conns (peer_passed peer) - 1\<rparr>))"
  let ?g = "?t\<lparr>peer_list := (peer_list ?t)[p := f (peer_list ?t ! p)]\<rparr>"
  have "fair (Suc t) (n(p := Suc (n p))) ?g" "map weight (peer_list ?g) = map weight (peer_list g)"
    using fair_update [OF t(1), of p f] t(2,3) c(2) by (auto simp: f_def peer_passed_def)
  moreover have "serve_request now (g # rest) = Some ((0, p), ?g # rest)"
    using c(1) by (simp add: serve_request_def ngx_http_upstream_init_round_robin_peer_def Let_def
        ngx_http_upstream_get_round_robin_peer_def get_from_def get_chain.simps ngx_http_upstream_free_round_robin_peer_def on_peer_def f_def)
  ultimately show ?thesis using c(2) t(3) by (intro exI [of _ p] exI [of _ ?g]) simp
qed

lemma fair_serve_requests:
  assumes "fair t n g"
  shows "\<exists>ps g' n'. serve_requests nows (g # rest) = Some (map (Pair 0) ps, g' # rest) \<and> length ps = length nows \<and>
    set ps \<subseteq> {..<number g} \<and> fair (t + length nows) n' g' \<and> (\<forall>k. n' k = n k + count_list ps k) \<and>
    number g' = number g \<and> map weight (peer_list g') = map weight (peer_list g)"
  using assms
proof (induction nows arbitrary: t n g)
  case Nil
  then show ?case by (intro exI [of _ "[]"] exI [of _ g] exI [of _ n]) simp
next
  case (Cons now nows)
  obtain p g1 where s: "serve_request now (g # rest) = Some ((0, p), g1 # rest)" "p < number g" "fair (Suc t) (n(p := Suc (n p))) g1"
    "number g1 = number g" "map weight (peer_list g1) = map weight (peer_list g)" using fair_serve [OF Cons.prems] by metis
  obtain ps g' n' where r: "serve_requests nows (g1 # rest) = Some (map (Pair 0) ps, g' # rest)" "length ps = length nows"
    "set ps \<subseteq> {..<number g1}" "fair (Suc t + length nows) n' g'" "\<forall>k. n' k = (n(p := Suc (n p))) k + count_list ps k"
    "number g' = number g1" "map weight (peer_list g') = map weight (peer_list g1)" using Cons.IH [OF s(3)] by metis
  moreover have "n' = (\<lambda>k. n k + count_list (p # ps) k)" using r(5) by auto
  ultimately show ?case using s by (intro exI [of _ "p # ps"] exI [of _ g'] exI [of _ n']) simp
qed

lemma fair_fits:
  assumes "fair t n g" "int (number g) * weights g \<le> 2 ^ 62"
  shows "get_peer64 now g ts = Some (ngx_http_upstream_get_peer now g ts)"
proof (rule get_peer64_eq)
  note f = assms(1) [unfolded fair_def Let_def]
  let ?P = "peer_list g" and ?T = "weights g"
  have len: "length ?P = number g" and n: "0 < number g" using f by blast+
  have w: "weight (?P ! k) \<le> ?T" if "k < number g" for k
    unfolding sum_list_fields len using f that by (intro member_le_sum) force+
  have T: "?T \<le> int (number g) * ?T" using n w [of 0] f by (intro mult_le_cancel_right1 [THEN iffD2]) force
  have top: "current_weight (?P ! k) \<le> int (number g - 1) * ?T" if k: "k < number g" for k
  proof -
    have "(\<Sum>j\<in>{..<number g} - {k}. - ?T) \<le> (\<Sum>j\<in>{..<number g} - {k}. current_weight (?P ! j))"
      using f by (intro sum_mono) force
    moreover have "(\<Sum>j<number g. current_weight (?P ! j)) = 0" using f unfolding sum_list_fields len by blast
    then have "(\<Sum>j\<in>{..<number g} - {k}. current_weight (?P ! j)) = - current_weight (?P ! k)"
      using k by (subst (asm) sum.remove [of _ k]) auto
    ultimately show ?thesis using k by (simp add: card_Diff_singleton)
  qed
  have sum: "int (number g) * ?T = int (number g - 1) * ?T + ?T" using n by (cases "number g") (simp_all add: algebra_simps)
  have "weights_fit (2 ^ 62) (?P ! k)" if k: "k < number g" for k
  proof -
    have "1 \<le> weight (?P ! k) \<and> effective_weight (?P ! k) = weight (?P ! k) \<and> - ?T < current_weight (?P ! k)" using f k by blast
    then show ?thesis using top [OF k] w [OF k] T sum assms(2) unfolding weights_fit_def by linarith
  qed
  then show "list_all (weights_fit (2 ^ 62)) ?P" by (simp add: list_all_length len)
  have "sum_list (map effective_weight ?P) = ?T" unfolding sum_list_fields len using f by (intro sum.cong) auto
  then show "sum_list (map effective_weight ?P) \<le> 2 ^ 62" using T assms(2) by simp
qed

lemma fair_serve_checked:
  assumes "fair t n g" "int (number g) * weights g \<le> 2 ^ 62"
  shows "\<exists>lps g'. serve_requests nows (g # rest) = Some (lps, g' # rest) \<and>
    (\<forall>now ts. get_peer64 now g' ts = Some (ngx_http_upstream_get_peer now g' ts))"
proof -
  obtain ps g' n' where s: "serve_requests nows (g # rest) = Some (map (Pair 0) ps, g' # rest)"
    "fair (t + length nows) n' g'" "number g' = number g" "map weight (peer_list g') = map weight (peer_list g)"
    using fair_serve_requests [OF assms(1), of nows rest] by blast
  then have "int (number g') * weights g' \<le> 2 ^ 62" using assms(2) by simp
  then show ?thesis using s(1) fair_fits [OF s(2)] by blast
qed

text \<open>Nobody is a whole request ahead, so after whole rounds nobody is behind either.\<close>

lemma whole_rounds:
  fixes n :: nat
  assumes "\<forall>k<n. T * int (c k) < int t * w k + T" "T = (\<Sum>k<n. w k)" "(\<Sum>k<n. c k) = t" "0 < (T :: int)" "int t = m * T" "k < n"
  shows "int (c k) = m * w k"
proof -
  have "T * int (c j) < T * (m * w j + 1)" if "j < n" for j using assms(1) that unfolding assms(5) by (simp add: algebra_simps)
  then have le: "0 \<le> m * w j - int (c j)" if "j < n" for j using assms(4) that by simp
  have "(\<Sum>j<n. m * w j - int (c j)) = m * T - int (\<Sum>j<n. c j)"
    by (simp add: assms(2) sum_subtractf sum_distrib_left)
  also have "\<dots> = 0" using assms(3,5) by simp
  finally have zero: "(\<Sum>j<n. m * w j - int (c j)) = 0" .
  have "\<forall>j\<in>{..<n}. m * w j - int (c j) = 0"
    by (rule sum_nonneg_eq_0_iff [THEN iffD1, OF _ _ zero]) (use le in auto)
  then show ?thesis using assms(6) by simp
qed

lemma sum_list_zero: "(\<And>w. w \<in> set ws \<Longrightarrow> w = 0) \<Longrightarrow> sum_list ws = (0 :: int)"
  by (induction ws) auto

lemma member_le_sum_list_int: "\<forall>w\<in>set ws. (0 :: int) \<le> w \<Longrightarrow> w \<in> set ws \<Longrightarrow> w \<le> sum_list ws"
  by (induction ws) (auto intro: add_increasing add_increasing2 sum_list_nonneg)

text \<open>The group of the servers when the configuration has been read.\<close>

lemma init_fair:
  assumes "ngx_http_upstream_init_round_robin resolve us = Some ups"
    and "\<And>servers s. us_servers us = Some servers \<Longrightarrow> s \<in> set servers \<Longrightarrow> \<not> srv_backup s \<Longrightarrow> 1 \<le> srv_weight s \<and> \<not> srv_down s"
    and "us_servers us = None \<Longrightarrow> resolve (us_host us) (us_port us) \<noteq> Some []"
  shows "\<exists>g rest. ups = g # rest \<and> fair 0 (\<lambda>_. 0) g"
proof (cases "us_servers us")
  case None
  then obtain addrs where a: "ups = [address_group (us_host us) addrs]" "addrs \<noteq> []"
    using assms(1,3) by (auto simp: ngx_http_upstream_init_round_robin_def split: if_splits)
  have "sum_list (map weight (peer_list (address_group (us_host us) addrs))) = int (length addrs)"
    by (induction addrs) (auto simp: address_group_def)
  moreover have "weight_sum (peer_list (address_group (us_host us) addrs)) = 0"
    by (induction addrs) (auto simp: address_group_def)
  ultimately have "fair 0 (\<lambda>_. 0) (address_group (us_host us) addrs)"
    using a(2) by (auto simp: fair_def address_group_def case_prod_beta)
  then show ?thesis using a(1) by blast
next
  case (Some servers)
  let ?ss = "filter (\<lambda>s. \<not> srv_backup s) servers"
  let ?g = "server_group (us_host us) ?ss"
  have peers: "\<not> down peer \<and> fails peer = 0 \<and> 1 \<le> weight peer \<and> effective_weight peer = weight peer \<and> current_weight peer = 0"
    if "peer \<in> set (peer_list ?g)" for peer
    using that assms(2) [OF Some] by (force simp: server_group_def server_peers_def Let_def)
  have len: "length (peer_list ?g) = number ?g"
    by (simp add: server_group_def server_peers_def Let_def length_concat comp_def)
  have "weight_sum (peer_list ?g) = 0" by (rule sum_list_zero) (use peers in auto)
  moreover have "0 < weights ?g" if "0 < number ?g"
  proof -
    have "peer_list ?g \<noteq> []" using that len by auto
    then have "weight (hd (peer_list ?g)) \<in> set (map weight (peer_list ?g))" by simp
    moreover have "\<forall>w\<in>set (map weight (peer_list ?g)). 0 \<le> w" using peers by fastforce
    ultimately have "weight (hd (peer_list ?g)) \<le> weights ?g" by (meson member_le_sum_list_int)
    then show ?thesis using peers [of "hd (peer_list ?g)"] \<open>peer_list ?g \<noteq> []\<close> by simp
  qed
  ultimately have f: "fair 0 (\<lambda>_. 0) (?g\<lparr>single := b\<rparr>)" if "0 < number ?g" "b \<longrightarrow> number ?g = 1" for b
    using that peers len by (auto simp: fair_def Let_def)
  have "?g\<lparr>single := (number ?g = 1)\<rparr> = ?g" by (simp add: server_group_def Let_def)
  then have "fair 0 (\<lambda>_. 0) ?g" "fair 0 (\<lambda>_. 0) (?g\<lparr>single := False\<rparr>)" if "0 < number ?g" using f [of "number ?g = 1"] f [of False] that by auto
  then show ?thesis using assms(1) Some by (auto simp: ngx_http_upstream_init_round_robin_def Let_def split: if_splits)
qed

text \<open>
  C3: The shares of the peers follow their weights: when the servers are up and every request succeeds, no peer is
  ever a whole request ahead of its share of the requests so far, and after any number of whole rounds (as many
  requests as the weights sum up to) every peer has got exactly its weight in each round.  The number of the peers
  times the sum of their weights is at most \<open>2 ^ 62\<close>; then, whatever the time and the tried peers are, no choice
  during the run overflows an \<open>ngx_int_t\<close>: the checked choice never fails and answers the same.
\<close>

theorem smooth_round_robin:
  assumes "ngx_http_upstream_init_round_robin resolve us = Some ups"
    and "\<And>servers s. us_servers us = Some servers \<Longrightarrow> s \<in> set servers \<Longrightarrow> \<not> srv_backup s \<Longrightarrow> 1 \<le> srv_weight s \<and> \<not> srv_down s"
    and "us_servers us = None \<Longrightarrow> resolve (us_host us) (us_port us) \<noteq> Some []"
    and "int (number (hd ups)) * weights (hd ups) \<le> 2 ^ 62"
  shows "\<exists>g rest ps ups'. ups = g # rest \<and> serve_requests nows ups = Some (map (Pair 0) ps, ups') \<and>
    length ps = length nows \<and> set ps \<subseteq> {..<number g} \<and>
    (\<forall>k<number g.
       weights g * int (count_list ps k) < int (length nows) * weight (peer_list g ! k) + weights g \<and>
       (\<forall>m. int (length nows) = m * weights g \<longrightarrow> int (count_list ps k) = m * weight (peer_list g ! k))) \<and>
    (\<forall>m\<le>length nows. \<exists>lps g'. serve_requests (take m nows) ups = Some (lps, g' # rest) \<and>
       (\<forall>now ts. get_peer64 now g' ts = Some (ngx_http_upstream_get_peer now g' ts)))"
proof -
  obtain g rest where ups: "ups = g # rest" and "fair 0 (\<lambda>_. 0) g"
    using init_fair [OF assms(1)] assms(2,3) by blast
  note start = this(2)
  have checked: "\<exists>lps g'. serve_requests (take m nows) ups = Some (lps, g' # rest) \<and>
      (\<forall>now ts. get_peer64 now g' ts = Some (ngx_http_upstream_get_peer now g' ts))" for m
    using fair_serve_checked [OF start, of "take m nows" rest] assms(4) ups by simp
  from fair_serve_requests [OF start, of nows rest] obtain ps g' n' where s: "serve_requests nows ups = Some (map (Pair 0) ps, g' # rest)"
    "length ps = length nows" "set ps \<subseteq> {..<number g}" "fair (length nows) n' g'" "\<forall>k. n' k = count_list ps k"
    "number g' = number g" "map weight (peer_list g') = map weight (peer_list g)" unfolding ups by auto
  let ?w = "\<lambda>k. weight (peer_list g ! k)" and ?T = "weights g" and ?t = "int (length nows)"
  have len: "length (peer_list g') = number g" "length (peer_list g) = number g"
    using s(4,6) map_eq_imp_length_eq [OF s(7)] by (simp_all add: fair_def)
  have w: "weight (peer_list g' ! k) = ?w k" "1 \<le> ?w k" if "k < number g" for k
  proof -
    show "weight (peer_list g' ! k) = ?w k" using s(7) that len by (metis nth_map)
    moreover have "1 \<le> weight (peer_list g' ! k)" using s(4,6) that by (simp add: fair_def Let_def)
    ultimately show "1 \<le> ?w k" by simp
  qed
  have ahead: "?T * int (count_list ps k) < ?t * ?w k + ?T" if "k < number g" for k
    using s(4,5,6,7) that w(1) [OF that] by (auto simp: fair_def Let_def)
  have pos: "0 < ?T"
  proof -
    have "0 < number g" using s(4,6) by (simp add: fair_def)
    then show ?thesis unfolding sum_list_fields len using w(2) by (intro sum_pos) force+
  qed
  have exact: "int (count_list ps k) = m * ?w k" if "?t = m * ?T" "k < number g" for m k
  proof (rule whole_rounds [OF _ _ _ pos that])
    show "\<forall>k<number g. ?T * int (count_list ps k) < ?t * ?w k + ?T" using ahead by blast
    show "?T = (\<Sum>k<number g. ?w k)" unfolding sum_list_fields len ..
    show "(\<Sum>k<number g. count_list ps k) = length nows" using sum_count_set [OF s(3)] s(2) by simp
  qed
  show ?thesis
    using ups s(1-3) ahead exact checked by (intro exI [of _ g] exI [of _ rest] exI [of _ ps] exI [of _ "g' # rest"]) blast
qed

definition sample_server :: "nat \<Rightarrow> upstream_server" where
  "sample_server w =
     \<lparr>srv_name = [], srv_addrs = [([], [])], srv_weight = w, srv_max_fails = 1, srv_fail_timeout = 10, srv_down = False, srv_backup = False\<rparr>"

definition sample_upstream :: upstream_conf where
  "sample_upstream = \<lparr>us_host = [], us_port = 0, us_servers = Some [sample_server 5, sample_server 1, sample_server 1]\<rparr>"

text \<open>The order of the seven requests of a round with the weights 5, 1 and 1.\<close>

lemma smooth_round_robin_sample:
  "map_option (\<lambda>ups. map_option (map snd \<circ> fst) (serve_requests [0, 0, 0, 0, 0, 0, 0] ups))
     (ngx_http_upstream_init_round_robin (\<lambda>_ _. None) sample_upstream) = Some (Some [0, 0, 1, 0, 2, 0, 0])"
  by code_simp

theorem smooth_round_robin_witness:
  "\<exists>ups ps ups'. ngx_http_upstream_init_round_robin (\<lambda>_ _. None) sample_upstream = Some ups \<and>
     serve_requests (replicate 7 0) ups = Some (map (Pair 0) ps, ups') \<and> count_list ps 0 = 5"
proof -
  have i: "ngx_http_upstream_init_round_robin (\<lambda>_ _. None) sample_upstream =
      Some [server_group [] [sample_server 5, sample_server 1, sample_server 1]]"
    by (simp add: ngx_http_upstream_init_round_robin_def sample_upstream_def sample_server_def server_group_def)
  have "sum_list (map weight (peer_list (server_group [] [sample_server 5, sample_server 1, sample_server 1]))) = 7"
    "weight (peer_list (server_group [] [sample_server 5, sample_server 1, sample_server 1]) ! 0) = 5"
    "number (server_group [] [sample_server 5, sample_server 1, sample_server 1]) = 3"
    by (simp_all add: server_group_def server_peers_def sample_server_def Let_def)
  then show ?thesis
    using smooth_round_robin [OF i, of "replicate 7 0"] i by (fastforce simp: sample_upstream_def sample_server_def)
qed

end
