(* ===== verification/Ngx_Balancer.thy ===== *)
theory Ngx_Balancer
  imports Ngx_Round_Robin
begin

text \<open>
  What the upstream module relies on when it calls a balancer (\<open>src/http/ngx_http_upstream.c\<close>): the contract of
  a choice inside a group of peers, the contract of \<open>peer.get\<close>, and the life of many requests that call
  \<open>peer.get\<close> and \<open>peer.free\<close> of one upstream in any order.  The balancers of the other theories interpret
  the locales; their theorems are proved here once.
\<close>

subsection \<open>The state of a group\<close>

definition group_shape :: "rr_peers \<Rightarrow> nat \<times> bool \<times> int list" where
  "group_shape g = (number g, single g, map weight (peer_list g))"

text \<open>After at most \<open>n\<close> choices: the current weights cancel out, and none is further than \<open>n\<close> rounds off.\<close>

definition group_ok :: "nat \<Rightarrow> rr_peers \<Rightarrow> bool" where
  "group_ok n g \<longleftrightarrow>
     length (peer_list g) = number g \<and> 0 < number g \<and> (single g \<longrightarrow> number g = 1) \<and> 0 < weights g \<and> weights g < 2 ^ 63 \<and>
     uint (total_weight g) = weights g \<and> weight_sum (peer_list g) = 0 \<and>
     (\<forall>k<number g. 0 \<le> effective_weight (peer_list g ! k) \<and> effective_weight (peer_list g ! k) \<le> weight (peer_list g ! k) \<and>
        \<bar>current_weight (peer_list g ! k)\<bar> \<le> int n * weights g)"

definition conns_of :: "rr_peers \<Rightarrow> nat \<Rightarrow> u64" where
  "conns_of g k = conns (peer_list g ! k)"

text \<open>Choosing the peer \<open>p\<close>, seen from the tried peers; nothing is marked where there is but one peer.\<close>

definition marked :: "rr_peers \<Rightarrow> u64 list \<Rightarrow> u64 list \<Rightarrow> nat \<Rightarrow> bool" where
  "marked g ts ts' p \<longleftrightarrow>
     length ts' = length ts \<and> (\<forall>q<number g. is_tried ts q \<longrightarrow> is_tried ts' q) \<and>
     (\<not> single g \<longrightarrow> \<not> is_tried ts p \<and> is_tried ts' p)"

locale peer_choice =
  fixes choice :: "int \<Rightarrow> rr_peers \<Rightarrow> u64 list \<Rightarrow> (rr_peers \<times> u64 list \<times> nat) option"
  assumes choice_some: "choice now g ts = Some (g', ts', p) \<Longrightarrow> group_ok n g \<Longrightarrow> tried_words (number g) \<le> length ts \<Longrightarrow>
      p < number g \<and> group_shape g' = group_shape g \<and> group_ok (Suc n) g' \<and> marked g ts ts' p \<and>
      (\<forall>k<number g. conns_of g' k = conns_of g k) \<and>
      (if single g then \<not> down (peer_list g ! p) else \<not> unusable now (peer_list g ! p))"
    and choice_none: "choice now g ts = None \<Longrightarrow> group_ok n g \<Longrightarrow> k < number g \<Longrightarrow>
      passed_over now ts k (peer_list g ! k)"

text \<open>The balancer data of a request fit the upstream; and what a call of \<open>peer.get\<close> does.\<close>

definition request_fits :: "rr_peers list \<Rightarrow> rr_peer_data \<Rightarrow> bool" where
  "request_fits ups r \<longleftrightarrow> rrp_peers r < length ups \<and> (\<forall>g\<in>set ups. tried_words (number g) \<le> length (tried r))"

definition keeps_tried :: "rr_peers list \<Rightarrow> rr_peer_data \<Rightarrow> rr_peer_data \<Rightarrow> bool" where
  "keeps_tried ups r r' \<longleftrightarrow>
     length (tried r') = length (tried r) \<and> rrp_peers r \<le> rrp_peers r' \<and> rrp_peers r' < length ups \<and>
     (rrp_peers r' = rrp_peers r \<longrightarrow> (\<forall>q<number (ups ! rrp_peers r). is_tried (tried r) q \<longrightarrow> is_tried (tried r') q))"

definition conns_grow :: "rr_peers list \<Rightarrow> rr_peers list \<Rightarrow> (nat \<times> nat) option \<Rightarrow> bool" where
  "conns_grow ups ups' at \<longleftrightarrow>
     (\<forall>l<length ups. \<forall>k<number (ups ! l). conns_of (ups' ! l) k = conns_of (ups ! l) k + (if at = Some (l, k) then 1 else 0))"

definition got_peer :: "rr_peers list \<Rightarrow> rr_peer_data \<Rightarrow> rr_peers list \<Rightarrow> rr_peer_data \<Rightarrow> nat \<Rightarrow> bool" where
  "got_peer ups r ups' r' p \<longleftrightarrow>
     current r' = Some (rrp_peers r', p) \<and> p < number (ups ! rrp_peers r') \<and> conns_grow ups ups' (Some (rrp_peers r', p)) \<and>
     (\<not> single (ups ! rrp_peers r') \<longrightarrow>
        is_tried (tried r') p \<and> (rrp_peers r' = rrp_peers r \<longrightarrow> \<not> is_tried (tried r) p))"

definition got :: "nat \<Rightarrow> rr_peers list \<Rightarrow> rr_peer_data \<Rightarrow> int \<Rightarrow> rr_peers list \<Rightarrow> rr_peer_data \<Rightarrow> bool" where
  "got n ups r rc ups' r' \<longleftrightarrow>
     map group_shape ups' = map group_shape ups \<and> (\<forall>g\<in>set ups'. group_ok (Suc n) g) \<and> keeps_tried ups r r' \<and>
     (rc = NGX_OK \<and> (\<exists>p. got_peer ups r ups' r' p) \<or> rc = NGX_BUSY \<and> conns_grow ups ups' None)"

locale peer_balancer =
  fixes get :: "int \<Rightarrow> rr_peers list \<Rightarrow> 'd \<Rightarrow> peer_connection \<Rightarrow> (int \<times> rr_peers list \<times> 'd \<times> peer_connection) option"
    and rrp :: "'d \<Rightarrow> rr_peer_data"
  assumes get_answers: "request_fits ups (rrp d) \<Longrightarrow> \<forall>g\<in>set ups. group_ok n g \<Longrightarrow>
      \<exists>rc ups' d' pc'. get now ups d pc = Some (rc, ups', d', pc') \<and> got n ups (rrp d) rc ups' (rrp d')"

subsection \<open>From the choice in a group to the whole upstream\<close>

lemma group_ok_mono: "group_ok n g \<Longrightarrow> n \<le> m \<Longrightarrow> group_ok m g"
proof -
  assume g: "group_ok n g" "n \<le> m"
  have "0 \<le> weights g" using g(1) by (simp add: group_ok_def)
  then have "int n * weights g \<le> int m * weights g" using g(2) by (simp add: mult_right_mono)
  then show "group_ok m g" using g(1) unfolding group_ok_def by (meson order_trans)
qed

lemma group_ok_same:
  assumes "group_ok n g" "length ps = number g"
    and "\<And>k. k < number g \<Longrightarrow> current_weight (ps ! k) = current_weight (peer_list g ! k) \<and>
      effective_weight (ps ! k) = effective_weight (peer_list g ! k) \<and> weight (ps ! k) = weight (peer_list g ! k)"
  shows "group_ok n (g\<lparr>peer_list := ps\<rparr>)" "group_shape (g\<lparr>peer_list := ps\<rparr>) = group_shape g"
proof -
  have "map weight ps = map weight (peer_list g)" "map current_weight ps = map current_weight (peer_list g)"
    using assms by (auto simp: group_ok_def intro!: nth_equalityI)
  then show "group_ok n (g\<lparr>peer_list := ps\<rparr>)" "group_shape (g\<lparr>peer_list := ps\<rparr>) = group_shape g"
    using assms by (simp_all add: group_ok_def group_shape_def)
qed

lemma take_peer_ok:
  assumes "group_ok n g" "p < number g"
  shows "group_ok n (take_peer p g)" "group_shape (take_peer p g) = group_shape g"
    "k < number g \<Longrightarrow> conns_of (take_peer p g) k = conns_of g k + (if k = p then 1 else 0)"
  using assms group_ok_same [OF assms(1), of "(peer_list g)[p := (peer_list g ! p)\<lparr>conns := conns (peer_list g ! p) + 1\<rparr>]"]
  by (auto simp: take_peer_def conns_of_def nth_list_update group_ok_def)

lemma forget_fails_ok:
  assumes "group_ok n g"
  shows "group_ok n (forget_fails g)" "group_shape (forget_fails g) = group_shape g"
    "k < number g \<Longrightarrow> conns_of (forget_fails g) k = conns_of g k"
  using assms group_ok_same [OF assms, of "map (\<lambda>peer. peer\<lparr>fails := 0\<rparr>) (peer_list g)"]
  by (auto simp: forget_fails_def conns_of_def group_ok_def)

lemma conns_grow_replace:
  assumes "conns_grow (pre @ g # xs) (pre @ g # ys) at" "\<And>k. k < number g \<Longrightarrow> conns_of g' k = conns_of g k"
  shows "conns_grow (pre @ g # xs) (pre @ g' # ys) at"
  unfolding conns_grow_def
proof (intro allI impI)
  fix l k assume l: "l < length (pre @ g # xs)" and k: "k < number ((pre @ g # xs) ! l)"
  have "(pre @ g' # ys) ! l = (pre @ g # ys) ! l" if "l \<noteq> length pre" using that by (simp add: nth_append nth_Cons')
  then have "conns_of ((pre @ g' # ys) ! l) k = conns_of ((pre @ g # ys) ! l) k" using assms(2) k by (cases "l = length pre") auto
  then show "conns_of ((pre @ g' # ys) ! l) k = conns_of ((pre @ g # xs) ! l) k + (if at = Some (l, k) then 1 else 0)"
    using assms(1) l k by (simp add: conns_grow_def)
qed

text \<open>The group behind \<open>g\<close> answers when \<open>g\<close> has no peer.\<close>

lemma chain_next:
  assumes "length pre = rrp_peers r" "group_ok n g" "tried_words (number b) \<le> length (tried r)"
    and "got n ((pre @ [g]) @ b # rest) (r\<lparr>rrp_peers := rrp_peers r + 1, tried := clear_tried (number b) (tried r)\<rparr>) rc ((pre @ [g]) @ gs) r'"
  shows "rc = NGX_BUSY \<Longrightarrow> got n (pre @ g # b # rest) r NGX_BUSY (pre @ forget_fails g # gs) r'"
    "rc \<noteq> NGX_BUSY \<Longrightarrow> got n (pre @ g # b # rest) r rc (pre @ g # gs) r'"
proof -
  have c: "got n (pre @ g # b # rest) r rc (pre @ g # gs) r'"
    using assms(1,3,4) by (auto simp: got_def keeps_tried_def got_peer_def nth_append)
  then show "rc \<noteq> NGX_BUSY \<Longrightarrow> got n (pre @ g # b # rest) r rc (pre @ g # gs) r'" .
  show "got n (pre @ g # b # rest) r NGX_BUSY (pre @ forget_fails g # gs) r'" if "rc = NGX_BUSY"
    using c that assms(2) forget_fails_ok [OF group_ok_mono [OF assms(2), of "Suc n"]]
    by (auto simp: got_def NGX_BUSY_def NGX_OK_def intro: conns_grow_replace)
qed

lemma chain_last:
  assumes "length pre = rrp_peers r" "\<forall>h\<in>set (pre @ [g]). group_ok n h"
  shows "got n (pre @ [g]) r NGX_BUSY (pre @ [forget_fails g]) r"
  using assms forget_fails_ok [OF group_ok_mono [of n g "Suc n"]]
  by (auto simp: got_def keeps_tried_def conns_grow_def nth_append intro: group_ok_mono)

lemma get_chain_busy: "get_chain choice g rest r pc = (NGX_BUSY, gs, r', pc') \<Longrightarrow> choice g (tried r) = None"
  by (cases "choice g (tried r)"; subst (asm) get_chain.simps) (auto simp: Let_def NGX_OK_def NGX_BUSY_def)

context peer_choice
begin

lemma chain_some:
  assumes "choice now g (tried r) = Some (g', ts', p)" "length pre = rrp_peers r"
    and "\<forall>h\<in>set (pre @ g # rest). group_ok n h \<and> tried_words (number h) \<le> length (tried r)"
  shows "got n (pre @ g # rest) r NGX_OK (pre @ take_peer p g' # rest) (r\<lparr>current := Some (rrp_peers r, p), tried := ts'\<rparr>)"
proof -
  have g: "group_ok n g" "tried_words (number g) \<le> length (tried r)" using assms(3) by simp_all
  note law = choice_some [OF assms(1) g]
  then show ?thesis using assms take_peer_ok [of "Suc n" g' p]
    by (auto simp: got_def keeps_tried_def got_peer_def conns_grow_def nth_append nth_Cons' marked_def group_shape_def
        intro: group_ok_mono)
qed

text \<open>No peer is found only when none can be used; then all failures are forgotten.\<close>

lemma chain_busy:
  assumes "get_chain (choice now) g rest r pc = (NGX_BUSY, gs, r', pc')" "\<forall>h\<in>set (g # rest). group_ok n h \<and> tried_words (number h) \<le> length (tried r)"
  shows "(\<forall>k<number g. passed_over now (tried r) k (peer_list g ! k)) \<and> (\<forall>h\<in>set rest. \<forall>k<number h. unusable now (peer_list h ! k)) \<and>
    (\<forall>h\<in>set gs. \<forall>peer\<in>set (peer_list h). fails peer = 0)"
  using assms
proof (induction rest arbitrary: g r pc gs r' pc')
  case Nil
  note none = get_chain_busy [OF Nil(1)]
  then show ?case using Nil choice_none [OF none, of n] by (auto simp: get_chain.simps forget_fails_def)
next
  case (Cons b rest)
  note none = get_chain_busy [OF Cons.prems(1)]
  let ?r = "r\<lparr>rrp_peers := rrp_peers r + 1, tried := clear_tried (number b) (tried r)\<rparr>"
  obtain rc1 gs1 r1 pc1 where c: "get_chain (choice now) b rest ?r (pc\<lparr>pc_cached := False\<rparr>) = (rc1, gs1, r1, pc1)"
    by (metis prod_cases4)
  have busy: "rc1 = NGX_BUSY" "gs = forget_fails g # gs1"
    using Cons.prems(1) none c by (subst (asm) get_chain.simps, simp add: Let_def split: if_splits)+
  have "length (clear_tried (number b) (tried r)) = length (tried r)" using Cons.prems(2) by simp
  then have ih: "(\<forall>k<number b. passed_over now (tried ?r) k (peer_list b ! k)) \<and> (\<forall>h\<in>set rest. \<forall>k<number h. unusable now (peer_list h ! k)) \<and>
      (\<forall>h\<in>set gs1. \<forall>peer\<in>set (peer_list h). fails peer = 0)"
    using Cons.IH [OF c [unfolded busy(1)]] Cons.prems(2) by simp
  then have "\<forall>k<number b. unusable now (peer_list b ! k)" using clear_tried_none by (auto simp: passed_over_def)
  then show ?case using ih choice_none [OF none, of n] Cons.prems(2) busy(2) by (auto simp: forget_fails_def)
qed

lemma chain_law:
  assumes "get_chain (choice now) g rest r pc = (rc, gs, r', pc')" "length pre = rrp_peers r"
    and "\<forall>h\<in>set (pre @ g # rest). group_ok n h \<and> tried_words (number h) \<le> length (tried r)"
  shows "got n (pre @ g # rest) r rc (pre @ gs) r'"
  using assms
proof (induction rest arbitrary: g r pre pc rc gs r' pc')
  case Nil
  then have g: "group_ok n g" "tried_words (number g) \<le> length (tried r)" by simp_all
  show ?case
  proof (cases "choice now g (tried r)")
    case None
    then show ?thesis using Nil.prems chain_last [of pre r g n] by (auto simp: get_chain.simps)
  next
    case (Some x)
    then show ?thesis using Nil.prems chain_some [of now g r _ _ _ pre "[]" n] by (cases x) (auto simp: get_chain.simps)
  qed
next
  case (Cons b rest)
  then have g: "group_ok n g" "tried_words (number g) \<le> length (tried r)" by simp_all
  show ?case
  proof (cases "choice now g (tried r)")
    case None
    let ?r = "r\<lparr>rrp_peers := rrp_peers r + 1, tried := clear_tried (number b) (tried r)\<rparr>"
    obtain rc1 gs1 r1 pc1 where c: "get_chain (choice now) b rest ?r (pc\<lparr>pc_cached := False\<rparr>) = (rc1, gs1, r1, pc1)"
      by (metis prod_cases4)
    have len: "length (clear_tried (number b) (tried r)) = length (tried r)" using Cons.prems(3) by simp
    have "got n ((pre @ [g]) @ b # rest) ?r rc1 ((pre @ [g]) @ gs1) r1"
      using Cons.IH [OF c, of "pre @ [g]"] Cons.prems(2,3) len by auto
    note behind = chain_next [OF Cons.prems(2) g(1) _ this]
    have "(rc, gs, r') = (if rc1 \<noteq> NGX_BUSY then (rc1, g # gs1, r1) else (NGX_BUSY, forget_fails g # gs1, r1))"
      using Cons.prems(1) None c by (subst (asm) get_chain.simps) (simp add: Let_def split: if_splits)
    then show ?thesis using behind Cons.prems(3) by (auto split: if_splits)
  next
    case (Some x)
    then show ?thesis using Cons.prems chain_some [of now g r _ _ _ pre "b # rest" n] by (cases x) (auto simp: get_chain.simps)
  qed
qed

end

lemma get_from_answers:
  assumes law: "\<And>g rest rc gs r' pc' pre. get g rest r pc = (rc, gs, r', pc') \<Longrightarrow> length pre = rrp_peers r \<Longrightarrow>
      \<forall>h\<in>set (pre @ g # rest). group_ok n h \<and> tried_words (number h) \<le> length (tried r) \<Longrightarrow>
      got n (pre @ g # rest) r rc (pre @ gs) r'"
    and f: "request_fits ups r" "\<forall>g\<in>set ups. group_ok n g"
  shows "\<exists>rc ups' d' pc'. get_from get ups r pc = Some (rc, ups', d', pc') \<and> got n ups r rc ups' d'"
proof -
  let ?l = "rrp_peers r"
  have "drop ?l ups \<noteq> []" using f(1) by (simp add: request_fits_def)
  then obtain g rest where ups: "drop ?l ups = g # rest" by (cases "drop ?l ups") auto
  obtain rc gs r' pc' where c: "get g rest r pc = (rc, gs, r', pc')" by (metis prod_cases4)
  have split: "ups = take ?l ups @ g # rest" using ups append_take_drop_id [of ?l ups] by simp
  have "length (take ?l ups) = ?l" using f(1) by (simp add: request_fits_def)
  moreover have "\<forall>h\<in>set (take ?l ups @ g # rest). group_ok n h \<and> tried_words (number h) \<le> length (tried r)"
    using f split unfolding request_fits_def by metis
  ultimately have "got n ups r rc (take ?l ups @ gs) r'" using law [OF c, of "take ?l ups"] split by metis
  then show ?thesis using c ups by (auto simp: get_from_def)
qed

sublocale peer_choice \<subseteq> peer_balancer "\<lambda>now. get_from (get_chain (choice now))" "\<lambda>r. r"
  by unfold_locales (rule get_from_answers [OF chain_law])

text \<open>A choice moves no current weight by more than a round.\<close>

lemma group_ok_round:
  assumes "group_ok n g" "length ps = number g" "weight_sum ps = weight_sum (peer_list g)"
    and "\<And>k. k < number g \<Longrightarrow> weight (ps ! k) = weight (peer_list g ! k) \<and> 0 \<le> effective_weight (ps ! k) \<and>
      effective_weight (ps ! k) \<le> weight (peer_list g ! k) \<and> \<bar>current_weight (ps ! k) - current_weight (peer_list g ! k)\<bar> \<le> weights g"
  shows "group_ok (Suc n) (g\<lparr>peer_list := ps\<rparr>) \<and> group_shape (g\<lparr>peer_list := ps\<rparr>) = group_shape g"
proof -
  have m: "map weight ps = map weight (peer_list g)" using assms(1,2,4) by (auto simp: group_ok_def intro!: nth_equalityI)
  have "\<bar>current_weight (ps ! k)\<bar> \<le> int (Suc n) * weights g" if "k < number g" for k
  proof -
    have "\<bar>current_weight (peer_list g ! k)\<bar> \<le> int n * weights g" using assms(1) that by (simp add: group_ok_def)
    then have "\<bar>current_weight (ps ! k)\<bar> \<le> int n * weights g + weights g" using assms(4) [OF that] by linarith
    then show ?thesis by (simp add: algebra_simps)
  qed
  then show ?thesis using assms m by (simp add: group_ok_def group_shape_def)
qed

lemma peer_weight_le: "group_ok n g \<Longrightarrow> k < number g \<Longrightarrow> weight (peer_list g ! k) \<le> weights g"
  by (rule member_le_sum_list_int) (auto simp: group_ok_def all_set_conv_all_nth dest: order_trans)

lemma round_total_bounds:
  assumes "group_ok n g" "\<And>k. k < number g \<Longrightarrow> e k = 0 \<or> e k = effective_weight (peer_list g ! k)"
  shows "0 \<le> (\<Sum>k<number g. e k)" "(\<Sum>k<number g. e k) \<le> weights g" "p < number g \<Longrightarrow> e p \<le> (\<Sum>k<number g. e k)"
proof -
  have len: "length (peer_list g) = number g" using assms(1) by (simp add: group_ok_def)
  have e: "0 \<le> e k \<and> e k \<le> weight (peer_list g ! k)" if "k < number g" for k
    using assms(1) assms(2) [OF that] that by (auto simp: group_ok_def dest: order_trans)
  show "0 \<le> (\<Sum>k<number g. e k)" using e by (intro sum_nonneg) auto
  show "(\<Sum>k<number g. e k) \<le> weights g" unfolding sum_list_fields len using e by (intro sum_mono) auto
  show "e p \<le> (\<Sum>k<number g. e k)" if "p < number g" using e that by (intro member_le_sum) auto
qed

lemma raise_weight_ok:
  "group_ok n g \<Longrightarrow> k < number g \<Longrightarrow>
     weight (raise_weight (peer_list g ! k)) = weight (peer_list g ! k) \<and> 0 \<le> effective_weight (raise_weight (peer_list g ! k)) \<and>
     effective_weight (raise_weight (peer_list g ! k)) \<le> weight (peer_list g ! k) \<and>
     current_weight (raise_weight (peer_list g ! k)) = current_weight (peer_list g ! k) + effective_weight (peer_list g ! k) \<and>
     0 \<le> effective_weight (peer_list g ! k) \<and> effective_weight (peer_list g ! k) \<le> weights g"
  using peer_weight_le [of n g k] by (force simp: group_ok_def raise_weight_def)

subsection \<open>The round robin balancer\<close>

lemma get_peer_choice:
  assumes "ngx_http_upstream_get_peer now g ts = Some (g', ts', p)" "group_ok n g" "tried_words (number g) \<le> length ts"
  shows "p < number g \<and> group_shape g' = group_shape g \<and> group_ok (Suc n) g' \<and> length ts' = length ts \<and>
    (\<forall>q. is_tried ts' q \<longleftrightarrow> q = p \<or> is_tried ts q) \<and> \<not> passed_over now ts p (peer_list g ! p) \<and>
    (\<forall>k<number g. conns_of g' k = conns_of g k)"
proof -
  have len: "length (peer_list g) = number g" using assms(2) by (simp add: group_ok_def)
  show ?thesis
  proof (cases rule: get_peer_cases [where now = now and peers = g and ts = ts])
    case (some q ps)
    then have eq: "q = p" "g' = g\<lparr>peer_list := ps\<rparr>" "ts' = set_tried ts p" using assms(1) by auto
    note some = some [unfolded eq(1)]
    have p: "p < number g" using some(2) len by simp
    let ?tot = "round_total now ts (peer_list g)"
    have tot: "?tot = (\<Sum>k<number g. if passed_over now ts k (peer_list g ! k) then 0 else effective_weight (peer_list g ! k))"
      by (simp add: round_total_def len)
    have t: "0 \<le> ?tot" "?tot \<le> weights g" "effective_weight (peer_list g ! p) \<le> ?tot"
      using round_total_bounds [OF assms(2), of "\<lambda>k. if passed_over now ts k (peer_list g ! k) then 0 else effective_weight (peer_list g ! k)"]
        p some(3) unfolding tot by force+
    have g': "group_ok (Suc n) (g\<lparr>peer_list := ps\<rparr>) \<and> group_shape (g\<lparr>peer_list := ps\<rparr>) = group_shape g"
    proof (rule group_ok_round [OF assms(2)])
      fix k assume k: "k < number g"
      show "weight (ps ! k) = weight (peer_list g ! k) \<and> 0 \<le> effective_weight (ps ! k) \<and>
        effective_weight (ps ! k) \<le> weight (peer_list g ! k) \<and> \<bar>current_weight (ps ! k) - current_weight (peer_list g ! k)\<bar> \<le> weights g"
      proof (cases "k = p")
        case True
        then show ?thesis using some(5) raise_weight_ok [OF assms(2) p] t by (auto simp: chosen_peer_def touch_checked_def)
      next
        case False
        then have "ps ! k = looked_at now ts k (peer_list g ! k)" using some(4,6) len k by simp
        then show ?thesis using raise_weight_ok [OF assms(2) k] assms(2) k by (auto simp: looked_at_def group_ok_def)
      qed
    qed (use some(4,7) len in simp_all)
    moreover have "conns (ps ! k) = conns (peer_list g ! k)" if "k < number g" for k
      using that some(4,5) some(6) [of k] len
      by (cases "k = p") (auto simp: chosen_peer_def touch_checked_def raise_weight_def looked_at_def)
    moreover have "p div 64 < length ts" using tried_words_less [OF p] assms(3) by simp
    ultimately show ?thesis using p some(3) by (simp add: eq is_tried_set conns_of_def)
  qed (use assms(1) in simp)
qed

lemma get_peer_none:
  "ngx_http_upstream_get_peer now g ts = None \<Longrightarrow> group_ok n g \<Longrightarrow> k < number g \<Longrightarrow> passed_over now ts k (peer_list g ! k)"
  by (cases rule: get_peer_cases [where now = now and peers = g and ts = ts]) (auto simp: group_ok_def)

interpretation round_robin_choice: peer_choice rr_choice
proof
  fix now g ts g' ts' p n
  assume c: "rr_choice now g ts = Some (g', ts', p)" and g: "group_ok n g" and ts: "tried_words (number g) \<le> length ts"
  show "p < number g \<and> group_shape g' = group_shape g \<and> group_ok (Suc n) g' \<and> marked g ts ts' p \<and>
      (\<forall>k<number g. conns_of g' k = conns_of g k) \<and>
      (if single g then \<not> down (peer_list g ! p) else \<not> unusable now (peer_list g ! p))"
  proof (cases "single g")
    case True
    have "peer_list g \<noteq> []" "0 < number g" using g by (auto simp: group_ok_def)
    then show ?thesis using True c g by (auto simp: rr_choice_def marked_def hd_conv_nth split: if_splits intro: group_ok_mono)
  next
    case False
    then have "ngx_http_upstream_get_peer now g ts = Some (g', ts', p)" using c by (simp add: rr_choice_def)
    then show ?thesis using get_peer_choice [OF _ g ts] False by (auto simp: marked_def passed_over_def)
  qed
next
  fix now g ts n k
  assume a: "rr_choice now g ts = None" "group_ok n g" "k < number g"
  then have "peer_list g \<noteq> []" by (auto simp: group_ok_def)
  with a show "passed_over now ts k (peer_list g ! k)"
    using get_peer_none [of now g ts n k]
    by (auto simp: rr_choice_def group_ok_def hd_conv_nth passed_over_def unusable_def split: if_splits)
qed

subsection \<open>The requests of an upstream\<close>

text \<open>
  A request keeps its balancer data, whether it holds a peer (\<open>u->peer.sockaddr\<close> is set) and the peers it got so
  far.  The upstream module calls \<open>peer.get\<close> while it holds none and \<open>peer.free\<close> once for every peer it got,
  with any state; the requests interleave as they like, at any times.
\<close>

record 'd live_request =
  req_data :: 'd
  req_held :: bool
  req_history :: "(nat \<times> nat) list"

record 'd upstream_state =
  groups :: "rr_peers list"
  requests :: "'d live_request list"

inductive upstream_step ::
  "(int \<Rightarrow> rr_peers list \<Rightarrow> 'd \<Rightarrow> peer_connection \<Rightarrow> (int \<times> rr_peers list \<times> 'd \<times> peer_connection) option) \<Rightarrow>
   ('d \<Rightarrow> rr_peer_data) \<Rightarrow> 'd upstream_state \<Rightarrow> 'd upstream_state \<Rightarrow> bool"
  for get rrp where
  start_request:
    "rrp d = fst (ngx_http_upstream_init_round_robin_peer (groups s) pc) \<Longrightarrow>
       upstream_step get rrp s (s\<lparr>requests := requests s @ [\<lparr>req_data = d, req_held = False, req_history = []\<rparr>]\<rparr>)"
| get_peer:
    "i < length (requests s) \<Longrightarrow> requests s ! i = \<lparr>req_data = d, req_held = False, req_history = h\<rparr> \<Longrightarrow>
     get now (groups s) d pc = Some (rc, ups, d', pc') \<Longrightarrow>
       upstream_step get rrp s
         \<lparr>groups = ups,
          requests = (requests s)[i := \<lparr>req_data = d', req_held = (rc = NGX_OK),
            req_history = (if rc = NGX_OK then the (current (rrp d')) # h else h)\<rparr>]\<rparr>"
| free_peer:
    "i < length (requests s) \<Longrightarrow> requests s ! i = \<lparr>req_data = d, req_held = True, req_history = h\<rparr> \<Longrightarrow>
     ngx_http_upstream_free_round_robin_peer now (groups s) (rrp d) pc state = Some (ups, pc') \<Longrightarrow>
       upstream_step get rrp s
         \<lparr>groups = ups, requests = (requests s)[i := \<lparr>req_data = d, req_held = False, req_history = h\<rparr>]\<rparr>"

text \<open>How many requests hold a peer, and what holds of one request.\<close>

definition holders :: "('d \<Rightarrow> rr_peer_data) \<Rightarrow> 'd live_request list \<Rightarrow> nat \<Rightarrow> nat \<Rightarrow> nat" where
  "holders rrp rs l k = length (filter (\<lambda>r. req_held r \<and> current (rrp (req_data r)) = Some (l, k)) rs)"

definition several :: "rr_peers list \<Rightarrow> nat \<times> nat \<Rightarrow> bool" where
  "several ups lp \<longleftrightarrow> \<not> single (ups ! fst lp)"

definition request_ok :: "('d \<Rightarrow> rr_peer_data) \<Rightarrow> rr_peers list \<Rightarrow> 'd live_request \<Rightarrow> bool" where
  "request_ok rrp ups r \<longleftrightarrow>
     (let d = rrp (req_data r) in
      request_fits ups d \<and>
      (req_held r \<longrightarrow> (\<exists>p. current d = Some (rrp_peers d, p) \<and> p < number (ups ! rrp_peers d))) \<and>
      (\<forall>lp\<in>set (req_history r). fst lp \<le> rrp_peers d \<and> snd lp < number (ups ! fst lp) \<and>
         (fst lp = rrp_peers d \<and> several ups lp \<longrightarrow> is_tried (tried d) (snd lp))) \<and>
      distinct (filter (several ups) (req_history r)))"

definition upstream_ok :: "('d \<Rightarrow> rr_peer_data) \<Rightarrow> nat \<Rightarrow> 'd upstream_state \<Rightarrow> bool" where
  "upstream_ok rrp n s \<longleftrightarrow>
     groups s \<noteq> [] \<and> length (groups s) \<le> 2 \<and> (\<forall>g\<in>set (groups s). group_ok n g) \<and>
     (\<forall>r\<in>set (requests s). request_ok rrp (groups s) r) \<and>
     (\<forall>l<length (groups s). \<forall>k<number (groups s ! l). conns_of (groups s ! l) k = of_nat (holders rrp (requests s) l k))"

lemma holders_update:
  "i < length rs \<Longrightarrow> holders rrp (rs[i := r]) l k + (if req_held (rs ! i) \<and> current (rrp (req_data (rs ! i))) = Some (l, k) then 1 else 0) =
     holders rrp rs l k + (if req_held r \<and> current (rrp (req_data r)) = Some (l, k) then 1 else 0)"
  unfolding holders_def by (rule length_filter_update)

lemma shape_fields:
  assumes "map group_shape ups' = map group_shape ups"
  shows "length ups' = length ups" "l < length ups \<Longrightarrow> number (ups' ! l) = number (ups ! l) \<and> single (ups' ! l) = single (ups ! l)"
    "(\<forall>g\<in>set ups'. P (number g)) \<longleftrightarrow> (\<forall>g\<in>set ups. P (number g))"
proof -
  show len: "length ups' = length ups" using assms map_eq_imp_length_eq by blast
  show *: "number (ups' ! l) = number (ups ! l) \<and> single (ups' ! l) = single (ups ! l)" if "l < length ups" for l
    using assms that len by (metis group_shape_def nth_map prod.inject)
  show "(\<forall>g\<in>set ups'. P (number g)) \<longleftrightarrow> (\<forall>g\<in>set ups. P (number g))" using * len by (auto simp: all_set_conv_all_nth)
qed

text \<open>A request does not see what the others do to the peers.\<close>

lemma request_ok_shape:
  assumes "map group_shape ups' = map group_shape ups" "request_ok rrp ups r"
  shows "request_ok rrp ups' r"
proof -
  note shape = shape_fields [OF assms(1)]
  have d: "rrp_peers (rrp (req_data r)) < length ups" using assms(2) by (simp add: request_ok_def request_fits_def Let_def)
  then have "\<forall>lp\<in>set (req_history r). several ups' lp = several ups lp \<and> number (ups' ! fst lp) = number (ups ! fst lp)"
    using assms(2) shape(2) by (fastforce simp: request_ok_def several_def Let_def)
  moreover from this have "filter (several ups') (req_history r) = filter (several ups) (req_history r)" by (intro filter_cong) auto
  moreover have "request_fits ups' (rrp (req_data r))"
    using assms(2) shape(1) shape(3) [of "\<lambda>n. tried_words n \<le> length (tried (rrp (req_data r)))"]
    by (auto simp: request_ok_def request_fits_def Let_def)
  ultimately show ?thesis using assms(2) shape(2) [OF d] by (simp add: request_ok_def Let_def)
qed

lemma sint_of_int_id: "- (2 ^ 63) \<le> x \<Longrightarrow> x < 2 ^ 63 \<Longrightarrow> sint (word_of_int x :: u64) = x"
  by (simp add: sint_sbintrunc' signed_take_bit_int_eq_self_iff)

lemma quot_bounds: "0 \<le> w \<Longrightarrow> 0 \<le> d \<Longrightarrow> 0 \<le> w div d \<and> w div d \<le> (w :: int)"
  using zdiv_mono2 [of w 1 d] by (cases "d = 0") (auto simp: div_int_pos_iff)

lemma lower_weight_eq:
  assumes "0 \<le> effective_weight peer" "effective_weight peer \<le> weight peer" "weight peer < 2 ^ 63"
  shows "lower_weight peer = effective_weight peer - weight peer div uint (max_fails peer)"
proof -
  have w: "0 \<le> weight peer" using assms by simp
  have "uint (word_of_int (weight peer) :: u64) = weight peer" using assms w by (simp add: uint_word_of_int take_bit_int_eq_self_iff)
  then have "(word_of_int (weight peer) :: u64) div max_fails peer = word_of_int (weight peer div uint (max_fails peer))"
    by (metis uint_div_distrib word_of_int_uint)
  then have "lower_weight peer = sint (word_of_int (effective_weight peer - weight peer div uint (max_fails peer)) :: u64)"
    by (simp add: lower_weight_def)
  also have "\<dots> = effective_weight peer - weight peer div uint (max_fails peer)"
    using assms quot_bounds [OF w uint_ge_0 [of "max_fails peer"]] by (intro sint_of_int_id) linarith+
  finally show ?thesis .
qed

text \<open>A failure lowers the effective weight, but never below zero.\<close>

lemma peer_failed_weights:
  assumes "0 \<le> effective_weight peer" "effective_weight peer \<le> weight peer" "weight peer < 2 ^ 63"
  shows "0 \<le> effective_weight (peer_failed now peer)" "effective_weight (peer_failed now peer) \<le> weight peer"
    "weight (peer_failed now peer) = weight peer" "current_weight (peer_failed now peer) = current_weight peer"
    "conns (peer_failed now peer) = conns peer"
  using assms lower_weight_eq [of "peer\<lparr>fails := fails peer + 1, accessed := now, checked := now\<rparr>"]
    quot_bounds [of "weight peer" "uint (max_fails peer)"]
  by (auto simp: peer_failed_def Let_def)

lemma map_update_same: "f y = f (xs ! l) \<Longrightarrow> map f (xs[l := y]) = map f xs"
  by (rule nth_equalityI) (auto, metis nth_list_update_eq nth_list_update_neq)

lemma on_peer_ok:
  assumes "\<forall>g\<in>set ups. group_ok n g" "l < length ups" "p < number (ups ! l)"
    and f: "\<And>peer. 0 \<le> effective_weight peer \<Longrightarrow> effective_weight peer \<le> weight peer \<Longrightarrow> weight peer < 2 ^ 63 \<Longrightarrow>
      0 \<le> effective_weight (f peer) \<and> effective_weight (f peer) \<le> weight peer \<and> weight (f peer) = weight peer \<and>
      current_weight (f peer) = current_weight peer \<and> conns (f peer) = conns peer - 1"
  shows "map group_shape (on_peer (l, p) f ups) = map group_shape ups" "\<forall>g\<in>set (on_peer (l, p) f ups). group_ok n g"
    "j < length ups \<Longrightarrow> k < number (ups ! j) \<Longrightarrow>
      conns_of (on_peer (l, p) f ups ! j) k = conns_of (ups ! j) k - (if (j, k) = (l, p) then 1 else 0)"
proof -
  let ?g = "ups ! l"
  let ?peer = "peer_list ?g ! p"
  let ?ps = "(peer_list ?g)[p := f ?peer]"
  have g: "group_ok n ?g" using assms(1,2) by simp
  have len: "length (peer_list ?g) = number ?g" using g by (simp add: group_ok_def)
  have "0 \<le> effective_weight ?peer" "effective_weight ?peer \<le> weight ?peer" "weight ?peer < 2 ^ 63"
    using g assms(3) peer_weight_le [OF g assms(3)] by (auto simp: group_ok_def)
  note fp = f [OF this]
  have ws: "map weight ?ps = map weight (peer_list ?g)" "map current_weight ?ps = map current_weight (peer_list ?g)"
    using fp assms(3) len by (auto intro!: nth_equalityI simp: nth_list_update)
  have g': "group_ok n (?g\<lparr>peer_list := ?ps\<rparr>)" "group_shape (?g\<lparr>peer_list := ?ps\<rparr>) = group_shape ?g"
    using g ws fp assms(3) len by (auto simp: group_ok_def group_shape_def nth_list_update)
  have o: "on_peer (l, p) f ups = ups[l := ?g\<lparr>peer_list := ?ps\<rparr>]" by (simp add: on_peer_def)
  show "map group_shape (on_peer (l, p) f ups) = map group_shape ups"
    unfolding o by (rule map_update_same [OF g'(2)])
  show "\<forall>g\<in>set (on_peer (l, p) f ups). group_ok n g" unfolding o using assms(1) g'(1) by (auto dest: set_update_subset_insert [THEN subsetD])
  show "conns_of (on_peer (l, p) f ups ! j) k = conns_of (ups ! j) k - (if (j, k) = (l, p) then 1 else 0)"
    if "j < length ups" "k < number (ups ! j)"
    unfolding o using that fp assms(2,3) len by (auto simp: nth_list_update conns_of_def)
qed

lemma free_law:
  assumes "\<forall>g\<in>set ups. group_ok n g" "current r = Some (l, p)" "l < length ups" "p < number (ups ! l)"
  shows "\<exists>ups' pc'. ngx_http_upstream_free_round_robin_peer now ups r pc state = Some (ups', pc') \<and>
    map group_shape ups' = map group_shape ups \<and> (\<forall>g\<in>set ups'. group_ok n g) \<and>
    (\<forall>j<length ups. \<forall>k<number (ups ! j). conns_of (ups' ! j) k = conns_of (ups ! j) k - (if (j, k) = (l, p) then 1 else 0))"
proof -
  let ?h = "if state AND NGX_PEER_FAILED \<noteq> 0 then peer_failed now else peer_passed"
  define f where "f = (if single (ups ! rrp_peers r) then (\<lambda>peer. peer\<lparr>conns := conns peer - 1\<rparr>)
    else (\<lambda>peer. let peer = ?h peer in peer\<lparr>conns := conns peer - 1\<rparr>))"
  have f: "0 \<le> effective_weight (f peer) \<and> effective_weight (f peer) \<le> weight peer \<and> weight (f peer) = weight peer \<and>
      current_weight (f peer) = current_weight peer \<and> conns (f peer) = conns peer - 1"
    if "0 \<le> effective_weight peer" "effective_weight peer \<le> weight peer" "weight peer < 2 ^ 63" for peer
    using that peer_failed_weights [OF that, of now] by (simp add: f_def Let_def peer_passed_def)
  have "\<exists>pc'. ngx_http_upstream_free_round_robin_peer now ups r pc state = Some (on_peer (l, p) f ups, pc')"
    using assms(2) by (simp add: ngx_http_upstream_free_round_robin_peer_def f_def Let_def)
  then show ?thesis using on_peer_ok [OF assms(1,3,4) f] by blast
qed

lemma init_fits:
  assumes "ups \<noteq> []" "length ups \<le> 2"
  shows "request_fits ups (fst (ngx_http_upstream_init_round_robin_peer ups pc))"
proof -
  define n where "n = (case tl ups of [] \<Rightarrow> number (hd ups) | next # _ \<Rightarrow> if number next > number (hd ups) then number next else number (hd ups))"
  have ts: "tried (fst (ngx_http_upstream_init_round_robin_peer ups pc)) = (if n \<le> 64 then [0] else replicate (tried_words n) 0)"
    by (simp add: ngx_http_upstream_init_round_robin_peer_def n_def Let_def)
  have "number g \<le> n" if "g \<in> set ups" for g using assms that by (cases ups; cases "tl ups") (auto simp: n_def)
  then have "tried_words (number g) \<le> length (tried (fst (ngx_http_upstream_init_round_robin_peer ups pc)))" if "g \<in> set ups" for g
    using tried_words_mono [of "number g" n] tried_words_mono [of n 64] that unfolding ts by (fastforce simp: tried_words_def)
  then show ?thesis using assms(1) by (simp add: request_fits_def ngx_http_upstream_init_round_robin_peer_def Let_def)
qed

lemma request_ok_get:
  assumes "request_ok rrp ups \<lparr>req_data = d, req_held = False, req_history = h\<rparr>" "got n ups (rrp d) rc ups' (rrp d')"
  shows "request_ok rrp ups \<lparr>req_data = d', req_held = (rc = NGX_OK), req_history = (if rc = NGX_OK then the (current (rrp d')) # h else h)\<rparr>"
proof -
  let ?r = "rrp d" and ?r' = "rrp d'"
  have k: "keeps_tried ups ?r ?r'" using assms(2) by (simp add: got_def)
  have fits: "request_fits ups ?r'" using assms(1) k by (auto simp: request_ok_def request_fits_def keeps_tried_def Let_def)
  have old: "fst lp \<le> rrp_peers ?r' \<and> snd lp < number (ups ! fst lp) \<and> (fst lp = rrp_peers ?r' \<and> several ups lp \<longrightarrow>
      rrp_peers ?r' = rrp_peers ?r \<and> is_tried (tried ?r) (snd lp) \<and> is_tried (tried ?r') (snd lp))" if "lp \<in> set h" for lp
    using assms(1) that k by (fastforce simp: request_ok_def keeps_tried_def Let_def)
  show ?thesis
  proof (cases "rc = NGX_OK")
    case True
    then obtain p where p: "got_peer ups ?r ups' ?r' p" using assms(2) by (auto simp: got_def NGX_OK_def NGX_BUSY_def)
    then have "(rrp_peers ?r', p) \<notin> set (filter (several ups) h)" using old [of "(rrp_peers ?r', p)"] by (auto simp: got_peer_def several_def)
    then show ?thesis using True p fits old assms(1) by (fastforce simp: request_ok_def got_peer_def several_def Let_def)
  next
    case False
    then show ?thesis using fits old assms(1) by (simp add: request_ok_def Let_def)
  qed
qed

lemma upstream_okI:
  assumes "upstream_ok rrp n \<lparr>groups = ups, requests = rs\<rparr>" "map group_shape ups' = map group_shape ups"
    and "\<forall>g\<in>set ups'. group_ok m g" "request_ok rrp ups r" "i < length rs"
    and "\<And>l k. l < length ups \<Longrightarrow> k < number (ups ! l) \<Longrightarrow> conns_of (ups' ! l) k = of_nat (holders rrp (rs[i := r]) l k)"
  shows "upstream_ok rrp m \<lparr>groups = ups', requests = rs[i := r]\<rparr>"
proof -
  have "request_ok rrp ups x" if "x \<in> set (rs[i := r])" for x
    using that assms(1,4) by (auto simp: upstream_ok_def dest: set_update_subset_insert [THEN subsetD])
  then have "\<forall>x\<in>set (rs[i := r]). request_ok rrp ups' x" using request_ok_shape [OF assms(2)] by blast
  then show ?thesis using assms shape_fields [OF assms(2)] by (auto simp: upstream_ok_def)
qed

context peer_balancer
begin

lemma upstream_step_ok:
  assumes "upstream_step get rrp s s'" "upstream_ok rrp n s"
  shows "upstream_ok rrp (Suc n) s'"
proof -
  have g: "\<forall>g\<in>set (groups s). group_ok n g" using assms(2) by (simp add: upstream_ok_def)
  have s: "upstream_ok rrp n \<lparr>groups = groups s, requests = requests s\<rparr>" using assms(2) by (simp add: upstream_ok_def)
  have rs: "request_ok rrp (groups s) (requests s ! i)" if "i < length (requests s)" for i using assms(2) that by (simp add: upstream_ok_def)
  have held: "conns_of (groups s ! l) k = of_nat (holders rrp (requests s) l k)"
    if "l < length (groups s)" "k < number (groups s ! l)" for l k using assms(2) that by (simp add: upstream_ok_def)
  from assms(1) show ?thesis
  proof (cases rule: upstream_step.cases)
    case (start_request d pc)
    have "request_ok rrp (groups s) \<lparr>req_data = d, req_held = False, req_history = []\<rparr>"
      using init_fits [of "groups s" pc] assms(2) start_request(2) by (simp add: request_ok_def upstream_ok_def Let_def)
    then show ?thesis using assms(2) start_request(1) by (auto simp: upstream_ok_def holders_def intro: group_ok_mono)
  next
    case (get_peer i d h now pc rc ups d' pc')
    have f: "request_fits (groups s) (rrp d)" using rs [OF get_peer(2)] get_peer(3) by (simp add: request_ok_def Let_def)
    then have got: "got n (groups s) (rrp d) rc ups (rrp d')" using get_answers [OF f g, of now pc] get_peer(4) by auto
    let ?r = "\<lparr>req_data = d', req_held = (rc = NGX_OK), req_history = (if rc = NGX_OK then the (current (rrp d')) # h else h)\<rparr>"
    show ?thesis unfolding get_peer(1)
    proof (rule upstream_okI [OF s _ _ request_ok_get [OF rs [OF get_peer(2), unfolded get_peer(3)] got] get_peer(2)])
      fix l k assume lk: "l < length (groups s)" "k < number (groups s ! l)"
      have "conns_of (ups ! l) k = conns_of (groups s ! l) k + (if rc = NGX_OK \<and> current (rrp d') = Some (l, k) then 1 else 0)"
        using got lk by (auto simp: got_def got_peer_def conns_grow_def NGX_OK_def NGX_BUSY_def)
      moreover have "holders rrp ((requests s)[i := ?r]) l k =
          holders rrp (requests s) l k + (if rc = NGX_OK \<and> current (rrp d') = Some (l, k) then 1 else 0)"
        using holders_update [OF get_peer(2), of rrp ?r l k] get_peer(3) by simp
      ultimately show "conns_of (ups ! l) k = of_nat (holders rrp ((requests s)[i := ?r]) l k)" using held [OF lk] by simp
    qed (use got in \<open>auto simp: got_def\<close>)
  next
    case (free_peer i d h now pc state ups pc')
    note r = rs [OF free_peer(2), unfolded free_peer(3)]
    then obtain p where p: "current (rrp d) = Some (rrp_peers (rrp d), p)" "p < number (groups s ! rrp_peers (rrp d))"
      "rrp_peers (rrp d) < length (groups s)" by (auto simp: request_ok_def request_fits_def Let_def)
    have free: "map group_shape ups = map group_shape (groups s)" "\<forall>g\<in>set ups. group_ok n g"
      "\<forall>j<length (groups s). \<forall>k<number (groups s ! j). conns_of (ups ! j) k = conns_of (groups s ! j) k - (if (j, k) = (rrp_peers (rrp d), p) then 1 else 0)"
      using free_law [OF g p(1) p(3) p(2), of now pc state] free_peer(4) by auto
    let ?r = "\<lparr>req_data = d, req_held = False, req_history = h\<rparr>"
    show ?thesis unfolding free_peer(1)
    proof (rule upstream_okI [OF s free(1) _ _ free_peer(2)])
      show "\<forall>g\<in>set ups. group_ok (Suc n) g" using free(2) by (auto intro: group_ok_mono)
      show "request_ok rrp (groups s) ?r" using r by (simp add: request_ok_def Let_def)
      fix l k assume lk: "l < length (groups s)" "k < number (groups s ! l)"
      have "holders rrp (requests s) l k = holders rrp ((requests s)[i := ?r]) l k + (if (l, k) = (rrp_peers (rrp d), p) then 1 else 0)"
        using holders_update [OF free_peer(2), of rrp ?r l k] free_peer(3) p(1) by auto
      then show "conns_of (ups ! l) k = of_nat (holders rrp ((requests s)[i := ?r]) l k)"
        using free(3) lk held [OF lk] by simp
    qed
  qed
qed

lemma upstream_run_ok: "(upstream_step get rrp ^^ n) s s' \<Longrightarrow> upstream_ok rrp m s \<Longrightarrow> upstream_ok rrp (m + n) s'"
proof (induction n arbitrary: s')
  case (Suc n)
  then obtain s1 where "(upstream_step get rrp ^^ n) s s1" "upstream_step get rrp s1 s'" by auto
  then show ?case using Suc upstream_step_ok by fastforce
qed simp

end

interpretation round_robin: peer_balancer ngx_http_upstream_get_round_robin_peer "\<lambda>r. r"
  unfolding ngx_http_upstream_get_round_robin_peer_def by (rule round_robin_choice.peer_balancer_axioms)

end
