(* ===== verification/Ngx_Least_Conn.thy ===== *)
theory Ngx_Least_Conn
  imports Ngx_Balancer
begin

text \<open>
  The balancer of least connections, \<open>src/http/modules/ngx_http_upstream_least_conn_module.c\<close>: the peer with the
  fewest connections for its weight, and the round robin among the peers that are even.  The products of the
  counters and the weights are unsigned and 64 bits wide.
\<close>

text \<open>\<open>peer->conns * best->weight\<close>.\<close>

definition load :: "rr_peer \<Rightarrow> rr_peer \<Rightarrow> u64" where
  "load peer best = conns peer * word_of_int (weight best)"

fun least_conn_loop :: "int \<Rightarrow> u64 list \<Rightarrow> nat \<Rightarrow> (nat \<times> rr_peer) option \<Rightarrow> bool \<Rightarrow> rr_peer list \<Rightarrow> (nat \<times> rr_peer) option \<times> bool" where
  "least_conn_loop now ts i best many [] = (best, many)"
| "least_conn_loop now ts i best many (peer # ps) =
     (if is_tried ts i \<or> unusable now peer then least_conn_loop now ts (i + 1) best many ps
      else
        case best of
          None \<Rightarrow> least_conn_loop now ts (i + 1) (Some (i, peer)) False ps
        | Some (p, b) \<Rightarrow>
            if load peer b < load b peer then least_conn_loop now ts (i + 1) (Some (i, peer)) False ps
            else if load peer b = load b peer then least_conn_loop now ts (i + 1) best True ps
            else least_conn_loop now ts (i + 1) best many ps)"

text \<open>
  The second loop, among the peers that are even with the best.  \<open>best\<close> points at a peer of the list, so that
  the peer at its own place is the best itself.
\<close>

fun many_loop :: "int \<Rightarrow> u64 list \<Rightarrow> nat \<Rightarrow> nat \<times> rr_peer \<Rightarrow> int \<Rightarrow> rr_peer list \<Rightarrow> rr_peer list \<times> nat \<times> int" where
  "many_loop now ts i best tot [] = ([], fst best, tot)"
| "many_loop now ts i best tot (peer # ps) =
     (if is_tried ts i \<or> down peer \<or> load peer (snd best) \<noteq> load (snd best) peer \<or> unusable now peer then
        (let (ps, p, tot) = many_loop now ts (i + 1) best tot ps in (peer # ps, p, tot))
      else
        (let tot = tot + effective_weight peer;
             peer = raise_weight peer;
             best = (if i = fst best then (i, peer) else best);
             best = (if current_weight peer > current_weight (snd best) then (i, peer) else best);
             (ps, p, tot) = many_loop now ts (i + 1) best tot ps
         in (peer # ps, p, tot)))"

definition least_conn_peer :: "int \<Rightarrow> rr_peers \<Rightarrow> u64 list \<Rightarrow> (rr_peers \<times> u64 list \<times> nat) option" where
  "least_conn_peer now peers ts =
     (case least_conn_loop now ts 0 None False (peer_list peers) of
        (None, _) \<Rightarrow> None
      | (Some (p, b), many) \<Rightarrow>
          (let (ps, p, tot) =
                 (if many then (let (ps, p', tot) = many_loop now ts p (p, b) 0 (drop p (peer_list peers))
                                in (take p (peer_list peers) @ ps, p', tot))
                  else (peer_list peers, p, 0));
               best = ps ! p;
               best = touch_checked now (best\<lparr>current_weight := current_weight best - tot\<rparr>)
           in Some (peers\<lparr>peer_list := ps[p := best]\<rparr>, set_tried ts p, p)))"

fun least_conn_get :: "int \<Rightarrow> rr_peers \<Rightarrow> rr_peers list \<Rightarrow> rr_peer_data \<Rightarrow> peer_connection \<Rightarrow> get_result" where
  "least_conn_get now peers next rrp pc =
     (if single peers then get_chain (rr_choice now) peers next rrp pc
      else
        (let pc = pc\<lparr>pc_cached := False\<rparr> in
         case least_conn_peer now peers (tried rrp) of
           Some (peers, ts, p) \<Rightarrow>
             (NGX_OK, take_peer p peers # next, rrp\<lparr>current := Some (rrp_peers rrp, p), tried := ts\<rparr>, point_at p peers pc)
         | None \<Rightarrow>
             (case next of
                [] \<Rightarrow> (NGX_BUSY, [forget_fails peers], rrp, pc\<lparr>pc_name := Some (upstream_name peers)\<rparr>)
              | backup # rest \<Rightarrow>
                  (let rrp = rrp\<lparr>rrp_peers := rrp_peers rrp + 1, tried := clear_tried (number backup) (tried rrp)\<rparr>;
                       (rc, next, rrp, pc) = least_conn_get now backup rest rrp pc
                   in if rc \<noteq> NGX_BUSY then (rc, peers # next, rrp, pc)
                      else (NGX_BUSY, forget_fails peers # next, rrp, pc\<lparr>pc_name := Some (upstream_name peers)\<rparr>)))))"

declare least_conn_get.simps [simp del]

definition ngx_http_upstream_get_least_conn_peer :: "int \<Rightarrow> rr_peers list \<Rightarrow> rr_peer_data \<Rightarrow> peer_connection \<Rightarrow> get_result option" where
  "ngx_http_upstream_get_least_conn_peer now = get_from (least_conn_get now)"

text \<open>The module takes the configuration and the start of a request from the round robin balancer.\<close>

definition ngx_http_upstream_init_least_conn ::
  "(bytes \<Rightarrow> nat \<Rightarrow> (bytes \<times> bytes) list option) \<Rightarrow> upstream_conf \<Rightarrow> rr_peers list option" where
  "ngx_http_upstream_init_least_conn resolve us = ngx_http_upstream_init_round_robin resolve us"

definition ngx_http_upstream_init_least_conn_peer :: "rr_peers list \<Rightarrow> peer_connection \<Rightarrow> rr_peer_data \<times> peer_connection" where
  "ngx_http_upstream_init_least_conn_peer ups pc = ngx_http_upstream_init_round_robin_peer ups pc"

subsection \<open>What the loops find\<close>

lemma least_conn_loop_found:
  "case least_conn_loop now ts i best many ps of
     (None, m) \<Rightarrow> best = None \<and> (\<forall>k<length ps. passed_over now ts (i + k) (ps ! k))
   | (Some (p, b), m) \<Rightarrow> best = Some (p, b) \<or> (\<exists>k<length ps. p = i + k \<and> b = ps ! k \<and> \<not> passed_over now ts p b)"
proof (induction now ts i best many ps rule: least_conn_loop.induct)
  case (2 now ts i best many peer ps)
  show ?case
  proof (cases "is_tried ts i \<or> unusable now peer")
    case True
    then show ?thesis using 2(1) by (auto simp: passed_over_def All_less_Suc2 Ex_less_Suc2 split: prod.splits option.splits)
  next
    case False
    then have u: "\<not> passed_over now ts i peer" by (simp add: passed_over_def)
    have found: ?thesis if "least_conn_loop now ts i best many (peer # ps) = least_conn_loop now ts (i + 1) best' many' ps"
      "best' = Some (i, peer) \<or> best' = best \<and> best \<noteq> None"
      "case least_conn_loop now ts (i + 1) best' many' ps of
        (None, m) \<Rightarrow> best' = None \<and> (\<forall>k<length ps. passed_over now ts (i + 1 + k) (ps ! k))
      | (Some (p, b), m) \<Rightarrow> best' = Some (p, b) \<or> (\<exists>k<length ps. p = i + 1 + k \<and> b = ps ! k \<and> \<not> passed_over now ts p b)" for best' many'
      unfolding that(1) using that(2,3) u by (auto simp: Ex_less_Suc2 split: prod.splits option.splits)
    show ?thesis
    proof (cases best)
      case None
      show ?thesis by (rule found [of "Some (i, peer)" False]) (use False None 2(2) in simp_all)
    next
      case (Some pb)
      then obtain p b where b: "best = Some (p, b)" by (cases pb) simp
      consider "load peer b < load b peer" | "load peer b = load b peer" | "\<not> load peer b < load b peer" "load peer b \<noteq> load b peer" by blast
      then show ?thesis
      proof cases
        case 1
        show ?thesis by (rule found [of "Some (i, peer)" False]) (use False b 1 2(3) in simp_all)
      next
        case 2
        show ?thesis by (rule found [of best True]) (use False b 2 \<open>load peer b = load b peer\<close> "2.IH"(4) in simp_all)
      next
        case 3
        show ?thesis by (rule found [of best many]) (use False b 3 "2.IH"(5) in simp_all)
      qed
    qed
  qed
qed (auto split: option.splits)

text \<open>The second loop raises the weights of some peers that are not passed over, and takes one of them.\<close>

definition raised :: "int \<Rightarrow> u64 list \<Rightarrow> nat \<Rightarrow> (nat \<Rightarrow> bool) \<Rightarrow> rr_peer list \<Rightarrow> rr_peer list \<Rightarrow> int \<Rightarrow> bool" where
  "raised now ts i R ps qs tot \<longleftrightarrow>
     length qs = length ps \<and>
     (\<forall>k<length ps. qs ! k = (if R k then raise_weight (ps ! k) else ps ! k) \<and> (R k \<longrightarrow> \<not> passed_over now ts (i + k) (ps ! k))) \<and>
     tot = (\<Sum>k<length ps. if R k then effective_weight (ps ! k) else 0)"

lemma raised_Cons:
  assumes "raised now ts (Suc i) R ps qs t" "x \<longrightarrow> \<not> passed_over now ts i peer"
  shows "raised now ts i (case_nat x R) (peer # ps) ((if x then raise_weight peer else peer) # qs) ((if x then effective_weight peer else 0) + t)"
proof -
  have "(\<Sum>k<length (peer # ps). if case_nat x R k then effective_weight ((peer # ps) ! k) else 0) =
      (if x then effective_weight peer else 0) + (\<Sum>k<length ps. if R k then effective_weight (ps ! k) else 0)"
    by (simp add: sum.lessThan_Suc_shift del: sum.lessThan_Suc cong: if_cong)
  then show ?thesis using assms by (auto simp: raised_def nth_Cons All_less_Suc2 split: nat.splits)
qed

lemma many_loop_raised:
  "\<exists>R. raised now ts i R ps (fst (many_loop now ts i best tot ps)) (snd (snd (many_loop now ts i best tot ps)) - tot) \<and>
     (fst (snd (many_loop now ts i best tot ps)) = fst best \<or>
      (\<exists>k<length ps. fst (snd (many_loop now ts i best tot ps)) = i + k \<and> R k))"
proof (induction now ts i best tot ps rule: many_loop.induct)
  case (1 now ts i best tot)
  then show ?case by (simp add: raised_def)
next
  case (2 now ts i best tot peer ps)
  show ?case
  proof (cases "is_tried ts i \<or> down peer \<or> load peer (snd best) \<noteq> load (snd best) peer \<or> unusable now peer")
    case True
    from 2(1) [OF True] obtain R where R: "raised now ts (Suc i) R ps (fst (many_loop now ts (Suc i) best tot ps)) (snd (snd (many_loop now ts (Suc i) best tot ps)) - tot)"
      "fst (snd (many_loop now ts (Suc i) best tot ps)) = fst best \<or> (\<exists>k<length ps. fst (snd (many_loop now ts (Suc i) best tot ps)) = Suc i + k \<and> R k)"
      by auto
    from True have e: "many_loop now ts i best tot (peer # ps) =
        (peer # fst (many_loop now ts (Suc i) best tot ps), snd (many_loop now ts (Suc i) best tot ps))" by (auto simp: case_prod_beta)
    show ?thesis unfolding e using raised_Cons [OF R(1), of False peer] R(2)
      by (intro exI [of _ "case_nat False R"]) (auto simp: Ex_less_Suc2)
  next
    case False
    define b where "b = (if current_weight (raise_weight peer) > current_weight (snd (if i = fst best then (i, raise_weight peer) else best))
      then (i, raise_weight peer) else (if i = fst best then (i, raise_weight peer) else best))"
    let ?l = "many_loop now ts (Suc i) b (tot + effective_weight peer) ps"
    from 2(2) [OF False refl refl refl refl] obtain R where R: "raised now ts (Suc i) R ps (fst ?l) (snd (snd ?l) - (tot + effective_weight peer))"
      "fst (snd ?l) = fst b \<or> (\<exists>k<length ps. fst (snd ?l) = Suc i + k \<and> R k)"
      by (auto simp: b_def)
    have e: "many_loop now ts i best tot (peer # ps) = (raise_weight peer # fst ?l, snd ?l)"
      using False by (simp add: case_prod_beta Let_def b_def)
    have b: "fst b = fst best \<or> fst b = i" by (simp add: b_def)
    have "\<not> passed_over now ts i peer" using False by (simp add: passed_over_def)
    then have "raised now ts i (case_nat True R) (peer # ps) (raise_weight peer # fst ?l) (snd (snd ?l) - tot)"
      using raised_Cons [OF R(1), of True peer] by simp
    then show ?thesis unfolding e using R(2) b by (intro exI [of _ "case_nat True R"]) (auto simp: Ex_less_Suc2)
  qed
qed

text \<open>Where the list begins with the best peer itself, the peer that is taken was raised.\<close>

lemma many_loop_first:
  assumes "\<not> passed_over now ts i peer"
  obtains R where "raised now ts i R (peer # ps) (fst (many_loop now ts i (i, peer) 0 (peer # ps))) (snd (snd (many_loop now ts i (i, peer) 0 (peer # ps))))"
    "\<exists>k<length (peer # ps). fst (snd (many_loop now ts i (i, peer) 0 (peer # ps))) = i + k \<and> R k"
proof -
  let ?l = "many_loop now ts (Suc i) (i, raise_weight peer) (effective_weight peer) ps"
  have u: "\<not> is_tried ts i" "\<not> unusable now peer" "\<not> down peer" using assms by (auto simp: passed_over_def unusable_def)
  have "many_loop now ts i (i, peer) 0 (peer # ps) = (raise_weight peer # fst ?l, snd ?l)"
    using u by (simp add: case_prod_beta Let_def)
  moreover obtain R where R: "raised now ts (Suc i) R ps (fst ?l) (snd (snd ?l) - effective_weight peer)"
    "fst (snd ?l) = i \<or> (\<exists>k<length ps. fst (snd ?l) = Suc i + k \<and> R k)"
    using many_loop_raised [of now ts "Suc i" ps "(i, raise_weight peer)" "effective_weight peer"] by auto
  moreover have "raised now ts i (case_nat True R) (peer # ps) (raise_weight peer # fst ?l) (snd (snd ?l))"
    using raised_Cons [OF R(1), of True peer] assms by simp
  ultimately show ?thesis by (intro that [of "case_nat True R"]) (auto simp: Ex_less_Suc2)
qed

lemma weight_sum_raised:
  assumes "raised now ts i R ps qs tot"
  shows "weight_sum qs = weight_sum ps + tot"
proof -
  have "weight_sum qs = (\<Sum>k<length ps. current_weight (ps ! k) + (if R k then effective_weight (ps ! k) else 0))"
    unfolding sum_list_fields using assms by (intro sum.cong) (auto simp: raised_def raise_weight_def)
  then show ?thesis using assms by (simp add: sum.distrib sum_list_fields raised_def)
qed

text \<open>A choice of the peer \<open>p\<close> after the weights of \<open>R\<close> were raised.\<close>

lemma raised_choice:
  assumes "group_ok n g" "raised now ts 0 R (peer_list g) ps tot" "p < number g" "R p \<or> tot = 0"
  defines "qs \<equiv> ps[p := touch_checked now ((ps ! p)\<lparr>current_weight := current_weight (ps ! p) - tot\<rparr>)]"
  shows "group_ok (Suc n) (g\<lparr>peer_list := qs\<rparr>) \<and> group_shape (g\<lparr>peer_list := qs\<rparr>) = group_shape g \<and>
    (\<forall>k<number g. conns (qs ! k) = conns (peer_list g ! k))"
proof -
  have len: "length (peer_list g) = number g" "length ps = number g" using assms(1,2) by (simp_all add: group_ok_def raised_def)
  have tot: "tot = (\<Sum>k<number g. if R k then effective_weight (peer_list g ! k) else 0)" using assms(2) len by (simp add: raised_def)
  note t = round_total_bounds [OF assms(1), of "\<lambda>k. if R k then effective_weight (peer_list g ! k) else 0", folded tot]
  have at: "ps ! k = (if R k then raise_weight (peer_list g ! k) else peer_list g ! k)" if "k < number g" for k
    using assms(2) that len by (simp add: raised_def)
  have "weight_sum qs = weight_sum ps - tot"
    unfolding qs_def using assms(3) len by (subst sum_list_update_peer) (simp_all add: touch_checked_def)
  then have "weight_sum qs = weight_sum (peer_list g)" using weight_sum_raised [OF assms(2)] by simp
  moreover have "weight (qs ! k) = weight (peer_list g ! k) \<and> 0 \<le> effective_weight (qs ! k) \<and>
      effective_weight (qs ! k) \<le> weight (peer_list g ! k) \<and> \<bar>current_weight (qs ! k) - current_weight (peer_list g ! k)\<bar> \<le> weights g"
    if k: "k < number g" for k
  proof (cases "k = p")
    case True
    have "current_weight (qs ! p) = current_weight (ps ! p) - tot" "weight (qs ! p) = weight (ps ! p)" "effective_weight (qs ! p) = effective_weight (ps ! p)"
      using assms(3) len by (simp_all add: qs_def touch_checked_def)
    moreover have "0 \<le> tot" "tot \<le> weights g" using t(1,2) by auto
    moreover have "effective_weight (peer_list g ! p) \<le> tot" if "R p" using t(3) [OF _ assms(3)] that by auto
    moreover have "0 \<le> effective_weight (peer_list g ! p)" "effective_weight (peer_list g ! p) \<le> weight (peer_list g ! p)"
      using assms(1,3) by (simp_all add: group_ok_def)
    ultimately show ?thesis unfolding True using raise_weight_ok [OF assms(1) assms(3)] at [OF assms(3)] assms(4) by (auto split: if_splits)
  next
    case False
    then have "qs ! k = (if R k then raise_weight (peer_list g ! k) else peer_list g ! k)" using at [OF k] by (simp add: qs_def)
    then show ?thesis using raise_weight_ok [OF assms(1) k] assms(1) k by (auto simp: group_ok_def)
  qed
  moreover have "conns (qs ! k) = conns (peer_list g ! k)" if "k < number g" for k
    using at [OF that] assms(3) len by (cases "k = p") (simp_all add: qs_def touch_checked_def raise_weight_def)
  ultimately show ?thesis using group_ok_round [OF assms(1), of qs] len by (simp add: qs_def)
qed

lemma raised_none: "raised now ts i (\<lambda>_. False) ps ps 0"
  by (simp add: raised_def)

lemma sum_lessThan_split: "(\<Sum>k<m + n. f k) = (\<Sum>k<m. f k) + (\<Sum>k<n. f (m + k))" for f :: "nat \<Rightarrow> int"
  by (induction n) simp_all

lemma raised_drop:
  assumes "raised now ts p R (drop p ps) qs tot" "p \<le> length ps"
  shows "raised now ts 0 (\<lambda>k. p \<le> k \<and> R (k - p)) ps (take p ps @ qs) tot"
proof -
  have "(\<Sum>k<length ps. if p \<le> k \<and> R (k - p) then effective_weight (ps ! k) else 0) =
      (\<Sum>k<p + (length ps - p). if p \<le> k \<and> R (k - p) then effective_weight (ps ! k) else 0)" using assms(2) by simp
  also have "\<dots> = (\<Sum>k<length ps - p. if R k then effective_weight (ps ! (p + k)) else 0)"
    unfolding sum_lessThan_split by (simp add: sum.neutral)
  finally have "(\<Sum>k<length ps. if p \<le> k \<and> R (k - p) then effective_weight (ps ! k) else 0) = tot"
    using assms by (simp add: raised_def cong: if_cong)
  moreover have "qs ! (k - p) = (if R (k - p) then raise_weight (ps ! k) else ps ! k) \<and> (R (k - p) \<longrightarrow> \<not> passed_over now ts k (ps ! k))"
    if "p \<le> k" "k < length ps" for k
    using assms that by (auto simp: raised_def dest!: spec [where x = "k - p"])
  ultimately show ?thesis using assms by (auto simp: raised_def nth_append)
qed

lemma least_conn_peer_cases:
  obtains (none) "least_conn_peer now g ts = None" "\<And>k. k < length (peer_list g) \<Longrightarrow> passed_over now ts k (peer_list g ! k)"
  | (some) p R ps tot where
    "least_conn_peer now g ts =
       Some (g\<lparr>peer_list := ps[p := touch_checked now ((ps ! p)\<lparr>current_weight := current_weight (ps ! p) - tot\<rparr>)]\<rparr>, set_tried ts p, p)"
    "p < length (peer_list g)" "\<not> passed_over now ts p (peer_list g ! p)" "raised now ts 0 R (peer_list g) ps tot" "R p \<or> tot = 0"
proof -
  let ?P = "peer_list g"
  obtain best many where l: "least_conn_loop now ts 0 None False ?P = (best, many)" by fastforce
  note found = least_conn_loop_found [where now = now and ts = ts and i = 0 and best = None and many = False and ps = ?P, unfolded l]
  show ?thesis
  proof (cases best)
    case None
    then show ?thesis using l found by (intro none) (auto simp: least_conn_peer_def)
  next
    case (Some pb)
    then obtain p b where b: "best = Some (p, b)" by (cases pb) simp
    then have p: "p < length ?P" "b = ?P ! p" "\<not> passed_over now ts p b" using found by auto
    show ?thesis
    proof (cases many)
      case False
      then have e: "least_conn_peer now g ts =
          Some (g\<lparr>peer_list := ?P[p := touch_checked now ((?P ! p)\<lparr>current_weight := current_weight (?P ! p) - 0\<rparr>)]\<rparr>, set_tried ts p, p)"
        using l b by (simp add: least_conn_peer_def)
      show ?thesis by (rule some [OF e p(1) _ raised_none]) (use p in simp_all)
    next
      case True
      have d: "drop p ?P = b # drop (Suc p) ?P" using p by (simp add: Cons_nth_drop_Suc)
      obtain R where R: "raised now ts p R (drop p ?P) (fst (many_loop now ts p (p, b) 0 (drop p ?P))) (snd (snd (many_loop now ts p (p, b) 0 (drop p ?P))))"
        "\<exists>k<length (drop p ?P). fst (snd (many_loop now ts p (p, b) 0 (drop p ?P))) = p + k \<and> R k"
        using many_loop_first [OF p(3), of "drop (Suc p) ?P"] unfolding d by metis
      obtain qs q tot where m: "many_loop now ts p (p, b) 0 (drop p ?P) = (qs, q, tot)" by (metis prod_cases3)
      then obtain k where q: "q = p + k" "k < length ?P - p" "R k" using R(2) by auto
      have r: "raised now ts 0 (\<lambda>k. p \<le> k \<and> R (k - p)) ?P (take p ?P @ qs) tot" using R(1) p(1) m by (intro raised_drop) simp_all
      have e: "least_conn_peer now g ts = Some (g\<lparr>peer_list := (take p ?P @ qs)[q := touch_checked now (((take p ?P @ qs) ! q)\<lparr>current_weight :=
          current_weight ((take p ?P @ qs) ! q) - tot\<rparr>)]\<rparr>, set_tried ts q, q)"
        using l b True m by (simp add: least_conn_peer_def Let_def)
      have "\<not> passed_over now ts q (?P ! q)" using r q by (auto simp: raised_def)
      then show ?thesis by (intro some [OF e _ _ r]) (use q in auto)
    qed
  qed
qed

subsection \<open>The contract of a balancer\<close>

definition lc_choice :: "int \<Rightarrow> rr_peers \<Rightarrow> u64 list \<Rightarrow> (rr_peers \<times> u64 list \<times> nat) option" where
  "lc_choice now g ts = (if single g then rr_choice now g ts else least_conn_peer now g ts)"

lemma least_conn_peer_law:
  assumes "least_conn_peer now g ts = Some (g', ts', p)" "group_ok n g" "tried_words (number g) \<le> length ts"
  shows "p < number g \<and> group_shape g' = group_shape g \<and> group_ok (Suc n) g' \<and> length ts' = length ts \<and>
    (\<forall>q. is_tried ts' q \<longleftrightarrow> q = p \<or> is_tried ts q) \<and> \<not> passed_over now ts p (peer_list g ! p) \<and>
    (\<forall>k<number g. conns_of g' k = conns_of g k)"
proof (cases rule: least_conn_peer_cases [where now = now and g = g and ts = ts])
  case (some q R ps tot)
  have q: "q = p" "ts' = set_tried ts p" using some(1) assms(1) by simp_all
  have p: "p < number g" using some(2) q assms(2) by (simp add: group_ok_def)
  then have "p div 64 < length ts" using tried_words_less [OF p] assms(3) by simp
  then show ?thesis
    using raised_choice [OF assms(2) some(4) p] some(1,3,5) assms(1) p by (auto simp: q is_tried_set conns_of_def)
qed (use assms(1) in simp)

interpretation least_conn_choice: peer_choice lc_choice
proof
  fix now g ts g' ts' p n
  assume c: "lc_choice now g ts = Some (g', ts', p)" and g: "group_ok n g" and ts: "tried_words (number g) \<le> length ts"
  show "p < number g \<and> group_shape g' = group_shape g \<and> group_ok (Suc n) g' \<and> marked g ts ts' p \<and>
      (\<forall>k<number g. conns_of g' k = conns_of g k) \<and>
      (if single g then \<not> down (peer_list g ! p) else \<not> unusable now (peer_list g ! p))"
  proof (cases "single g")
    case True
    then show ?thesis using c round_robin_choice.choice_some [OF _ g ts] by (simp add: lc_choice_def)
  next
    case False
    then have "least_conn_peer now g ts = Some (g', ts', p)" using c by (simp add: lc_choice_def)
    then show ?thesis using least_conn_peer_law [OF _ g ts] False by (auto simp: marked_def passed_over_def)
  qed
next
  fix now g ts n k
  assume a: "lc_choice now g ts = None" "group_ok n g" "k < number g"
  show "passed_over now ts k (peer_list g ! k)"
  proof (cases "single g")
    case True
    then show ?thesis using a round_robin_choice.choice_none [of now g ts n k] by (simp add: lc_choice_def)
  next
    case False
    then have "least_conn_peer now g ts = None" using a(1) by (simp add: lc_choice_def)
    then show ?thesis
      using a(2,3) by (cases rule: least_conn_peer_cases [where now = now and g = g and ts = ts]) (auto simp: group_ok_def)
  qed
qed

lemma least_conn_get_law:
  assumes "least_conn_get now g rest r pc = (rc, gs, r', pc')" "length pre = rrp_peers r"
    and "\<forall>h\<in>set (pre @ g # rest). group_ok n h \<and> tried_words (number h) \<le> length (tried r)"
  shows "got n (pre @ g # rest) r rc (pre @ gs) r'"
  using assms
proof (induction rest arbitrary: g r pre pc rc gs r' pc')
  case Nil
  show ?case
  proof (cases "single g")
    case True
    then show ?thesis using Nil round_robin_choice.chain_law [of now g "[]" r pc rc gs r' pc' pre n] by (simp add: least_conn_get.simps)
  next
    case False
    then show ?thesis
      using Nil chain_last [of pre r g n] least_conn_choice.chain_some [of now g r _ _ _ pre "[]" n]
      by (cases "least_conn_peer now g (tried r)") (auto simp: least_conn_get.simps lc_choice_def)
  qed
next
  case (Cons b rest)
  then have g: "group_ok n g" by simp
  consider (one) "single g" | (some) x where "\<not> single g" "least_conn_peer now g (tried r) = Some x"
    | (none) "\<not> single g" "least_conn_peer now g (tried r) = None" by blast
  then show ?case
  proof cases
    case one
    then show ?thesis
      using Cons.prems round_robin_choice.chain_law [of now g "b # rest" r pc rc gs r' pc' pre n] by (simp add: least_conn_get.simps)
  next
    case some
    then show ?thesis using Cons.prems least_conn_choice.chain_some [of now g r _ _ _ pre "b # rest" n]
      by (cases x) (auto simp: least_conn_get.simps lc_choice_def)
  next
    case none
    let ?r = "r\<lparr>rrp_peers := rrp_peers r + 1, tried := clear_tried (number b) (tried r)\<rparr>"
    obtain rc1 gs1 r1 pc1 where c: "least_conn_get now b rest ?r (pc\<lparr>pc_cached := False\<rparr>) = (rc1, gs1, r1, pc1)"
      by (metis prod_cases4)
    have "length (clear_tried (number b) (tried r)) = length (tried r)" using Cons.prems(3) by simp
    then have "got n ((pre @ [g]) @ b # rest) ?r rc1 ((pre @ [g]) @ gs1) r1"
      using Cons.IH [OF c, of "pre @ [g]"] Cons.prems(2,3) by auto
    note behind = chain_next [OF Cons.prems(2) g _ this]
    have "(rc, gs, r') = (if rc1 \<noteq> NGX_BUSY then (rc1, g # gs1, r1) else (NGX_BUSY, forget_fails g # gs1, r1))"
      using Cons.prems(1) none c by (subst (asm) least_conn_get.simps) (simp add: Let_def split: if_splits)
    then show ?thesis using behind Cons.prems(3) by (auto split: if_splits)
  qed
qed

interpretation least_conn: peer_balancer ngx_http_upstream_get_least_conn_peer "\<lambda>r. r"
  by unfold_locales (unfold ngx_http_upstream_get_least_conn_peer_def, rule get_from_answers [OF least_conn_get_law])

subsection \<open>The least load\<close>

text \<open>\<open>p\<close> has no more connections for its weight than \<open>q\<close>; the counters are small enough for the products.\<close>

definition no_more :: "rr_peer \<Rightarrow> rr_peer \<Rightarrow> bool" where
  "no_more p q \<longleftrightarrow> uint (conns p) * weight q \<le> uint (conns q) * weight p"

definition modest :: "rr_peer \<Rightarrow> bool" where
  "modest p \<longleftrightarrow> 1 \<le> weight p \<and> weight p < 2 ^ 32 \<and> uint (conns p) < 2 ^ 32"

lemma uint_load: "modest p \<Longrightarrow> modest q \<Longrightarrow> uint (load p q) = uint (conns p) * weight q"
proof -
  assume m: "modest p" "modest q"
  have w: "uint (word_of_int (weight q) :: u64) = weight q" using m(2) by (simp add: modest_def uint_word_of_int take_bit_int_eq_self_iff)
  have "uint (conns p) * weight q < 2 ^ 32 * 2 ^ 32" using m by (intro mult_strict_mono) (auto simp: modest_def)
  then show ?thesis using m by (simp add: load_def uint_word_ariths w modest_def)
qed

lemma load_no_more:
  assumes "modest p" "modest q"
  shows "load p q < load q p \<longleftrightarrow> \<not> no_more q p" "load p q = load q p \<longleftrightarrow> no_more p q \<and> no_more q p"
  using uint_load [OF assms] uint_load [OF assms(2,1)] by (auto simp: word_less_def no_more_def word_uint_eq_iff)

lemma no_more_total: "no_more p q \<or> no_more q p"
  by (auto simp: no_more_def)

lemma no_more_trans:
  assumes "no_more p q" "no_more q r" "modest p" "modest q" "modest r"
  shows "no_more p r"
proof -
  have "uint (conns p) * weight q * weight r \<le> uint (conns q) * weight p * weight r"
    using assms(1,5) by (intro mult_right_mono) (auto simp: no_more_def modest_def)
  moreover have "uint (conns q) * weight r * weight p \<le> uint (conns r) * weight q * weight p"
    using assms(2,3) by (intro mult_right_mono) (auto simp: no_more_def modest_def)
  ultimately have "(uint (conns p) * weight r) * weight q \<le> (uint (conns r) * weight p) * weight q" by (simp add: algebra_simps)
  then show ?thesis using assms(4) by (simp add: no_more_def modest_def)
qed

lemma least_conn_loop_least:
  assumes "\<forall>peer\<in>set ps. modest peer" "\<And>q b. best = Some (q, b) \<Longrightarrow> modest b"
    and "least_conn_loop now ts i best many ps = (Some (p, b), m)"
  shows "(\<forall>k<length ps. \<not> passed_over now ts (i + k) (ps ! k) \<longrightarrow> no_more b (ps ! k)) \<and> (\<forall>q c. best = Some (q, c) \<longrightarrow> no_more b c) \<and> modest b"
  using assms
proof (induction now ts i best many ps rule: least_conn_loop.induct)
  case (1 now ts i best many)
  then show ?case by (simp add: no_more_def)
next
  case (2 now ts i best many peer ps)
  note sane = 2(6)
  have peer: "modest peer" using sane by simp
  show ?case
  proof (cases "is_tried ts i \<or> unusable now peer")
    case True
    then show ?thesis using 2(1) [OF True] 2(6-8) by (auto simp: All_less_Suc2 passed_over_def)
  next
    case False
    have step: ?thesis if r: "least_conn_loop now ts (i + 1) best' many' ps = (Some (p, b), m)"
      and ih: "(\<forall>k<length ps. \<not> passed_over now ts (i + 1 + k) (ps ! k) \<longrightarrow> no_more b (ps ! k)) \<and> (\<forall>q c. best' = Some (q, c) \<longrightarrow> no_more b c) \<and> modest b"
      and b: "best' = Some (q', c')" "no_more c' peer" "modest c'" "\<And>q c. best = Some (q, c) \<Longrightarrow> no_more c' c" for best' many' q' c'
    proof -
      have "no_more b c'" "modest b" using ih b(1) by auto
      then have "no_more b peer" "\<And>q c. best = Some (q, c) \<Longrightarrow> no_more b c"
        using no_more_trans b(2-4) peer 2(7) by blast+
      then show ?thesis using ih by (auto simp: All_less_Suc2)
    qed
    show ?thesis
    proof (cases best)
      case None
      have r: "least_conn_loop now ts (i + 1) (Some (i, peer)) False ps = (Some (p, b), m)" using 2(8) False None by simp
      show ?thesis by (rule step [OF r 2(2) [OF False None _ _ r]]) (use peer sane None in \<open>auto simp: no_more_def\<close>)
    next
      case (Some qc)
      then obtain q c where qc: "best = Some (q, c)" by (cases qc) simp
      then have c: "modest c" using 2(7) by simp
      consider "load peer c < load c peer" | "load peer c = load c peer" | "\<not> load peer c < load c peer" "load peer c \<noteq> load c peer" by blast
      then show ?thesis
      proof cases
        case 1
        then have r: "least_conn_loop now ts (i + 1) (Some (i, peer)) False ps = (Some (p, b), m)" using 2(8) False qc by simp
        have "no_more peer c" using 1 load_no_more [OF peer c] no_more_total by blast
        then show ?thesis
          by (intro step [OF r 2(3) [OF False qc refl 1 _ _ r]]) (use peer sane qc in \<open>auto simp: no_more_def\<close>)
      next
        case 2
        then have r: "least_conn_loop now ts (i + 1) best True ps = (Some (p, b), m)" using "2.prems"(3) False qc by simp
        have "no_more c peer" using 2 load_no_more [OF peer c] by blast
        then show ?thesis
          by (intro step [OF r "2.IH"(4) [OF False qc refl _ 2 _ _ r]]) (use 2 c sane qc "2.prems" in \<open>auto simp: no_more_def\<close>)
      next
        case 3
        then have r: "least_conn_loop now ts (i + 1) best many ps = (Some (p, b), m)" using "2.prems"(3) False qc by simp
        have "no_more c peer" using 3 load_no_more [OF peer c] no_more_total by blast
        then show ?thesis
          by (intro step [OF r "2.IH"(5) [OF False qc refl 3 _ _ r]]) (use c sane qc "2.prems" in \<open>auto simp: no_more_def\<close>)
      qed
    qed
  qed
qed

lemma raised_even [simp]:
  "no_more (raise_weight p) q = no_more p q" "no_more q (raise_weight p) = no_more q p" "modest (raise_weight p) = modest p"
  by (simp_all add: no_more_def modest_def raise_weight_def)

lemma many_loop_even:
  assumes "\<forall>peer\<in>set ps. modest peer" "modest (snd best)"
  shows "fst (snd (many_loop now ts i best tot ps)) = fst best \<or>
    (\<exists>k<length ps. fst (snd (many_loop now ts i best tot ps)) = i + k \<and> no_more (ps ! k) (snd best))"
  using assms
proof (induction now ts i best tot ps rule: many_loop.induct)
  case (2 now ts i best tot peer ps)
  have peer: "modest peer" using 2(3) by simp
  show ?case
  proof (cases "is_tried ts i \<or> down peer \<or> load peer (snd best) \<noteq> load (snd best) peer \<or> unusable now peer")
    case True
    then show ?thesis using 2(1) [OF True] 2(3,4) by (auto simp: case_prod_beta Ex_less_Suc2)
  next
    case False
    have even: "no_more peer (snd best)" using False load_no_more(2) [OF peer 2(4)] by blast
    define b where "b = (if current_weight (raise_weight peer) > current_weight (snd (if i = fst best then (i, raise_weight peer) else best))
      then (i, raise_weight peer) else (if i = fst best then (i, raise_weight peer) else best))"
    have b: "b = (i, raise_weight peer) \<or> b = best" by (simp add: b_def)
    then have sane: "modest (snd b)" using peer 2(4) by auto
    let ?l = "many_loop now ts (Suc i) b (tot + effective_weight peer) ps"
    have e: "many_loop now ts i best tot (peer # ps) = (raise_weight peer # fst ?l, snd ?l)"
      using False by (simp add: case_prod_beta Let_def b_def)
    have ih: "fst (snd ?l) = fst b \<or> (\<exists>k<length ps. fst (snd ?l) = Suc i + k \<and> no_more (ps ! k) (snd b))"
      using 2(2) [OF False refl refl refl refl] 2(3) sane by (simp add: b_def)
    have "no_more (ps ! k) (snd best)" if "no_more (ps ! k) (snd b)" "k < length ps" for k
      using b that even no_more_trans [of "ps ! k" peer "snd best"] peer 2(3,4) by auto
    then show ?thesis unfolding e using ih b even by (auto simp: Ex_less_Suc2)
  qed
qed simp

lemma least_conn_peer_least:
  assumes "least_conn_peer now g ts = Some (g', ts', p)" "\<forall>peer\<in>set (peer_list g). modest peer"
    and "k < length (peer_list g)" "\<not> passed_over now ts k (peer_list g ! k)"
  shows "no_more (peer_list g ! p) (peer_list g ! k)"
proof -
  let ?P = "peer_list g"
  obtain best many where l: "least_conn_loop now ts 0 None False ?P = (best, many)" by fastforce
  then obtain q b where b: "best = Some (q, b)" using assms(1) by (cases best) (auto simp: least_conn_peer_def)
  have q: "q < length ?P" "b = ?P ! q" "\<not> passed_over now ts q b"
    using least_conn_loop_found [where now = now and ts = ts and i = 0 and best = None and many = False and ps = ?P, unfolded l b] by auto
  have least: "no_more b (?P ! k)" "modest b"
    using least_conn_loop_least [OF assms(2) _ l [unfolded b]] assms(3,4) by auto
  show ?thesis
  proof (cases many)
    case False
    then show ?thesis using assms(1) l b least q by (simp add: least_conn_peer_def)
  next
    case True
    obtain qs p' tot where m: "many_loop now ts q (q, b) 0 (drop q ?P) = (qs, p', tot)" by (metis prod_cases3)
    then have p: "p = p'" using assms(1) l b True by (simp add: least_conn_peer_def Let_def)
    have "\<forall>peer\<in>set (drop q ?P). modest peer" using assms(2) by (blast dest: in_set_dropD)
    then have "p = q \<or> (\<exists>k<length (drop q ?P). p = q + k \<and> no_more (drop q ?P ! k) b)"
      using many_loop_even [of "drop q ?P" "(q, b)" now ts q 0] m p least(2) by simp
    then have even: "no_more (?P ! p) b" "p < length ?P" using q by (auto simp: no_more_def)
    show ?thesis by (rule no_more_trans [OF even(1) least(1)]) (use assms(2,3) even(2) least(2) in auto)
  qed
qed

text \<open>
  C8: The balancer of least connections gives a request a peer of its group whenever one is usable and was not
  tried, and no other such peer has fewer connections for its weight.
\<close>

theorem least_conn_balances:
  assumes "ngx_http_upstream_get_least_conn_peer now ups r pc = Some (rc, ups', r', pc')" "rrp_peers r < length ups"
    and "\<not> single (ups ! rrp_peers r)" "\<forall>peer\<in>set (peer_list (ups ! rrp_peers r)). modest peer"
    and "j < length (peer_list (ups ! rrp_peers r))" "\<not> passed_over now (tried r) j (peer_list (ups ! rrp_peers r) ! j)"
  shows "rc = NGX_OK \<and> (\<exists>p. current r' = Some (rrp_peers r, p) \<and> p < length (peer_list (ups ! rrp_peers r)) \<and>
    \<not> passed_over now (tried r) p (peer_list (ups ! rrp_peers r) ! p) \<and>
    (\<forall>k<length (peer_list (ups ! rrp_peers r)). \<not> passed_over now (tried r) k (peer_list (ups ! rrp_peers r) ! k) \<longrightarrow>
      no_more (peer_list (ups ! rrp_peers r) ! p) (peer_list (ups ! rrp_peers r) ! k)))"
proof -
  let ?g = "ups ! rrp_peers r"
  have d: "drop (rrp_peers r) ups = ?g # drop (Suc (rrp_peers r)) ups" using assms(2) by (simp add: Cons_nth_drop_Suc)
  show ?thesis
  proof (cases rule: least_conn_peer_cases [where now = now and g = ?g and ts = "tried r"])
    case none
    then show ?thesis using assms(5,6) by blast
  next
    case (some p R ps tot)
    have "rc = NGX_OK" "r' = r\<lparr>current := Some (rrp_peers r, p), tried := set_tried (tried r) p\<rparr>"
      using assms(1,3) some(1) d by (auto simp: ngx_http_upstream_get_least_conn_peer_def get_from_def least_conn_get.simps Let_def split: prod.splits)
    then show ?thesis using some(1-3) least_conn_peer_least [OF some(1) assms(4)] by auto
  qed
qed

definition sample_peer :: "u64 \<Rightarrow> int \<Rightarrow> rr_peer" where
  "sample_peer c w =
     \<lparr>sockaddr = [], peer_name = [], server = [], current_weight = 0, effective_weight = w, weight = w, conns = c, fails = 0,
      accessed = 0, checked = 0, max_fails = 1, fail_timeout = 10, down = False\<rparr>"

definition sample_group :: "rr_peer list \<Rightarrow> rr_peers" where
  "sample_group ps =
     \<lparr>number = length ps, total_weight = of_int (sum_list (map weight ps)), single = False, weighted = True, upstream_name = [], peer_list = ps\<rparr>"

theorem least_conn_balances_witness:
  "\<exists>ups' r' pc'. ngx_http_upstream_get_least_conn_peer 0 [sample_group [sample_peer 3 1, sample_peer 4 2]]
       \<lparr>rrp_peers = 0, current = None, tried = [0]\<rparr> blank_connection = Some (NGX_OK, ups', r', pc') \<and>
     current r' = Some (0, 1)"
proof -
  let ?ups = "[sample_group [sample_peer 3 1, sample_peer 4 2]]" and ?r = "\<lparr>rrp_peers = 0, current = None, tried = [0]\<rparr>"
  have u: "\<not> passed_over 0 [0] 0 (sample_peer 3 1)" "\<not> passed_over 0 [0] 1 (sample_peer 4 2)"
    by (simp_all add: passed_over_def is_tried_def unusable_def sample_peer_def)
  have n: "\<not> no_more (sample_peer 3 1) (sample_peer 4 2)" by (simp add: no_more_def sample_peer_def)
  obtain rc ups' r' pc' where a: "ngx_http_upstream_get_least_conn_peer 0 ?ups ?r blank_connection = Some (rc, ups', r', pc')"
    by (auto simp: ngx_http_upstream_get_least_conn_peer_def get_from_def split: prod.splits) (metis prod_cases4)
  have "rc = NGX_OK \<and> (\<exists>p. current r' = Some (0, p) \<and> p < 2 \<and>
      (\<forall>k<2. \<not> passed_over 0 [0] k ([sample_peer 3 1, sample_peer 4 2] ! k) \<longrightarrow>
        no_more ([sample_peer 3 1, sample_peer 4 2] ! p) ([sample_peer 3 1, sample_peer 4 2] ! k)))"
    using least_conn_balances [OF a, of 0] u by (auto simp: sample_group_def modest_def sample_peer_def)
  then show ?thesis using a n u by (auto simp: less_2_cases_iff)
qed

end
