(* ===== verification/Ngx_Ip_Hash.thy ===== *)
theory Ngx_Ip_Hash
  imports Ngx_Balancer
begin

text \<open>
  The balancer of client addresses, \<open>src/http/modules/ngx_http_upstream_ip_hash_module.c\<close>: a hash of the address
  of the client picks the peer by its weight; a peer that cannot be used makes the hash go on, and after 20
  tries the round robin takes over.
\<close>

text \<open>The address of the client: an IPv4 address counts with three of its four bytes.\<close>

datatype client_addr = AF_INET bytes | AF_INET6 bytes | AF_other

definition pseudo_addr :: bytes where
  "pseudo_addr = [0, 0, 0]"

fun hashed_addr :: "client_addr \<Rightarrow> bytes" where
  "hashed_addr (AF_INET s_addr) = take 3 s_addr"
| "hashed_addr (AF_INET6 s6_addr) = take 16 s6_addr"
| "hashed_addr AF_other = pseudo_addr"

record ip_hash_data =
  iph_rrp :: rr_peer_data
  iph_hash :: u64
  iph_addr :: bytes
  iph_tries :: nat

definition ngx_http_upstream_init_ip_hash_peer :: "rr_peers list \<Rightarrow> client_addr \<Rightarrow> peer_connection \<Rightarrow> ip_hash_data \<times> peer_connection" where
  "ngx_http_upstream_init_ip_hash_peer ups client pc =
     (let (rrp, pc) = ngx_http_upstream_init_round_robin_peer ups pc in
      (\<lparr>iph_rrp = rrp, iph_hash = 89, iph_addr = hashed_addr client, iph_tries = 0\<rparr>, pc))"

definition ip_hash_round :: "bytes \<Rightarrow> u64 \<Rightarrow> u64" where
  "ip_hash_round addr h = foldl (\<lambda>h a. (h * 113 + ucast a) mod 6271) h addr"

text \<open>\<open>while (w >= peer->weight)\<close>; \<open>None\<close> when it runs off the list.\<close>

fun weight_place :: "int \<Rightarrow> rr_peer list \<Rightarrow> nat option" where
  "weight_place w [] = None"
| "weight_place w (peer # ps) = (if w \<ge> weight peer then map_option Suc (weight_place (w - weight peer) ps) else Some 0)"

datatype ip_hash_found = Ip_peer nat u64 nat | Ip_give_up nat | Ip_fault

function ip_hash_loop :: "int \<Rightarrow> rr_peers \<Rightarrow> u64 list \<Rightarrow> bytes \<Rightarrow> u64 \<Rightarrow> nat \<Rightarrow> ip_hash_found" where
  "ip_hash_loop now peers ts addr h tries =
     (let h = ip_hash_round addr h in
      if total_weight peers = 0 then Ip_fault
      else
        case weight_place (sint (h mod total_weight peers)) (peer_list peers) of
          None \<Rightarrow> Ip_fault
        | Some p \<Rightarrow>
            if is_tried ts p \<or> unusable now (peer_list peers ! p) then
              (if tries + 1 > 20 then Ip_give_up (tries + 1) else ip_hash_loop now peers ts addr h (tries + 1))
            else Ip_peer p h tries)"
  by pat_completeness auto
termination by (relation "measure (\<lambda>(_, _, _, _, _, tries). 20 - tries)") auto

declare ip_hash_loop.simps [simp del]

type_synonym ip_hash_result = "int \<times> rr_peers list \<times> ip_hash_data \<times> peer_connection"

definition get_rr_peer :: "int \<Rightarrow> rr_peers list \<Rightarrow> ip_hash_data \<Rightarrow> peer_connection \<Rightarrow> ip_hash_result option" where
  "get_rr_peer now ups iphp pc =
     map_option (\<lambda>(rc, ups, rrp, pc). (rc, ups, iphp\<lparr>iph_rrp := rrp\<rparr>, pc))
       (ngx_http_upstream_get_round_robin_peer now ups (iph_rrp iphp) pc)"

definition ngx_http_upstream_get_ip_hash_peer :: "int \<Rightarrow> rr_peers list \<Rightarrow> ip_hash_data \<Rightarrow> peer_connection \<Rightarrow> ip_hash_result option" where
  "ngx_http_upstream_get_ip_hash_peer now ups iphp pc =
     (let rrp = iph_rrp iphp; l = rrp_peers rrp; peers = ups ! l in
      if \<not> l < length ups then None
      else if iph_tries iphp > 20 \<or> single peers then get_rr_peer now ups iphp pc
      else
        (let pc = pc\<lparr>pc_cached := False\<rparr> in
         case ip_hash_loop now peers (tried rrp) (iph_addr iphp) (iph_hash iphp) (iph_tries iphp) of
           Ip_fault \<Rightarrow> None
         | Ip_give_up tries \<Rightarrow> get_rr_peer now ups (iphp\<lparr>iph_tries := tries\<rparr>) pc
         | Ip_peer p h tries \<Rightarrow>
             Some (NGX_OK,
               on_peer (l, p) (\<lambda>peer. touch_checked now (peer\<lparr>conns := conns peer + 1\<rparr>)) ups,
               iphp\<lparr>iph_rrp := rrp\<lparr>current := Some (l, p), tried := set_tried (tried rrp) p\<rparr>, iph_hash := h, iph_tries := tries\<rparr>,
               point_at p peers pc)))"

subsection \<open>The place of a weight\<close>

text \<open>The peers are numbered by shares as large as their weights, so a place below the sum of the weights is found.\<close>

lemma weight_place_found:
  assumes "\<forall>peer\<in>set ps. 0 \<le> weight peer" "0 \<le> w" "w < sum_list (map weight ps)"
  shows "\<exists>p<length ps. weight_place w ps = Some p \<and>
    sum_list (map weight (take p ps)) \<le> w \<and> w < sum_list (map weight (take (Suc p) ps))"
  using assms
proof (induction ps arbitrary: w)
  case (Cons peer ps)
  show ?case
  proof (cases "w \<ge> weight peer")
    case True
    then obtain p where "p < length ps" "weight_place (w - weight peer) ps = Some p"
      "sum_list (map weight (take p ps)) \<le> w - weight peer" "w - weight peer < sum_list (map weight (take (Suc p) ps))"
      using Cons.IH [of "w - weight peer"] Cons.prems by auto
    then show ?thesis using True by (intro exI [of _ "Suc p"]) (auto simp: take_Suc_conv_app_nth)
  next
    case False
    then show ?thesis using Cons.prems by (intro exI [of _ 0]) simp
  qed
qed simp

lemma hash_place:
  assumes "group_ok n g"
  shows "\<exists>p<number g. weight_place (sint (h mod total_weight g)) (peer_list g) = Some p" "total_weight g \<noteq> 0"
proof -
  have g: "0 < weights g" "weights g < 2 ^ 63" "uint (total_weight g) = weights g" "length (peer_list g) = number g"
    using assms by (simp_all add: group_ok_def)
  then show "total_weight g \<noteq> 0" by auto
  have "uint (h mod total_weight g) = uint h mod weights g" using g(3) by (simp add: uint_mod_distrib)
  then have u: "0 \<le> uint (h mod total_weight g)" "uint (h mod total_weight g) < weights g" using g(1) by simp_all
  then have "sint (h mod total_weight g) = uint (h mod total_weight g)"
    using sint_of_int_id [of "uint (h mod total_weight g)"] u g(2) order_trans [of "- (2 ^ 63)" "0 :: int"] by simp
  moreover have "\<forall>peer\<in>set (peer_list g). 0 \<le> weight peer"
    using assms by (auto simp: group_ok_def all_set_conv_all_nth dest: order_trans)
  ultimately show "\<exists>p<number g. weight_place (sint (h mod total_weight g)) (peer_list g) = Some p"
    using weight_place_found [of "peer_list g"] u g(4) by metis
qed

text \<open>The loop never fails, and a peer it finds can be used.\<close>

lemma ip_hash_loop_found:
  assumes "group_ok n g"
  shows "case ip_hash_loop now g ts addr h tries of
      Ip_fault \<Rightarrow> False
    | Ip_give_up t \<Rightarrow> 20 < t
    | Ip_peer p h t \<Rightarrow> p < number g \<and> \<not> is_tried ts p \<and> \<not> unusable now (peer_list g ! p)"
  using assms
proof (induction now g ts addr h tries rule: ip_hash_loop.induct)
  case (1 now g ts addr h tries)
  let ?h = "ip_hash_round addr h"
  obtain p where p: "p < number g" "weight_place (sint (?h mod total_weight g)) (peer_list g) = Some p" "total_weight g \<noteq> 0"
    using hash_place(1) [OF 1(2), of ?h] hash_place(2) [OF 1(2)] by blast
  show ?case
  proof (cases "(is_tried ts p \<or> unusable now (peer_list g ! p)) \<and> \<not> tries + 1 > 20")
    case True
    then have "ip_hash_loop now g ts addr h tries = ip_hash_loop now g ts addr ?h (tries + 1)"
      using p by (subst ip_hash_loop.simps) (simp add: Let_def)
    then show ?thesis using 1(1) [OF refl p(3) p(2) _ _ 1(2)] True by simp
  next
    case False
    then show ?thesis using p by (subst ip_hash_loop.simps) (auto simp: Let_def)
  qed
qed

subsection \<open>The contract of a balancer\<close>

lemma ip_peer_got:
  assumes f: "request_fits ups r" "\<forall>g\<in>set ups. group_ok n g" and l: "rrp_peers r = l"
    and p: "p < number (ups ! l)" "\<not> is_tried (tried r) p"
  shows "got n ups r NGX_OK (on_peer (l, p) (\<lambda>peer. touch_checked now (peer\<lparr>conns := conns peer + 1\<rparr>)) ups)
    (r\<lparr>current := Some (l, p), tried := set_tried (tried r) p\<rparr>)"
proof -
  have len: "l < length ups" using f(1) l by (simp add: request_fits_def)
  let ?g = "ups ! l"
  have g: "group_ok n ?g" using f(2) len by simp
  let ?f = "\<lambda>peer. touch_checked now (peer\<lparr>conns := conns peer + 1\<rparr>)"
  let ?ps = "(peer_list ?g)[p := ?f (peer_list ?g ! p)]"
  have o: "on_peer (l, p) ?f ups = ups[l := ?g\<lparr>peer_list := ?ps\<rparr>]" by (simp add: on_peer_def)
  have lg: "length (peer_list ?g) = number ?g" using g by (simp add: group_ok_def)
  have same: "current_weight (?ps ! k) = current_weight (peer_list ?g ! k) \<and>
      effective_weight (?ps ! k) = effective_weight (peer_list ?g ! k) \<and> weight (?ps ! k) = weight (peer_list ?g ! k)" if "k < number ?g" for k
    using that p(1) lg by (auto simp: nth_list_update touch_checked_def)
  note g' = group_ok_same [OF g _ same]
  have length_ps: "length ?ps = number ?g" using lg by simp
  have "map group_shape (ups[l := ?g\<lparr>peer_list := ?ps\<rparr>]) = map group_shape ups"
    using map_update_same [of group_shape, OF g'(2) [OF length_ps]] .
  moreover have "\<forall>g\<in>set (ups[l := ?g\<lparr>peer_list := ?ps\<rparr>]). group_ok (Suc n) g"
    using f(2) g'(1) lg group_ok_mono by (fastforce dest: set_update_subset_insert [THEN subsetD])
  moreover have "p div 64 < length (tried r)"
    using tried_words_less [OF p(1)] f(1) nth_mem [OF len] less_le_trans unfolding request_fits_def by blast
  ultimately show ?thesis
    using p l len lg unfolding o
    by (auto simp: got_def keeps_tried_def got_peer_def conns_grow_def is_tried_set nth_list_update conns_of_def touch_checked_def)
qed

interpretation ip_hash: peer_balancer ngx_http_upstream_get_ip_hash_peer iph_rrp
proof
  fix ups now pc n and d :: ip_hash_data
  assume f: "request_fits ups (iph_rrp d)" "\<forall>g\<in>set ups. group_ok n g"
  have l: "rrp_peers (iph_rrp d) < length ups" using f(1) by (simp add: request_fits_def)
  have rr: "\<exists>rc ups' d' pc'. get_rr_peer now ups d1 pc1 = Some (rc, ups', d', pc') \<and> got n ups (iph_rrp d) rc ups' (iph_rrp d')"
    if "iph_rrp d1 = iph_rrp d" for d1 pc1
    using round_robin.get_answers [OF f, of now pc1] that by (auto simp: get_rr_peer_def)
  let ?g = "ups ! rrp_peers (iph_rrp d)"
  have g: "group_ok n ?g" using f(2) l by simp
  note found = ip_hash_loop_found [OF g, where now = now and ts = "tried (iph_rrp d)" and addr = "iph_addr d" and h = "iph_hash d" and tries = "iph_tries d"]
  show "\<exists>rc ups' d' pc'. ngx_http_upstream_get_ip_hash_peer now ups d pc = Some (rc, ups', d', pc') \<and> got n ups (iph_rrp d) rc ups' (iph_rrp d')"
  proof (cases "iph_tries d > 20 \<or> single ?g")
    case True
    then show ?thesis using rr [of d] l by (simp add: ngx_http_upstream_get_ip_hash_peer_def Let_def)
  next
    case False
    show ?thesis
    proof (cases "ip_hash_loop now ?g (tried (iph_rrp d)) (iph_addr d) (iph_hash d) (iph_tries d)")
      case (Ip_peer p h t)
      then show ?thesis using False l found ip_peer_got [OF f refl, of p now]
        by (simp add: ngx_http_upstream_get_ip_hash_peer_def Let_def)
    next
      case (Ip_give_up t)
      then show ?thesis using False l rr [of "d\<lparr>iph_tries := t\<rparr>"] by (simp add: ngx_http_upstream_get_ip_hash_peer_def Let_def)
    qed (use found in simp)
  qed
qed

end
