(* ===== verification/Ngx_Upstream.thy ===== *)
theory Ngx_Upstream
  imports Ngx_Least_Conn Ngx_Ip_Hash
begin

text \<open>
  The upstream of a configuration under any load: what the three balancers guarantee to the requests, from the
  contract of theory \<open>Ngx_Balancer\<close>.
\<close>

subsection \<open>The configured upstream\<close>

text \<open>The sum of the weights of the servers is below \<open>2 ^ 63\<close>, every weight is positive, and a host resolves to an address.\<close>

definition good_upstream :: "(bytes \<Rightarrow> nat \<Rightarrow> (bytes \<times> bytes) list option) \<Rightarrow> upstream_conf \<Rightarrow> bool" where
  "good_upstream resolve us \<longleftrightarrow>
     (case us_servers us of
        Some servers \<Rightarrow>
          (\<forall>s\<in>set servers. 1 \<le> srv_weight s) \<and> (\<Sum>s\<leftarrow>servers. length (srv_addrs s) * srv_weight s) < 2 ^ 63
      | None \<Rightarrow>
          (case resolve (us_host us) (us_port us) of Some addrs \<Rightarrow> addrs \<noteq> [] \<and> length addrs < 2 ^ 63 | None \<Rightarrow> True))"

lemma sum_filter_le: "(\<Sum>s\<leftarrow>filter P ss. f s) \<le> (\<Sum>s\<leftarrow>ss. f s :: nat)"
  by (induction ss) auto

lemma server_weights: "sum_list (map weight (concat (map server_peers ss))) = int (\<Sum>s\<leftarrow>ss. length (srv_addrs s) * srv_weight s)"
proof (induction ss)
  case (Cons s ss)
  have "sum_list (map weight (server_peers s)) = int (length (srv_addrs s) * srv_weight s)"
    by (simp add: server_peers_def comp_def case_prod_beta sum_list_triv)
  then show ?case using Cons by simp
qed simp

lemma uint_of_nat_u64: "n < 2 ^ 64 \<Longrightarrow> uint (of_nat n :: u64) = int n"
  by (simp add: uint_nat unat_of_nat take_bit_nat_eq_self)

lemma server_group_ok:
  assumes "\<forall>s\<in>set ss. 1 \<le> srv_weight s" "(\<Sum>s\<leftarrow>ss. length (srv_addrs s) * srv_weight s) < 2 ^ 63" "number (server_group host ss) \<noteq> 0"
    and "b \<longrightarrow> number (server_group host ss) = 1"
  shows "group_ok 0 (server_group host ss\<lparr>single := b\<rparr>)" "k < number (server_group host ss) \<Longrightarrow> conns_of (server_group host ss\<lparr>single := b\<rparr>) k = 0"
proof -
  let ?g = "server_group host ss"
  have len: "length (peer_list ?g) = number ?g"
    by (simp add: server_group_def server_peers_def Let_def length_concat comp_def)
  have peers: "current_weight peer = 0 \<and> 1 \<le> weight peer \<and> effective_weight peer = weight peer \<and> conns peer = 0"
    if "peer \<in> set (peer_list ?g)" for peer
    using that assms(1) by (force simp: server_group_def server_peers_def Let_def)
  have w: "weights ?g = int (\<Sum>s\<leftarrow>ss. length (srv_addrs s) * srv_weight s)"
    by (simp add: server_group_def Let_def server_weights)
  have "total_weight ?g = of_nat (\<Sum>s\<leftarrow>ss. length (srv_addrs s) * srv_weight s)"
    by (simp add: server_group_def Let_def) (induction ss; simp)
  then have t: "uint (total_weight ?g) = weights ?g"
    using assms(2) unfolding w by (simp add: uint_of_nat_u64)
  obtain peer where "peer \<in> set (peer_list ?g)" using assms(3) len by (cases "peer_list ?g") auto
  moreover have "weight peer \<le> weights ?g" if "peer \<in> set (peer_list ?g)" for peer
    using that peers by (intro member_le_sum_list_int) fastforce+
  ultimately have pos: "0 < weights ?g" using peers by fastforce
  have "weight_sum (peer_list ?g) = 0" by (rule sum_list_zero) (use peers in auto)
  moreover have "current_weight (peer_list ?g ! k) = 0 \<and> 0 \<le> weight (peer_list ?g ! k) \<and>
      effective_weight (peer_list ?g ! k) = weight (peer_list ?g ! k)" if "k < number ?g" for k
    using peers [of "peer_list ?g ! k"] that len by simp
  ultimately show "group_ok 0 (?g\<lparr>single := b\<rparr>)" using t pos w assms(2-4) len by (auto simp: group_ok_def)
  show "conns_of (?g\<lparr>single := b\<rparr>) k = 0" if "k < number ?g" using that len peers by (auto simp: conns_of_def)
qed

lemma address_group_ok:
  assumes "addrs \<noteq> []" "length addrs < 2 ^ 63"
  shows "group_ok 0 (address_group host addrs)" "k < number (address_group host addrs) \<Longrightarrow> conns_of (address_group host addrs) k = 0"
proof -
  have "weights (address_group host addrs) = int (length addrs)" "weight_sum (peer_list (address_group host addrs)) = 0"
    by (induction addrs) (auto simp: address_group_def)
  then show "group_ok 0 (address_group host addrs)" "k < number (address_group host addrs) \<Longrightarrow> conns_of (address_group host addrs) k = 0"
    using assms by (auto simp: group_ok_def address_group_def case_prod_beta conns_of_def uint_of_nat_u64)
qed

lemma init_upstream_ok:
  assumes "ngx_http_upstream_init_round_robin resolve us = Some ups" "good_upstream resolve us"
  shows "upstream_ok rrp 0 \<lparr>groups = ups, requests = []\<rparr>"
proof (cases "us_servers us")
  case None
  then obtain addrs where "ups = [address_group (us_host us) addrs]" "addrs \<noteq> []" "length addrs < 2 ^ 63"
    using assms by (auto simp: ngx_http_upstream_init_round_robin_def good_upstream_def split: if_splits)
  then show ?thesis using address_group_ok by (auto simp: upstream_ok_def holders_def)
next
  case (Some servers)
  let ?g = "\<lambda>P. server_group (us_host us) (filter P servers)"
  have ok: "group_ok 0 (?g P\<lparr>single := b\<rparr>)" "k < number (?g P) \<Longrightarrow> conns_of (?g P\<lparr>single := b\<rparr>) k = 0"
    if "number (?g P) \<noteq> 0" "b \<longrightarrow> number (?g P) = 1" for P b k
    using server_group_ok [of "filter P servers" "us_host us" b] that assms(2) Some
      le_less_trans [OF sum_filter_le [of "\<lambda>s. length (srv_addrs s) * srv_weight s" P servers]]
    by (auto simp: good_upstream_def)
  have s: "?g P\<lparr>single := (number (?g P) = 1)\<rparr> = ?g P" for P by (simp add: server_group_def Let_def)
  have okg: "group_ok 0 (?g P)" "k < number (?g P) \<Longrightarrow> conns_of (?g P) k = 0" if "number (?g P) \<noteq> 0" for P k
    using ok(1) [of P "number (?g P) = 1", unfolded s] ok(2) [of P "number (?g P) = 1" k, unfolded s] that by blast+
  show ?thesis
    using assms(1) Some ok(1) [of _ False] ok(2) [of _ False] okg
    by (auto simp: ngx_http_upstream_init_round_robin_def Let_def upstream_ok_def holders_def less_2_cases_iff nth_Cons' split: if_splits)
qed

subsection \<open>Any number of requests\<close>

text \<open>
  Every counter \<open>conns\<close> is the number of the requests that hold the peer, the effective weights stay between zero
  and the weights, and the current weights cancel out and stay within a round for every step.
\<close>

definition accounts :: "('d \<Rightarrow> rr_peer_data) \<Rightarrow> nat \<Rightarrow> 'd upstream_state \<Rightarrow> bool" where
  "accounts rrp n s \<longleftrightarrow>
     (\<forall>l<length (groups s). weight_sum (peer_list (groups s ! l)) = 0 \<and>
       (\<forall>k<number (groups s ! l). let peer = peer_list (groups s ! l) ! k in
          conns peer = of_nat (holders rrp (requests s) l k) \<and>
          0 \<le> effective_weight peer \<and> effective_weight peer \<le> weight peer \<and>
          \<bar>current_weight peer\<bar> \<le> int n * weights (groups s ! l)))"

lemma upstream_ok_accounts: "upstream_ok rrp n s \<Longrightarrow> accounts rrp n s"
  by (auto simp: upstream_ok_def accounts_def group_ok_def conns_of_def Let_def)

text \<open>No request got a peer of a group of several peers twice, so it tries no more peers than there are.\<close>

definition never_twice :: "'d upstream_state \<Rightarrow> bool" where
  "never_twice s \<longleftrightarrow>
     (\<forall>r\<in>set (requests s). distinct (filter (several (groups s)) (req_history r)) \<and>
        length (filter (several (groups s)) (req_history r)) \<le> (\<Sum>g\<leftarrow>groups s. number g))"

lemma upstream_ok_never_twice:
  assumes "upstream_ok rrp n s"
  shows "never_twice s"
  unfolding never_twice_def
proof (intro ballI conjI)
  fix r assume r: "r \<in> set (requests s)"
  let ?h = "filter (several (groups s)) (req_history r)"
  have ok: "request_ok rrp (groups s) r" using assms r by (simp add: upstream_ok_def)
  then show d: "distinct ?h" by (simp add: request_ok_def Let_def)
  have "set ?h \<subseteq> (SIGMA l:{..<length (groups s)}. {..<number (groups s ! l)})"
    using ok by (fastforce simp: request_ok_def request_fits_def Let_def)
  then have "card (set ?h) \<le> card (SIGMA l:{..<length (groups s)}. {..<number (groups s ! l)})" by (intro card_mono) auto
  also have "\<dots> = (\<Sum>l<length (groups s). number (groups s ! l))" by simp
  also have "\<dots> = (\<Sum>g\<leftarrow>groups s. number g)" by (simp add: sum_list_sum_nth atLeast0LessThan)
  finally show "length ?h \<le> (\<Sum>g\<leftarrow>groups s. number g)" using distinct_card [OF d] by simp
qed

definition upstream_run ::
  "(int \<Rightarrow> rr_peers list \<Rightarrow> 'd \<Rightarrow> peer_connection \<Rightarrow> (int \<times> rr_peers list \<times> 'd \<times> peer_connection) option) \<Rightarrow>
   ('d \<Rightarrow> rr_peer_data) \<Rightarrow> rr_peers list \<Rightarrow> nat \<Rightarrow> 'd upstream_state \<Rightarrow> bool" where
  "upstream_run get rrp ups n s \<longleftrightarrow> (upstream_step get rrp ^^ n) \<lparr>groups = ups, requests = []\<rparr> s"

lemma runs_ok:
  assumes "ngx_http_upstream_init_round_robin resolve us = Some ups" "good_upstream resolve us"
  shows "upstream_run ngx_http_upstream_get_round_robin_peer (\<lambda>r. r) ups n s \<Longrightarrow> upstream_ok (\<lambda>r. r) n s"
    "upstream_run ngx_http_upstream_get_least_conn_peer (\<lambda>r. r) ups n s \<Longrightarrow> upstream_ok (\<lambda>r. r) n s"
    "upstream_run ngx_http_upstream_get_ip_hash_peer iph_rrp ups n t \<Longrightarrow> upstream_ok iph_rrp n t"
  using round_robin.upstream_run_ok [OF _ init_upstream_ok [OF assms], of n] least_conn.upstream_run_ok [OF _ init_upstream_ok [OF assms], of n]
    ip_hash.upstream_run_ok [OF _ init_upstream_ok [OF assms], of n] by (simp_all add: upstream_run_def)

text \<open>
  C4: However many requests start, get peers and give them back, with any failures and at any times, after any
  number of steps the counters and weights of every peer add up, under each of the three balancers.
\<close>

theorem balancers_account:
  assumes "ngx_http_upstream_init_round_robin resolve us = Some ups" "good_upstream resolve us"
  shows "(upstream_run ngx_http_upstream_get_round_robin_peer (\<lambda>r. r) ups n s \<longrightarrow> accounts (\<lambda>r. r) n s) \<and>
    (upstream_run ngx_http_upstream_get_least_conn_peer (\<lambda>r. r) ups n s \<longrightarrow> accounts (\<lambda>r. r) n s) \<and>
    (upstream_run ngx_http_upstream_get_ip_hash_peer iph_rrp ups n t \<longrightarrow> accounts iph_rrp n t)"
  by (intro conjI impI) (rule upstream_ok_accounts, erule runs_ok [OF assms])+

text \<open>
  C5: A request never gets a peer of several a second time, whatever the other requests do in between; so it runs
  out of peers after at most as many tries as there are servers and backup servers.
\<close>

theorem balancers_never_twice:
  assumes "ngx_http_upstream_init_round_robin resolve us = Some ups" "good_upstream resolve us"
  shows "(upstream_run ngx_http_upstream_get_round_robin_peer (\<lambda>r. r) ups n s \<longrightarrow> never_twice s) \<and>
    (upstream_run ngx_http_upstream_get_least_conn_peer (\<lambda>r. r) ups n s \<longrightarrow> never_twice s) \<and>
    (upstream_run ngx_http_upstream_get_ip_hash_peer iph_rrp ups n t \<longrightarrow> never_twice t)"
  by (intro conjI impI) (rule upstream_ok_never_twice, erule runs_ok [OF assms])+

text \<open>A run of two requests: the first starts and gets a peer, then the second starts.\<close>

definition sample_ups :: "rr_peers list" where
  "sample_ups = [server_group [] [sample_server 5, sample_server 1, sample_server 1]]"

lemma sample_init: "ngx_http_upstream_init_round_robin (\<lambda>_ _. None) sample_upstream = Some sample_ups"
  by (simp add: ngx_http_upstream_init_round_robin_def sample_upstream_def sample_ups_def sample_server_def server_group_def)

lemma sample_good: "good_upstream (\<lambda>_ _. None) sample_upstream"
  by (simp add: good_upstream_def sample_upstream_def sample_server_def)

lemma sample_run:
  assumes "peer_balancer get rrp" "\<And>r. \<exists>d. rrp d = r"
  shows "\<exists>s. upstream_run get rrp sample_ups 3 s \<and> length (requests s) = 2"
proof -
  let ?r = "fst (ngx_http_upstream_init_round_robin_peer sample_ups blank_connection)"
  obtain d where d: "rrp d = ?r" using assms(2) by blast
  let ?new = "\<lparr>req_data = d, req_held = False, req_history = []\<rparr>"
  have ok: "upstream_ok rrp 0 \<lparr>groups = sample_ups, requests = []\<rparr>" by (rule init_upstream_ok [OF sample_init sample_good])
  have one: "upstream_step get rrp \<lparr>groups = sample_ups, requests = []\<rparr> \<lparr>groups = sample_ups, requests = [?new]\<rparr>"
    using upstream_step.start_request [of rrp d "\<lparr>groups = sample_ups, requests = []\<rparr>"] d by simp
  have "request_fits sample_ups (rrp d)" "\<forall>g\<in>set sample_ups. group_ok 0 g"
    using init_fits [of sample_ups] ok d by (auto simp: upstream_ok_def)
  from peer_balancer.get_answers [OF assms(1) this, of 0 blank_connection] obtain rc ups' d' pc' where
    g: "get 0 sample_ups d blank_connection = Some (rc, ups', d', pc')" "got 0 sample_ups (rrp d) rc ups' (rrp d')" by blast
  let ?got = "\<lparr>req_data = d', req_held = (rc = NGX_OK), req_history = (if rc = NGX_OK then [the (current (rrp d'))] else [])\<rparr>"
  have two: "upstream_step get rrp \<lparr>groups = sample_ups, requests = [?new]\<rparr> \<lparr>groups = ups', requests = [?got]\<rparr>"
    using upstream_step.get_peer [of 0 "\<lparr>groups = sample_ups, requests = [?new]\<rparr>" d "[]" get 0 blank_connection rc ups' d' pc' rrp] g(1)
    by simp
  obtain d2 where d2: "rrp d2 = fst (ngx_http_upstream_init_round_robin_peer ups' blank_connection)" using assms(2) by blast
  have three: "upstream_step get rrp \<lparr>groups = ups', requests = [?got]\<rparr>
      \<lparr>groups = ups', requests = [?got, \<lparr>req_data = d2, req_held = False, req_history = []\<rparr>]\<rparr>"
    using upstream_step.start_request [of rrp d2 "\<lparr>groups = ups', requests = [?got]\<rparr>"] d2 by simp
  show ?thesis
    using one two three
    by (intro exI [of _ "\<lparr>groups = ups', requests = [?got, \<lparr>req_data = d2, req_held = False, req_history = []\<rparr>]\<rparr>"])
      (auto simp: upstream_run_def numeral_3_eq_3 relcompp_apply)
qed

theorem balancers_account_witness:
  "\<exists>s :: rr_peer_data upstream_state. upstream_run ngx_http_upstream_get_round_robin_peer (\<lambda>r. r) sample_ups 3 s \<and>
     length (requests s) = 2 \<and> accounts (\<lambda>r. r) 3 s"
proof -
  obtain s :: "rr_peer_data upstream_state"
    where "upstream_run ngx_http_upstream_get_round_robin_peer (\<lambda>r. r) sample_ups 3 s" "length (requests s) = 2"
    using sample_run [OF round_robin.peer_balancer_axioms] by blast
  then show ?thesis using balancers_account [OF sample_init sample_good, of 3 s] by blast
qed

theorem balancers_never_twice_witness:
  "\<exists>s. upstream_run ngx_http_upstream_get_ip_hash_peer iph_rrp sample_ups 3 s \<and> length (requests s) = 2 \<and> never_twice s"
proof -
  have "\<exists>d :: ip_hash_data. iph_rrp d = r" for r by (cases "undefined :: ip_hash_data") (metis ip_hash_data.select_convs(1))
  then obtain s where "upstream_run ngx_http_upstream_get_ip_hash_peer iph_rrp sample_ups 3 s" "length (requests s) = 2"
    using sample_run [OF ip_hash.peer_balancer_axioms] by blast
  then show ?thesis using balancers_never_twice [OF sample_init sample_good, of 3 _ s] by blast
qed

subsection \<open>No peer is found only when there is none\<close>

lemma get_answer_split:
  assumes "get_from get ups r pc = Some (rc, ups', r', pc')" "rrp_peers r < length ups"
  obtains gs where "get (ups ! rrp_peers r) (drop (Suc (rrp_peers r)) ups) r pc = (rc, gs, r', pc')" "ups' = take (rrp_peers r) ups @ gs"
proof -
  have "drop (rrp_peers r) ups = ups ! rrp_peers r # drop (Suc (rrp_peers r)) ups" using assms(2) by (simp add: Cons_nth_drop_Suc)
  then show ?thesis using assms(1) that by (auto simp: get_from_def split: prod.splits)
qed

text \<open>Where the failed peers of an upstream are tried again: no failure counts any more from a group on.\<close>

definition fails_forgotten :: "nat \<Rightarrow> rr_peers list \<Rightarrow> bool" where
  "fails_forgotten l ups \<longleftrightarrow> (\<forall>g\<in>set (drop l ups). \<forall>peer\<in>set (peer_list g). fails peer = 0)"

definition nothing_left :: "int \<Rightarrow> rr_peers list \<Rightarrow> rr_peer_data \<Rightarrow> bool" where
  "nothing_left now ups r \<longleftrightarrow>
     (\<forall>k<number (ups ! rrp_peers r). passed_over now (tried r) k (peer_list (ups ! rrp_peers r) ! k)) \<and>
     (\<forall>g\<in>set (drop (Suc (rrp_peers r)) ups). \<forall>k<number g. unusable now (peer_list g ! k))"

text \<open>
  C6: The round robin always answers: with a peer, or with \<open>NGX_BUSY\<close>.  It is busy only when the request has tried
  every usable peer of the group it is in and no peer of the groups behind that one can be used; then the failures
  of the peers of its group and of the groups behind it are forgotten.  The groups before it, which the request
  has left for the backup servers already, keep theirs.
\<close>

theorem busy_only_when_none:
  assumes "request_fits ups r" "\<forall>g\<in>set ups. group_ok n g"
  shows "\<exists>rc ups' r' pc'. ngx_http_upstream_get_round_robin_peer now ups r pc = Some (rc, ups', r', pc') \<and>
    (rc = NGX_OK \<or> rc = NGX_BUSY \<and> nothing_left now ups r \<and> fails_forgotten (rrp_peers r) ups')"
proof -
  obtain rc ups' r' pc' where g: "ngx_http_upstream_get_round_robin_peer now ups r pc = Some (rc, ups', r', pc')"
    and rc: "rc = NGX_OK \<or> rc = NGX_BUSY"
    using round_robin.get_answers [OF assms, of now pc] by (auto simp: got_def)
  have l: "rrp_peers r < length ups" using assms(1) by (simp add: request_fits_def)
  have "nothing_left now ups r \<and> fails_forgotten (rrp_peers r) ups'" if busy: "rc = NGX_BUSY"
  proof -
    obtain gs where c: "get_chain (rr_choice now) (ups ! rrp_peers r) (drop (Suc (rrp_peers r)) ups) r pc = (NGX_BUSY, gs, r', pc')"
      and ups': "ups' = take (rrp_peers r) ups @ gs"
      by (rule get_answer_split [OF g [unfolded ngx_http_upstream_get_round_robin_peer_def busy] l])
    have "\<forall>h\<in>set (ups ! rrp_peers r # drop (Suc (rrp_peers r)) ups). group_ok n h \<and> tried_words (number h) \<le> length (tried r)"
      using assms l by (auto simp: request_fits_def dest: in_set_dropD)
    from round_robin_choice.chain_busy [OF c this] show ?thesis
      using l ups' by (auto simp: nothing_left_def fails_forgotten_def)
  qed
  then show ?thesis using g rc by blast
qed

lemma sample_groups_ok: "\<forall>g\<in>set sample_ups. group_ok 0 g"
  using init_upstream_ok [OF sample_init sample_good, of "\<lambda>r. r"] by (simp add: upstream_ok_def)

lemma sample_group_fits: "request_fits sample_ups \<lparr>rrp_peers = 0, current = None, tried = [7]\<rparr>"
  by (simp add: request_fits_def sample_ups_def tried_words_def server_group_def server_peers_def sample_server_def)

theorem busy_only_when_none_witness:
  "\<exists>ups' r' pc'. ngx_http_upstream_get_round_robin_peer 0 sample_ups \<lparr>rrp_peers = 0, current = None, tried = [7]\<rparr> blank_connection =
       Some (NGX_BUSY, ups', r', pc') \<and> fails_forgotten 0 ups'"
proof -
  from busy_only_when_none [OF sample_group_fits sample_groups_ok, of 0 blank_connection] obtain rc ups' r' pc' where
    g: "ngx_http_upstream_get_round_robin_peer 0 sample_ups \<lparr>rrp_peers = 0, current = None, tried = [7]\<rparr> blank_connection = Some (rc, ups', r', pc')"
    and rc: "rc = NGX_OK \<or> rc = NGX_BUSY \<and> fails_forgotten 0 ups'" by auto
  have "map_option fst (ngx_http_upstream_get_round_robin_peer 0 sample_ups \<lparr>rrp_peers = 0, current = None, tried = [7]\<rparr> blank_connection) =
      Some NGX_BUSY" by code_simp
  then show ?thesis using g rc by (auto simp: NGX_OK_def NGX_BUSY_def)
qed

subsection \<open>A client keeps its peer\<close>

text \<open>The first peer a new request of a client gets from the hash of its address.\<close>

definition first_peer :: "int \<Rightarrow> rr_peers list \<Rightarrow> client_addr \<Rightarrow> peer_connection \<Rightarrow> (nat \<times> nat) option" where
  "first_peer now ups client pc =
     (let (d, pc) = ngx_http_upstream_init_ip_hash_peer ups client pc in
      case ngx_http_upstream_get_ip_hash_peer now ups d pc of
        Some (rc, _, d, _) \<Rightarrow> if rc = NGX_OK then current (iph_rrp d) else None
      | None \<Rightarrow> None)"

lemma weight_place_weights: "map weight ps = map weight qs \<Longrightarrow> weight_place w ps = weight_place w qs"
proof (induction ps arbitrary: w qs)
  case (Cons peer ps)
  then show ?case by (cases qs) auto
qed simp

text \<open>Which peer the hash points at: the weights of the group and the hashed bytes decide.\<close>

definition hash_peer :: "rr_peers \<Rightarrow> client_addr \<Rightarrow> nat" where
  "hash_peer g client = the (weight_place (sint (ip_hash_round (hashed_addr client) 89 mod total_weight g)) (peer_list g))"

lemma hash_peer_shape:
  assumes "group_ok n g" "group_ok m g'" "group_shape g' = group_shape g"
  shows "hash_peer g' client = hash_peer g client"
proof -
  have w: "map weight (peer_list g') = map weight (peer_list g)" using assms(3) by (simp add: group_shape_def)
  then have "total_weight g' = total_weight g" using assms(1,2) by (simp add: group_ok_def word_uint_eq_iff)
  then show ?thesis using weight_place_weights [OF w] by (simp add: hash_peer_def)
qed

lemma first_peer_hash:
  assumes "\<forall>g\<in>set ups. group_ok n g" "ups \<noteq> []" "\<not> single (hd ups)"
    and "\<not> unusable now (peer_list (hd ups) ! hash_peer (hd ups) client)"
  shows "first_peer now ups client pc = Some (0, hash_peer (hd ups) client)"
proof -
  let ?g = "hd ups"
  let ?r = "fst (ngx_http_upstream_init_round_robin_peer ups pc)"
  have g: "group_ok n ?g" using assms(1,2) by simp
  obtain p where p: "p < number ?g" "weight_place (sint (ip_hash_round (hashed_addr client) 89 mod total_weight ?g)) (peer_list ?g) = Some p"
    using hash_place(1) [OF g] by blast
  have hp: "hash_peer ?g client = p" using p(2) by (simp add: hash_peer_def)
  have "\<not> is_tried (tried ?r) p" using init_tried(2) [OF _ p(1), of ups pc] assms(2) by (cases ups) simp_all
  then have "ip_hash_loop now ?g (tried ?r) (hashed_addr client) 89 0 = Ip_peer p (ip_hash_round (hashed_addr client) 89) 0"
    using p hash_place(2) [OF g] assms(4) hp by (subst ip_hash_loop.simps) (simp add: Let_def)
  moreover have "ups ! rrp_peers ?r = ?g" "rrp_peers ?r < length ups" "rrp_peers ?r = 0"
    using assms(2) by (simp_all add: ngx_http_upstream_init_round_robin_peer_def Let_def hd_conv_nth)
  ultimately show ?thesis using assms(3) hp
    by (simp add: first_peer_def ngx_http_upstream_init_ip_hash_peer_def ngx_http_upstream_get_ip_hash_peer_def Let_def
        case_prod_beta)
qed

text \<open>
  C7: With \<open>ip_hash\<close> there is one peer for a client, fixed by the configured weights: every new request whose
  address has the same hashed bytes gets it whenever it can be used, at any time and in any state of the
  upstream, whatever the other requests did to its counters and weights.
\<close>

theorem ip_hash_sticky:
  assumes "\<forall>g\<in>set ups. group_ok n g" "ups \<noteq> []" "\<not> single (hd ups)"
  shows "\<exists>p<number (hd ups). \<forall>m ups' client' now pc. map group_shape ups' = map group_shape ups \<longrightarrow> (\<forall>g\<in>set ups'. group_ok m g) \<longrightarrow>
    hashed_addr client' = hashed_addr client \<longrightarrow> \<not> unusable now (peer_list (hd ups') ! p) \<longrightarrow>
    first_peer now ups' client' pc = Some (0, p)"
proof -
  have g: "group_ok n (hd ups)" using assms(1,2) by simp
  have "hash_peer (hd ups) client < number (hd ups)"
    using hash_place(1) [OF g, of "ip_hash_round (hashed_addr client) 89"] by (auto simp: hash_peer_def)
  moreover have "first_peer now ups' client' pc = Some (0, hash_peer (hd ups) client)"
    if u: "map group_shape ups' = map group_shape ups" "\<forall>g\<in>set ups'. group_ok m g" "hashed_addr client' = hashed_addr client"
      "\<not> unusable now (peer_list (hd ups') ! hash_peer (hd ups) client)" for m ups' client' now pc
  proof -
    have ne: "ups' \<noteq> []" using u(1) assms(2) by auto
    have s: "group_shape (hd ups') = group_shape (hd ups)" using u(1) ne assms(2) by (metis list.map_sel(1))
    have g': "group_ok m (hd ups')" using u(2) ne by simp
    have "hash_peer (hd ups') client' = hash_peer (hd ups) client"
      using hash_peer_shape [OF g g' s, of client'] u(3) by (simp add: hash_peer_def)
    moreover have "\<not> single (hd ups')" using s assms(3) by (simp add: group_shape_def)
    ultimately show ?thesis using first_peer_hash [OF u(2) ne, of now client' pc] u(4) by simp
  qed
  ultimately show ?thesis by blast
qed

lemma hashed_addr_sample: "hashed_addr (AF_INET [192, 168, 1, 200]) = hashed_addr (AF_INET [192, 168, 1, 7])"
  by simp

theorem ip_hash_sticky_witness:
  "first_peer 0 sample_ups (AF_INET [192, 168, 1, 7]) blank_connection = first_peer 0 sample_ups (AF_INET [192, 168, 1, 200]) blank_connection \<and>
   first_peer 0 sample_ups (AF_INET [192, 168, 1, 7]) blank_connection \<noteq> None"
proof -
  note a = sample_groups_ok
  have "sample_ups \<noteq> []" "\<not> single (hd sample_ups)" "number (hd sample_ups) = 3"
    by (simp_all add: sample_ups_def server_group_def sample_server_def)
  moreover have "\<not> unusable 0 (peer_list (hd sample_ups) ! p)" if "p < 3" for p
    using that by (auto simp: sample_ups_def server_group_def server_peers_def sample_server_def unusable_def nth_Cons' less_Suc_eq numeral_3_eq_3)
  ultimately show ?thesis using ip_hash_sticky [OF a, of "AF_INET [192, 168, 1, 7]"] a by (metis hashed_addr_sample option.distinct(1))
qed

end
