(* ===== verification/Ngx_Interleaving.thy ===== *)
theory Ngx_Interleaving
  imports Ngx_Prelude
begin

text \<open>
  Processes that share memory.  Each is at a control point of the code it runs, and one process at a time makes one
  atomic access to the shared memory; the order is any.  The locale \<open>interleaving\<close> is the contract of an
  invariant of such a system; the lemmas on fair runs serve the liveness theorems of the locks.
\<close>

subsection \<open>Steps and invariants\<close>

inductive interleaved :: "('m \<Rightarrow> 'p \<Rightarrow> 'm \<Rightarrow> 'p \<Rightarrow> bool) \<Rightarrow> nat \<Rightarrow> 'm \<times> 'p list \<Rightarrow> 'm \<times> 'p list \<Rightarrow> bool" for act where
  turn: "i < length ps \<Longrightarrow> act m (ps ! i) m' p' \<Longrightarrow> interleaved act i (m, ps) (m', ps[i := p'])"

inductive_cases interleavedE: "interleaved act i s s'"
inductive_simps interleaved_simps: "interleaved act i (m, ps) s'"

definition some_step :: "('m \<Rightarrow> 'p \<Rightarrow> 'm \<Rightarrow> 'p \<Rightarrow> bool) \<Rightarrow> 'm \<times> 'p list \<Rightarrow> 'm \<times> 'p list \<Rightarrow> bool" where
  "some_step act s s' \<longleftrightarrow> (\<exists>i. interleaved act i s s')"

locale interleaving =
  fixes act :: "'m \<Rightarrow> 'p \<Rightarrow> 'm \<Rightarrow> 'p \<Rightarrow> bool"
    and m0 :: 'm and p0 :: 'p and limit :: nat
    and inv :: "'m \<Rightarrow> 'p list \<Rightarrow> bool"
  assumes start: "n < limit \<Longrightarrow> inv m0 (replicate n p0)"
    and preserved: "inv m ps \<Longrightarrow> length ps < limit \<Longrightarrow> i < length ps \<Longrightarrow> act m (ps ! i) m' p' \<Longrightarrow> inv m' (ps[i := p'])"
begin

lemma step_inv: "interleaved act i s s' \<Longrightarrow> length (snd s) < limit \<Longrightarrow> inv (fst s) (snd s) \<Longrightarrow>
    inv (fst s') (snd s') \<and> length (snd s') = length (snd s)"
  by (erule interleavedE) (auto intro: preserved)

lemma reachable_inv:
  assumes "(some_step act)\<^sup>*\<^sup>* (m0, replicate n p0) s" "n < limit"
  shows "inv (fst s) (snd s) \<and> length (snd s) = n"
  using assms(1)
proof (induction rule: rtranclp_induct)
  case base
  then show ?case using start [OF assms(2)] by simp
next
  case (step s s')
  then show ?case using step_inv assms(2) unfolding some_step_def by fastforce
qed

end

subsection \<open>Fair runs\<close>

definition fair_run ::
  "('m \<Rightarrow> 'p \<Rightarrow> 'm \<Rightarrow> 'p \<Rightarrow> bool) \<Rightarrow> nat \<Rightarrow> (nat \<Rightarrow> 'm \<times> 'p list) \<Rightarrow> (nat \<Rightarrow> nat) \<Rightarrow> bool" where
  "fair_run act n \<sigma> who \<longleftrightarrow>
     length (snd (\<sigma> 0)) = n \<and> (\<forall>t. interleaved act (who t) (\<sigma> t) (\<sigma> (Suc t))) \<and> (\<forall>i<n. \<forall>t. \<exists>u\<ge>t. who u = i)"

definition point_of :: "(nat \<Rightarrow> 'm \<times> 'p list) \<Rightarrow> nat \<Rightarrow> nat \<Rightarrow> 'p" where
  "point_of \<sigma> t i = snd (\<sigma> t) ! i"

lemma run_step:
  assumes "fair_run act n \<sigma> who"
  shows "who t < n" "length (snd (\<sigma> t)) = n"
    "act (fst (\<sigma> t)) (point_of \<sigma> t (who t)) (fst (\<sigma> (Suc t))) (point_of \<sigma> (Suc t) (who t))"
    "i \<noteq> who t \<Longrightarrow> point_of \<sigma> (Suc t) i = point_of \<sigma> t i"
proof -
  have s: "interleaved act (who t) (\<sigma> t) (\<sigma> (Suc t))" for t using assms by (simp add: fair_run_def)
  show len: "length (snd (\<sigma> t)) = n" for t
  proof (induction t)
    case 0
    then show ?case using assms by (simp add: fair_run_def)
  next
    case (Suc t)
    then show ?case using s [of t] by (auto elim: interleavedE)
  qed
  show "who t < n" "act (fst (\<sigma> t)) (point_of \<sigma> t (who t)) (fst (\<sigma> (Suc t))) (point_of \<sigma> (Suc t) (who t))"
    "i \<noteq> who t \<Longrightarrow> point_of \<sigma> (Suc t) i = point_of \<sigma> t i"
    using s [of t] len [of t] by (auto simp: point_of_def elim!: interleavedE)
qed

text \<open>A process that waits for its turn finds itself where it was.\<close>

lemma next_turn:
  assumes "fair_run act n \<sigma> who" "i < n"
  obtains u where "t \<le> u" "who u = i" "point_of \<sigma> u i = point_of \<sigma> t i"
proof -
  obtain v where v: "t \<le> v" "who v = i" using assms unfolding fair_run_def by blast
  define u where "u = (LEAST u. t \<le> u \<and> who u = i)"
  have u: "t \<le> u" "who u = i" unfolding u_def using LeastI [of "\<lambda>u. t \<le> u \<and> who u = i" v] v by simp_all
  have "point_of \<sigma> w i = point_of \<sigma> t i" if "t \<le> w" "w \<le> u" for w
    using that
  proof (induction w rule: dec_induct)
    case (step w)
    then have "who w \<noteq> i" using not_less_Least [of w "\<lambda>u. t \<le> u \<and> who u = i"] unfolding u_def by auto
    then show ?case using step run_step(4) [OF assms(1), of i w] by simp
  qed simp
  then show ?thesis using that u by blast
qed

text \<open>When no step raises the rank of a process, the ranks settle.\<close>

lemma ranks_settle:
  fixes rank :: "'p \<Rightarrow> nat"
  assumes run: "fair_run act n \<sigma> who"
    and le: "\<And>t. t0 \<le> t \<Longrightarrow> rank (point_of \<sigma> (Suc t) (who t)) \<le> rank (point_of \<sigma> t (who t))"
  obtains t1 where "t0 \<le> t1" "\<And>t i. t1 \<le> t \<Longrightarrow> i < n \<Longrightarrow> rank (point_of \<sigma> t i) = rank (point_of \<sigma> t1 i)"
proof -
  have one: "rank (point_of \<sigma> (Suc t) i) \<le> rank (point_of \<sigma> t i)" if "t0 \<le> t" for t i
    using le [OF that] run_step(4) [OF run, of i t] by (cases "i = who t") auto
  have anti: "rank (point_of \<sigma> u i) \<le> rank (point_of \<sigma> t i)" if "t0 \<le> t" "t \<le> u" for t u i
    using that(2,1) by (induction u rule: dec_induct) (auto intro: order_trans [OF one])
  define total where "total t = (\<Sum>i<n. rank (point_of \<sigma> t i))" for t
  define t1 where "t1 = (ARG_MIN total t. t0 \<le> t)"
  have t1: "t0 \<le> t1" "\<And>t. t0 \<le> t \<Longrightarrow> total t1 \<le> total t"
    unfolding t1_def using arg_min_natI [of "\<lambda>t. t0 \<le> t" t0 total] arg_min_nat_le [of "\<lambda>t. t0 \<le> t" _ total] by auto
  have "rank (point_of \<sigma> t i) = rank (point_of \<sigma> t1 i)" if t: "t1 \<le> t" and i: "i < n" for t i
  proof -
    have a: "\<And>j. j \<in> {..<n} \<Longrightarrow> rank (point_of \<sigma> t j) \<le> rank (point_of \<sigma> t1 j)" using anti [OF t1(1) t] by simp
    then have "total t \<le> total t1" unfolding total_def by (rule sum_mono)
    then have "total t = total t1" using t1(2) [of t] t1(1) t by simp
    then show ?thesis using sum_mono_inv [of "\<lambda>j. rank (point_of \<sigma> t j)" "{..<n}" "\<lambda>j. rank (point_of \<sigma> t1 j)" i] a i
      by (simp add: total_def)
  qed
  then show ?thesis using that t1(1) by blast
qed

text \<open>
  Once the ranks have settled, nobody is at a point whose every step changes the rank or leads to a point nobody
  is at.
\<close>

lemma never_at:
  fixes rank :: "'p \<Rightarrow> nat"
  assumes run: "fair_run act n \<sigma> who" and i: "i < n"
    and steady: "\<And>t. t1 \<le> t \<Longrightarrow> rank (point_of \<sigma> t i) = rank (point_of \<sigma> t1 i)"
    and step: "\<And>t p'. t1 \<le> t \<Longrightarrow> act (fst (\<sigma> t)) p (fst (\<sigma> (Suc t))) p' \<Longrightarrow> rank p' \<noteq> rank p \<or> p' \<in> bad"
    and bad: "\<And>t. t1 \<le> t \<Longrightarrow> point_of \<sigma> t i \<notin> bad"
    and t: "t1 \<le> t"
  shows "point_of \<sigma> t i \<noteq> p"
proof
  assume p: "point_of \<sigma> t i = p"
  obtain u where u: "t \<le> u" "who u = i" "point_of \<sigma> u i = p" using next_turn [OF run i, of t] p by metis
  then have "act (fst (\<sigma> u)) p (fst (\<sigma> (Suc u))) (point_of \<sigma> (Suc u) i)" using run_step(3) [OF run, of u] by simp
  then have "rank (point_of \<sigma> (Suc u) i) \<noteq> rank p" using step [of u] bad [of "Suc u"] t u(1) by auto
  then show False using steady [of u] steady [of "Suc u"] t u by simp
qed

end
