(* ===== verification/Ngx_Rwlock.thy ===== *)
theory Ngx_Rwlock
  imports Ngx_Interleaving
begin

text \<open>
  The lock of readers and one writer, \<open>src/core/ngx_rwlock.c\<close>, that the balancers use for upstreams in shared
  memory.  The lock is one 64-bit word: zero when free, all ones when a writer holds it, else the number of the
  readers.  Every read of the word, every \<open>ngx_atomic_cmp_set\<close> and the store of the unlocking writer is one
  step; the control points name the access a process makes next, with the values it has read.  \<open>many\<close> is
  \<open>ngx_ncpu > 1\<close>.
\<close>

subsection \<open>The code\<close>

definition NGX_RWLOCK_SPIN :: nat where "NGX_RWLOCK_SPIN = 2048"
definition NGX_RWLOCK_WLOCK :: u64 where "NGX_RWLOCK_WLOCK = -1"

text \<open>
  \<open>n\<close> is the pause after which the process tries again, 0 before the first.  The holders are at \<open>Writing\<close>
  and \<open>Reading\<close> until they call \<open>ngx_rwlock_unlock\<close>.
\<close>

datatype lock_point =
  Outside
| W_test nat | W_set nat | Writing
| R_test nat | R_set nat u64 | Reading
| U_test | U_store | U_set u64 | U_again

text \<open>\<open>ngx_atomic_cmp_set\<close>: the new value of the word, or nothing when it has changed.\<close>

definition cmp_set :: "u64 \<Rightarrow> u64 \<Rightarrow> u64 \<Rightarrow> u64 option" where
  "cmp_set lock old new = (if lock = old then Some new else None)"

text \<open>The next round of \<open>for (n = 1; n < NGX_RWLOCK_SPIN; n <<= 1)\<close>, or the outer loop again.\<close>

definition next_pause :: "bool \<Rightarrow> nat \<Rightarrow> nat" where
  "next_pause many n =
     (if \<not> many then 0
      else let n = (if n = 0 then 1 else 2 * n) in if n < NGX_RWLOCK_SPIN then n else 0)"

fun ngx_rwlock_wlock :: "bool \<Rightarrow> u64 \<Rightarrow> lock_point \<Rightarrow> (u64 \<times> lock_point) option" where
  "ngx_rwlock_wlock many lock (W_test n) = Some (lock, if lock = 0 then W_set n else W_test (next_pause many n))"
| "ngx_rwlock_wlock many lock (W_set n) =
     (case cmp_set lock 0 NGX_RWLOCK_WLOCK of
        Some lock \<Rightarrow> Some (lock, Writing)
      | None \<Rightarrow> Some (lock, W_test (next_pause many n)))"
| "ngx_rwlock_wlock many lock p = None"

fun ngx_rwlock_rlock :: "bool \<Rightarrow> u64 \<Rightarrow> lock_point \<Rightarrow> (u64 \<times> lock_point) option" where
  "ngx_rwlock_rlock many lock (R_test n) =
     Some (lock, if lock \<noteq> NGX_RWLOCK_WLOCK then R_set n lock else R_test (next_pause many n))"
| "ngx_rwlock_rlock many lock (R_set n readers) =
     (case cmp_set lock readers (readers + 1) of
        Some lock \<Rightarrow> Some (lock, Reading)
      | None \<Rightarrow> Some (lock, R_test (next_pause many n)))"
| "ngx_rwlock_rlock many lock p = None"

fun ngx_rwlock_unlock :: "u64 \<Rightarrow> lock_point \<Rightarrow> (u64 \<times> lock_point) option" where
  "ngx_rwlock_unlock lock U_test = Some (lock, if lock = NGX_RWLOCK_WLOCK then U_store else U_set lock)"
| "ngx_rwlock_unlock lock U_store = Some (0, Outside)"
| "ngx_rwlock_unlock lock (U_set readers) =
     (case cmp_set lock readers (readers - 1) of
        Some lock \<Rightarrow> Some (lock, Outside)
      | None \<Rightarrow> Some (lock, U_again))"
| "ngx_rwlock_unlock lock U_again = Some (lock, U_set lock)"
| "ngx_rwlock_unlock lock p = None"

text \<open>
  One step of a process: the call of a function, an access of the function it is in, or work that has nothing to
  do with the lock.
\<close>

inductive rwlock_act :: "bool \<Rightarrow> u64 \<Rightarrow> lock_point \<Rightarrow> u64 \<Rightarrow> lock_point \<Rightarrow> bool" for many where
  call_wlock: "rwlock_act many lock Outside lock (W_test 0)"
| call_rlock: "rwlock_act many lock Outside lock (R_test 0)"
| call_unlock: "p = Writing \<or> p = Reading \<Longrightarrow> rwlock_act many lock p lock U_test"
| work: "p = Outside \<or> p = Writing \<or> p = Reading \<Longrightarrow> rwlock_act many lock p lock p"
| in_wlock: "ngx_rwlock_wlock many lock p = Some (lock', p') \<Longrightarrow> rwlock_act many lock p lock' p'"
| in_rlock: "ngx_rwlock_rlock many lock p = Some (lock', p') \<Longrightarrow> rwlock_act many lock p lock' p'"
| in_unlock: "ngx_rwlock_unlock lock p = Some (lock', p') \<Longrightarrow> rwlock_act many lock p lock' p'"

inductive_simps act_from:
  "rwlock_act many lock Outside lock' p'"
  "rwlock_act many lock (W_test n) lock' p'"
  "rwlock_act many lock (W_set n) lock' p'"
  "rwlock_act many lock Writing lock' p'"
  "rwlock_act many lock (R_test n) lock' p'"
  "rwlock_act many lock (R_set n v) lock' p'"
  "rwlock_act many lock Reading lock' p'"
  "rwlock_act many lock U_test lock' p'"
  "rwlock_act many lock U_store lock' p'"
  "rwlock_act many lock (U_set v) lock' p'"
  "rwlock_act many lock U_again lock' p'"

subsection \<open>The invariant\<close>

text \<open>Who holds the lock, and who can hold it besides a writer or besides readers.\<close>

fun holds :: "lock_point \<Rightarrow> bool" where
  "holds p = (p \<in> {Writing, Reading, U_test, U_store, U_again} \<or> (\<exists>v. p = U_set v))"

definition holder_count :: "lock_point list \<Rightarrow> nat" where
  "holder_count ps = length (filter holds ps)"

text \<open>
  What a process can be at for a value of the word; a reader only tries to count itself when it has seen no writer.
\<close>

definition fits :: "u64 \<Rightarrow> lock_point \<Rightarrow> bool" where
  "fits lock p \<longleftrightarrow>
     (\<forall>n v. p = R_set n v \<longrightarrow> v \<noteq> NGX_RWLOCK_WLOCK) \<and>
     (if lock = NGX_RWLOCK_WLOCK then holds p \<longrightarrow> p \<in> {Writing, U_test, U_store} else p \<noteq> Writing \<and> p \<noteq> U_store)"

definition rwlock_ok :: "u64 \<Rightarrow> lock_point list \<Rightarrow> bool" where
  "rwlock_ok lock ps \<longleftrightarrow>
     length ps < 2 ^ 64 - 1 \<and> (\<forall>p\<in>set ps. fits lock p) \<and>
     (if lock = NGX_RWLOCK_WLOCK then holder_count ps = 1 else lock = of_nat (holder_count ps))"

lemma holder_count_update:
  "i < length ps \<Longrightarrow> holder_count (ps[i := p]) + (if holds (ps ! i) then 1 else 0) = holder_count ps + (if holds p then 1 else 0)"
  unfolding holder_count_def by (rule length_filter_update)

lemma holder_count_le: "holder_count ps \<le> length ps"
  by (simp add: holder_count_def)

lemma holder_count_eq_0: "holder_count ps = 0 \<longleftrightarrow> (\<forall>p\<in>set ps. \<not> holds p)"
  by (simp add: holder_count_def filter_empty_conv del: holds.simps)

text \<open>The number of holders, read back from the word.\<close>

lemma of_nat_count:
  assumes "n < 2 ^ 64 - 1"
  shows "(of_nat n :: u64) = 0 \<longleftrightarrow> n = 0" "(of_nat n :: u64) \<noteq> NGX_RWLOCK_WLOCK" "unat (of_nat n :: u64) = n"
proof -
  show u: "unat (of_nat n :: u64) = n" using assms by (simp add: unat_of_nat take_bit_nat_eq_self)
  show "(of_nat n :: u64) = 0 \<longleftrightarrow> n = 0" using unat_eq_zero [of "of_nat n :: u64"] unfolding u by blast
  have "unat NGX_RWLOCK_WLOCK = 2 ^ 64 - 1" by (simp add: NGX_RWLOCK_WLOCK_def unsigned_minus_1_eq_mask mask_eq_exp_minus_1)
  then show "(of_nat n :: u64) \<noteq> NGX_RWLOCK_WLOCK" using u assms by (metis less_irrefl)
qed

lemma all_update: "\<forall>q\<in>set ps. P q \<Longrightarrow> P p \<Longrightarrow> \<forall>q\<in>set (ps[i := p]). P q"
  by (auto dest: set_update_subset_insert [THEN subsetD])

text \<open>A step that leaves the word alone and moves a process between points of the same kind.\<close>

lemma ok_same:
  assumes "rwlock_ok lock ps" "i < length ps" "holds p = holds (ps ! i)" "fits lock p"
  shows "rwlock_ok lock (ps[i := p])"
proof -
  have "holder_count (ps[i := p]) = holder_count ps" using holder_count_update [OF assms(2), of p] assms(3) by simp
  then show ?thesis using assms(1) all_update [of ps "fits lock" p i] assms(4) unfolding rwlock_ok_def by simp
qed

lemma ok_lock_0:
  assumes "rwlock_ok 0 ps"
  shows "holder_count ps = 0" "\<forall>p\<in>set ps. \<not> holds p"
proof -
  have "(of_nat (holder_count ps) :: u64) = 0" "length ps < 2 ^ 64 - 1"
    using assms by (simp_all add: rwlock_ok_def NGX_RWLOCK_WLOCK_def)
  then show c: "holder_count ps = 0" using of_nat_count(1) [of "holder_count ps"] holder_count_le [of ps] by linarith
  then show "\<forall>p\<in>set ps. \<not> holds p" using holder_count_eq_0 by blast
qed

lemma ok_enter_writer:
  assumes "rwlock_ok 0 ps" "i < length ps"
  shows "rwlock_ok NGX_RWLOCK_WLOCK (ps[i := Writing])"
proof -
  note free = ok_lock_0 [OF assms(1)]
  have "holder_count (ps[i := Writing]) = 1" using holder_count_update [OF assms(2), of Writing] free assms(2) by simp
  moreover have "\<forall>p\<in>set ps. fits NGX_RWLOCK_WLOCK p" using free(2) assms(1) by (simp add: rwlock_ok_def fits_def del: holds.simps)
  then have "\<forall>p\<in>set (ps[i := Writing]). fits NGX_RWLOCK_WLOCK p" by (rule all_update) (simp add: fits_def)
  ultimately show ?thesis using assms(1) by (simp add: rwlock_ok_def)
qed

lemma ok_leave_writer:
  assumes "rwlock_ok lock ps" "i < length ps" "ps ! i = U_store"
  shows "rwlock_ok 0 (ps[i := Outside])"
proof -
  have "fits lock U_store" using assms nth_mem by (fastforce simp: rwlock_ok_def)
  then have "lock = NGX_RWLOCK_WLOCK" by (auto simp: fits_def split: if_splits)
  then have w: "holder_count ps = 1" "length ps < 2 ^ 64 - 1" "\<forall>p\<in>set ps. fits NGX_RWLOCK_WLOCK p"
    using assms(1) by (simp_all add: rwlock_ok_def)
  have "holder_count (ps[i := Outside]) = 0" using holder_count_update [OF assms(2), of Outside] w(1) assms(3) by simp
  moreover from this have "\<forall>p\<in>set (ps[i := Outside]). \<not> holds p" using holder_count_eq_0 by blast
  moreover have "\<forall>p\<in>set (ps[i := Outside]). fits NGX_RWLOCK_WLOCK p" by (rule all_update [OF w(3)]) (simp add: fits_def)
  ultimately show ?thesis using w(2) by (force simp: rwlock_ok_def fits_def NGX_RWLOCK_WLOCK_def)
qed

lemma ok_reader:
  assumes "rwlock_ok lock ps" "lock \<noteq> NGX_RWLOCK_WLOCK" "i < length ps"
    and "p = Reading \<and> \<not> holds (ps ! i) \<and> lock' = lock + 1 \<or> p = Outside \<and> holds (ps ! i) \<and> lock' = lock - 1"
  shows "rwlock_ok lock' (ps[i := p])"
proof -
  have ok: "lock = of_nat (holder_count ps)" "\<forall>q\<in>set ps. fits lock q" "length ps < 2 ^ 64 - 1"
    using assms(1,2) unfolding rwlock_ok_def by metis+
  have "lock' = of_nat (holder_count (ps[i := p]))"
  proof (cases "p = Reading")
    case True
    then have "holder_count (ps[i := p]) = Suc (holder_count ps)" using holder_count_update [OF assms(3), of p] assms(4) by simp
    then show ?thesis using True ok(1) assms(4) by simp
  next
    case False
    then have "Suc (holder_count (ps[i := p])) = holder_count ps" using holder_count_update [OF assms(3), of p] assms(4) by simp
    then have "(of_nat (holder_count ps) :: u64) = of_nat (holder_count (ps[i := p])) + 1" by (metis of_nat_Suc add.commute)
    then show ?thesis using False ok(1) assms(4) by simp
  qed
  moreover have l: "holder_count (ps[i := p]) < 2 ^ 64 - 1" using holder_count_le [of "ps[i := p]"] ok(3) by simp
  moreover have "\<forall>q\<in>set (ps[i := p]). fits lock q" using ok(2) assms(2,4) by (intro all_update) (auto simp: fits_def)
  then have "\<forall>q\<in>set (ps[i := p]). fits lock' q" using of_nat_count(2) [OF l] assms(2) calculation(1) by (simp add: fits_def)
  ultimately show ?thesis using ok(3) of_nat_count(2) [OF l] by (simp add: rwlock_ok_def)
qed

lemma rwlock_preserved:
  assumes ok: "rwlock_ok lock ps" and i: "i < length ps" and act: "rwlock_act many lock (ps ! i) lock' p'"
  shows "rwlock_ok lock' (ps[i := p'])"
proof -
  have f: "fits lock (ps ! i)" using ok i by (simp add: rwlock_ok_def)
  note same = ok_same [OF ok i]
  show ?thesis
  proof (cases "ps ! i")
    case (W_set n)
    then have "lock = 0 \<and> lock' = NGX_RWLOCK_WLOCK \<and> p' = Writing \<or> lock' = lock \<and> (\<exists>n. p' = W_test n)"
      using act by (auto simp: act_from cmp_set_def split: if_splits)
    then show ?thesis using ok_enter_writer [of ps i] ok i same W_set by (auto simp: fits_def)
  next
    case (R_set n v)
    then have "lock \<noteq> NGX_RWLOCK_WLOCK \<and> lock' = lock + 1 \<and> p' = Reading \<or> lock' = lock \<and> (\<exists>n. p' = R_test n)"
      using act f by (auto simp: act_from cmp_set_def fits_def split: if_splits)
    then show ?thesis using ok_reader [OF ok _ i, of Reading "lock + 1"] same R_set by (auto simp: fits_def)
  next
    case (U_set v)
    then have "lock \<noteq> NGX_RWLOCK_WLOCK" using f by (auto simp: fits_def)
    moreover have "lock' = lock - 1 \<and> p' = Outside \<or> lock' = lock \<and> p' = U_again"
      using act U_set by (auto simp: act_from cmp_set_def split: if_splits)
    ultimately show ?thesis using ok_reader [OF ok _ i, of Outside "lock - 1"] same U_set by (auto simp: fits_def)
  next
    case U_store
    then show ?thesis using act ok_leave_writer [OF ok i] by (auto simp: act_from)
  qed (use act same f in \<open>auto simp: act_from fits_def split: if_splits\<close>)
qed

interpretation rwlock: interleaving "rwlock_act many" 0 Outside "2 ^ 64 - 1" rwlock_ok
proof
  show "rwlock_ok 0 (replicate n Outside)" if "n < 2 ^ 64 - 1" for n
  proof -
    have "holder_count (replicate n Outside) = 0" by (simp add: holder_count_def filter_empty_conv)
    then show ?thesis using that by (auto simp: rwlock_ok_def fits_def NGX_RWLOCK_WLOCK_def)
  qed
qed (rule rwlock_preserved)

subsection \<open>Mutual exclusion\<close>

lemma one_holder:
  assumes "holder_count ps = 1" "i < length ps" "holds (ps ! i)" "j < length ps" "j \<noteq> i"
  shows "\<not> holds (ps ! j)"
  using length_filter_two [of i ps j holds] assms by (force simp: holder_count_def simp del: holds.simps)

text \<open>
  C9: While a process writes, no other process writes, reads or has anything left to undo, and without a writer
  the word is the number of the processes that read or still have to count themselves out; whatever the order of
  the accesses of any number of processes below \<open>2 ^ 64 - 1\<close>.
\<close>

theorem rwlock_excludes:
  assumes "(some_step (rwlock_act many))\<^sup>*\<^sup>* (0, replicate n Outside) (lock, ps)" "n < 2 ^ 64 - 1"
  shows "(\<forall>i<n. \<forall>j<n. ps ! i = Writing \<and> j \<noteq> i \<longrightarrow> \<not> holds (ps ! j)) \<and>
    ((\<forall>i<n. ps ! i \<notin> {Writing, U_test, U_store}) \<longrightarrow> unat lock = holder_count ps)"
proof (intro conjI allI impI)
  have ok: "rwlock_ok lock ps" "length ps = n" using rwlock.reachable_inv [OF assms] by simp_all
  have f: "fits lock (ps ! i)" if "i < n" for i using ok that by (simp add: rwlock_ok_def)
  show "\<not> holds (ps ! j)" if ij: "i < n" "j < n" "ps ! i = Writing \<and> j \<noteq> i" for i j
  proof -
    have "lock = NGX_RWLOCK_WLOCK" using f [OF ij(1)] ij(3) by (auto simp: fits_def split: if_splits)
    then have "holder_count ps = 1" using ok(1) by (simp add: rwlock_ok_def)
    then show ?thesis using one_holder [of ps i j] ij ok(2) by simp
  qed
  assume none: "\<forall>i<n. ps ! i \<notin> {Writing, U_test, U_store}"
  have "lock \<noteq> NGX_RWLOCK_WLOCK"
  proof
    assume w: "lock = NGX_RWLOCK_WLOCK"
    then have "holder_count ps = 1" using ok(1) by (simp add: rwlock_ok_def)
    then obtain p where p: "p \<in> set ps" "holds p" using holder_count_eq_0 [of ps] by auto
    then obtain i where "i < n" "ps ! i = p" using ok(2) by (auto simp: in_set_conv_nth)
    then show False using f [of i] none p(2) w by (auto simp: fits_def simp del: holds.simps)
  qed
  then have "lock = of_nat (holder_count ps)" "length ps < 2 ^ 64 - 1" using ok(1) unfolding rwlock_ok_def by metis+
  then show "unat lock = holder_count ps" using of_nat_count(3) [OF le_less_trans [OF holder_count_le]] by simp
qed

subsection \<open>Nobody waits for ever\<close>

text \<open>How far a process is on its way out; only a call takes it back.\<close>

fun rank :: "lock_point \<Rightarrow> nat" where
  "rank Outside = 0"
| "rank U_store = 1" | "rank (U_set v) = 1" | "rank U_again = 1"
| "rank U_test = 2"
| "rank Writing = 3" | "rank Reading = 3"
| "rank (W_test n) = 4" | "rank (W_set n) = 4" | "rank (R_test n) = 4" | "rank (R_set n v) = 4"

lemma rank_inj:
  "rank p = 0 \<longleftrightarrow> p = Outside" "rank p = 3 \<longleftrightarrow> p = Writing \<or> p = Reading" "rank p = 2 \<longleftrightarrow> p = U_test"
  "rank p = 1 \<longleftrightarrow> p = U_store \<or> p = U_again \<or> (\<exists>v. p = U_set v)"
  "rank p \<le> 4"
  by (cases p; simp)+

lemma act_rank:
  assumes "rwlock_act many lock p lock' p'" "p = Outside \<Longrightarrow> p' = Outside"
  shows "rank p' \<le> rank p" "rank p' = rank p \<Longrightarrow> lock' = lock"
  using assms by (cases p; auto simp: act_from cmp_set_def split: if_splits)+

text \<open>A run of processes that at some time stop calling, and in which no holder keeps the lock for ever.\<close>

definition draining :: "bool \<Rightarrow> nat \<Rightarrow> (nat \<Rightarrow> u64 \<times> lock_point list) \<Rightarrow> (nat \<Rightarrow> nat) \<Rightarrow> nat \<Rightarrow> bool" where
  "draining many n \<sigma> who t0 \<longleftrightarrow>
     fair_run (rwlock_act many) n \<sigma> who \<and> \<sigma> 0 = (0, replicate n Outside) \<and>
     (\<forall>t\<ge>t0. \<forall>i<n. point_of \<sigma> t i = Outside \<longrightarrow> point_of \<sigma> (Suc t) i = Outside) \<and>
     (\<forall>t. \<forall>i<n. point_of \<sigma> t i \<in> {Writing, Reading} \<longrightarrow> (\<exists>u\<ge>t. point_of \<sigma> u i \<notin> {Writing, Reading}))"

lemma run_ok:
  assumes "fair_run (rwlock_act many) n \<sigma> who" "\<sigma> 0 = (0, replicate n Outside)" "n < 2 ^ 64 - 1"
  shows "rwlock_ok (fst (\<sigma> t)) (snd (\<sigma> t))" "length (snd (\<sigma> t)) = n"
proof -
  have "(some_step (rwlock_act many))\<^sup>*\<^sup>* (0, replicate n Outside) (\<sigma> t)"
  proof (induction t)
    case (Suc t)
    have "some_step (rwlock_act many) (\<sigma> t) (\<sigma> (Suc t))" using assms(1) by (auto simp: some_step_def fair_run_def)
    then show ?case using Suc by (rule rtranclp.rtrancl_into_rtrancl [rotated])
  qed (simp add: assms(2))
  then show "rwlock_ok (fst (\<sigma> t)) (snd (\<sigma> t))" "length (snd (\<sigma> t)) = n" using rwlock.reachable_inv assms(3) by blast+
qed

lemma settled_outside:
  assumes d: "draining many n \<sigma> who t0" and n: "n < 2 ^ 64 - 1" and t1: "t0 \<le> t1"
    and settled: "\<And>t i. t1 \<le> t \<Longrightarrow> i < n \<Longrightarrow> rank (point_of \<sigma> t i) = rank (point_of \<sigma> t1 i)"
  shows "\<forall>i<n. point_of \<sigma> t1 i = Outside"
proof -
  have run: "fair_run (rwlock_act many) n \<sigma> who" using d by (simp add: draining_def)
  have quiet: "point_of \<sigma> t (who t) = Outside \<Longrightarrow> point_of \<sigma> (Suc t) (who t) = Outside" if "t1 \<le> t" for t
    using d t1 that run_step(1) [OF run, of t] by (simp add: draining_def)
  have same: "fst (\<sigma> t) = fst (\<sigma> t1)" if "t1 \<le> t" for t
    using that
  proof (induction t rule: dec_induct)
    case (step t)
    have "rank (point_of \<sigma> (Suc t) (who t)) = rank (point_of \<sigma> t (who t))"
      using settled [of t "who t"] settled [of "Suc t" "who t"] step(1) run_step(1) [OF run, of t] by simp
    then have "fst (\<sigma> (Suc t)) = fst (\<sigma> t)" using act_rank(2) [OF run_step(3) [OF run, of t]] quiet [of t] step(1) by simp
    then show ?case using step by simp
  qed simp
  define L where "L = fst (\<sigma> t1)"
  have L: "fst (\<sigma> t) = L" if "t1 \<le> t" for t unfolding L_def by (rule same [OF that])
  have never: "point_of \<sigma> t i \<noteq> p"
    if "i < n" "t1 \<le> t" "\<And>p'. rwlock_act many L p L p' \<Longrightarrow> rank p' \<noteq> rank p \<or> p' \<in> bad" "\<And>t. t1 \<le> t \<Longrightarrow> point_of \<sigma> t i \<notin> bad" for t i p bad
  proof (rule never_at [OF run that(1) _ _ that(4) that(2)])
    show "rank (point_of \<sigma> t i) = rank (point_of \<sigma> t1 i)" if "t1 \<le> t" for t using settled that \<open>i < n\<close> by blast
    show "rank p' \<noteq> rank p \<or> p' \<in> bad" if "t1 \<le> t" "rwlock_act many (fst (\<sigma> t)) p (fst (\<sigma> (Suc t))) p'" for t p'
      using that \<open>\<And>p'. rwlock_act many L p L p' \<Longrightarrow> rank p' \<noteq> rank p \<or> p' \<in> bad\<close> L [of t] L [of "Suc t"] by simp
  qed
  have r3: "rank (point_of \<sigma> t i) \<noteq> 3" if i: "i < n" "t1 \<le> t" for t i
  proof
    assume r: "rank (point_of \<sigma> t i) = 3"
    have "rank (point_of \<sigma> u i) = 3" if "t \<le> u" for u
      using settled [OF order_trans [OF i(2) that] i(1)] settled [OF i(2,1)] r by linarith
    then have "point_of \<sigma> u i \<in> {Writing, Reading}" if "t \<le> u" for u using rank_inj(2) [of "point_of \<sigma> u i"] that by auto
    moreover obtain u where "t \<le> u" "point_of \<sigma> u i \<notin> {Writing, Reading}"
      using d i(1) calculation [of t] unfolding draining_def by blast
    ultimately show False by blast
  qed
  have r2: "point_of \<sigma> t i \<noteq> U_test" if "i < n" "t1 \<le> t" for t i
    by (rule never [OF that, where bad = "{}"]) (auto simp: act_from)
  have store: "point_of \<sigma> t i \<noteq> U_store" if "i < n" "t1 \<le> t" for t i
    by (rule never [OF that, where bad = "{}"]) (auto simp: act_from)
  have seen: "point_of \<sigma> t i \<noteq> U_set L" if "i < n" "t1 \<le> t" for t i
    by (rule never [OF that, where bad = "{}"]) (auto simp: act_from cmp_set_def)
  have again: "point_of \<sigma> t i \<noteq> U_again" if "i < n" "t1 \<le> t" for t i
    by (rule never [OF that, where bad = "{U_set L}"]) (use seen that in \<open>auto simp: act_from\<close>)
  have set: "point_of \<sigma> t i \<noteq> U_set v" if "i < n" "t1 \<le> t" for t i v
    by (rule never [OF that, where bad = "{U_again}"]) (use again that in \<open>auto simp: act_from cmp_set_def split: if_splits\<close>)
  have free: "\<not> holds (point_of \<sigma> t1 i)" if "i < n" for i
    using r3 [OF that, of t1] r2 [OF that, of t1] store [OF that, of t1] again [OF that, of t1] set [OF that, of t1]
    by (cases "point_of \<sigma> t1 i") auto
  have L0: "L = 0"
  proof -
    have ok: "rwlock_ok L (snd (\<sigma> t1))" "length (snd (\<sigma> t1)) = n"
      using run_ok [OF run _ n, of t1] d by (simp_all add: L_def draining_def)
    have "holder_count (snd (\<sigma> t1)) = 0"
      using free ok(2) holder_count_eq_0 [of "snd (\<sigma> t1)"] by (fastforce simp: point_of_def in_set_conv_nth simp del: holds.simps)
    then show ?thesis using ok(1) by (simp add: rwlock_ok_def split: if_splits)
  qed
  have wset: "point_of \<sigma> t i \<noteq> W_set m" if "i < n" "t1 \<le> t" for t i m
    by (rule never [OF that, where bad = "{}"]) (auto simp: act_from cmp_set_def L0 NGX_RWLOCK_WLOCK_def)
  have wtest: "point_of \<sigma> t i \<noteq> W_test m" if "i < n" "t1 \<le> t" for t i m
    by (rule never [OF that, where bad = "{W_set m}"]) (use wset that in \<open>auto simp: act_from L0\<close>)
  have rset0: "point_of \<sigma> t i \<noteq> R_set m 0" if "i < n" "t1 \<le> t" for t i m
    by (rule never [OF that, where bad = "{}"]) (auto simp: act_from cmp_set_def L0)
  have rtest: "point_of \<sigma> t i \<noteq> R_test m" if "i < n" "t1 \<le> t" for t i m
    by (rule never [OF that, where bad = "{R_set m 0}"]) (use rset0 that in \<open>auto simp: act_from L0 NGX_RWLOCK_WLOCK_def\<close>)
  have rset: "point_of \<sigma> t i \<noteq> R_set m v" if "i < n" "t1 \<le> t" for t i m v
    by (rule never [OF that, where bad = "range R_test"]) (use rset0 rtest that in \<open>auto simp: act_from cmp_set_def L0 split: if_splits\<close>)
  show ?thesis
  proof (intro allI impI)
    fix i assume i: "i < n"
    show "point_of \<sigma> t1 i = Outside"
      using free [OF i] wset [OF i, of t1] wtest [OF i, of t1] rset [OF i, of t1] rtest [OF i, of t1]
      by (cases "point_of \<sigma> t1 i") auto
  qed
qed

text \<open>Who waits gets the lock before it is outside again.\<close>

definition waits :: "lock_point \<Rightarrow> bool" where
  "waits p \<longleftrightarrow> rank p = 4"

lemma act_waits: "rwlock_act many lock p lock' p' \<Longrightarrow> waits p \<Longrightarrow> waits p' \<or> p' \<in> {Writing, Reading}"
  by (cases p) (auto simp: waits_def act_from cmp_set_def split: if_splits)

lemma waits_until:
  assumes run: "fair_run (rwlock_act many) n \<sigma> who" and w: "waits (point_of \<sigma> t0 i)" and t: "t0 \<le> t"
  shows "waits (point_of \<sigma> t i) \<or> (\<exists>u\<ge>t0. point_of \<sigma> u i \<in> {Writing, Reading})"
  using t
proof (induction t rule: dec_induct)
  case (step t)
  show ?case
  proof (cases "i = who t")
    case True
    note act = run_step(3) [OF run, of t, folded True]
    have "waits (point_of \<sigma> t i) \<Longrightarrow> waits (point_of \<sigma> (Suc t) i) \<or> point_of \<sigma> (Suc t) i \<in> {Writing, Reading}"
      by (rule act_waits [OF act])
    then show ?thesis using step le_Suc_eq [of t0 t] by blast
  next
    case False
    then show ?thesis using step run_step(4) [OF run False] by simp
  qed
qed (simp add: w)

text \<open>
  C10: When the processes get their turns, the holders let the lock go and no process calls any more, every process
  comes to its end, and every process that waits gets the lock before: nobody spins for ever, whatever the order of
  the accesses.
\<close>

theorem rwlock_drains:
  assumes "draining many n \<sigma> who t0" "n < 2 ^ 64 - 1"
  shows "(\<exists>t\<ge>t0. \<forall>i<n. point_of \<sigma> t i = Outside) \<and>
    (\<forall>i<n. waits (point_of \<sigma> t0 i) \<longrightarrow> (\<exists>t\<ge>t0. point_of \<sigma> t i \<in> {Writing, Reading}))"
proof -
  have run: "fair_run (rwlock_act many) n \<sigma> who" using assms(1) by (simp add: draining_def)
  have le: "rank (point_of \<sigma> (Suc t) (who t)) \<le> rank (point_of \<sigma> t (who t))" if "t0 \<le> t" for t
    using act_rank(1) [OF run_step(3) [OF run, of t]] assms(1) that run_step(1) [OF run, of t] by (simp add: draining_def)
  obtain t1 where t1: "t0 \<le> t1" "\<And>t i. t1 \<le> t \<Longrightarrow> i < n \<Longrightarrow> rank (point_of \<sigma> t i) = rank (point_of \<sigma> t1 i)"
    using ranks_settle [OF run le] by blast
  have out: "\<forall>i<n. point_of \<sigma> t1 i = Outside" by (rule settled_outside [OF assms t1])
  have "\<exists>t\<ge>t0. point_of \<sigma> t i \<in> {Writing, Reading}" if "i < n" "waits (point_of \<sigma> t0 i)" for i
    using waits_until [OF run that(2) t1(1)] out that(1) by (auto simp: waits_def)
  then show ?thesis using t1(1) out by blast
qed

text \<open>A run: two processes, a writer and a reader, that take their turns; the writer comes first.\<close>

definition sample_points :: "(u64 \<times> lock_point \<times> lock_point) list" where
  "sample_points =
     [(0, Outside, Outside), (0, W_test 0, Outside), (0, W_test 0, R_test 0), (0, W_set 0, R_test 0), (0, W_set 0, R_set 0 0),
      (- 1, Writing, R_set 0 0), (- 1, Writing, R_test 0), (- 1, U_test, R_test 0), (- 1, U_test, R_test 0), (- 1, U_store, R_test 0),
      (- 1, U_store, R_test 0), (0, Outside, R_test 0), (0, Outside, R_set 0 0), (0, Outside, R_set 0 0), (1, Outside, Reading),
      (1, Outside, Reading), (1, Outside, U_test), (1, Outside, U_test), (1, Outside, U_set 1), (1, Outside, U_set 1),
      (0, Outside, Outside)]"

definition sample_run :: "nat \<Rightarrow> u64 \<times> lock_point list" where
  "sample_run t = (case sample_points ! min t 20 of (lock, p, q) \<Rightarrow> (lock, [p, q]))"

lemma less_20: "t < 20 \<Longrightarrow> t \<in> {0, 1, 2, 3, 4, 5, 6, 7, 8, 9, 10, 11, 12, 13, 14, 15, 16, 17, 18, 19 :: nat}"
  by (simp only: insert_iff empty_iff) presburger

lemma sample_run_step: "interleaved (rwlock_act False) (t mod 2) (sample_run t) (sample_run (Suc t))"
proof (cases "t < 20")
  case True
  from less_20 [OF this] show ?thesis
    by (elim insertE emptyE) (simp_all add: interleaved_simps sample_run_def sample_points_def act_from cmp_set_def NGX_RWLOCK_WLOCK_def next_pause_def)
next
  case False
  then have "sample_run t = (0, [Outside, Outside])" "sample_run (Suc t) = (0, [Outside, Outside])"
    by (simp_all add: sample_run_def sample_points_def min_def)
  moreover have "t mod 2 = 0 \<or> t mod 2 = 1" by auto
  ultimately show ?thesis by (elim disjE) (simp_all add: interleaved_simps act_from)
qed

theorem rwlock_excludes_witness:
  "\<exists>lock ps. (some_step (rwlock_act False))\<^sup>*\<^sup>* (0, replicate 2 Outside) (lock, ps) \<and> ps = [Writing, R_set 0 0] \<and> \<not> holds (ps ! 1)"
proof -
  have "(some_step (rwlock_act False))\<^sup>*\<^sup>* (sample_run 0) (sample_run t)" for t
  proof (induction t)
    case (Suc t)
    have "some_step (rwlock_act False) (sample_run t) (sample_run (Suc t))" using sample_run_step unfolding some_step_def by blast
    then show ?case using Suc by (rule rtranclp.rtrancl_into_rtrancl [rotated])
  qed simp
  from this [of 5] have r: "(some_step (rwlock_act False))\<^sup>*\<^sup>* (0, replicate 2 Outside) (- 1, [Writing, R_set 0 0])"
    by (simp add: sample_run_def sample_points_def numeral_2_eq_2)
  have "\<not> holds ([Writing, R_set 0 0] ! 1)" using rwlock_excludes [OF r] by fastforce
  then show ?thesis using r by blast
qed

theorem rwlock_drains_witness:
  "draining False 2 sample_run (\<lambda>t. t mod 2) 2 \<and> (\<exists>t\<ge>2. point_of sample_run t 1 \<in> {Writing, Reading})"
proof -
  have late: "point_of sample_run t i = Outside" if "20 \<le> t" "i < 2" for t i
    using that by (auto simp: point_of_def sample_run_def sample_points_def min_def less_2_cases_iff)
  have "\<exists>u\<ge>t. u mod 2 = i" if "i < 2" for i t :: nat
    by (rule exI [of _ "2 * t + i"]) (use that in auto)
  then have fair: "fair_run (rwlock_act False) 2 sample_run (\<lambda>t. t mod 2)"
    using sample_run_step by (auto simp: fair_run_def sample_run_def sample_points_def)
  have "point_of sample_run (Suc t) i = Outside" if "2 \<le> t" "i < 2" "point_of sample_run t i = Outside" for t i
  proof (cases "t < 20")
    case True
    then show ?thesis using that less_20 [OF True]
      by (auto simp: point_of_def sample_run_def sample_points_def less_2_cases_iff)
  qed (simp add: late that(2))
  moreover have "\<exists>u\<ge>t. point_of sample_run u i \<notin> {Writing, Reading}" if "i < 2" for i t
    using late [OF _ that, of "max t 20"] by (intro exI [of _ "max t 20"]) simp
  ultimately have d: "draining False 2 sample_run (\<lambda>t. t mod 2) 2"
    using fair by (auto simp: draining_def sample_run_def sample_points_def numeral_2_eq_2)
  have "waits (point_of sample_run 2 1)" by (simp add: waits_def point_of_def sample_run_def sample_points_def)
  then show ?thesis using rwlock_drains [OF d] d by auto
qed

end
