(* ===== verification/Ngx_Inet.thy ===== *)
theory Ngx_Inet
  imports Ngx_Sprintf
begin

text \<open>
  Internet addresses and their text, \<open>src/core/ngx_inet.c\<close>: the readers \<open>ngx_inet_addr\<close> and \<open>ngx_inet6_addr\<close>, the
  printers \<open>ngx_inet_ntop\<close>, \<open>ngx_inet6_ntop\<close> and \<open>ngx_sock_ntop\<close>.  An \<open>in_addr_t\<close> is the 32-bit word of a
  little-endian machine, so that \<open>htonl\<close> turns its bytes round; an IPv6 address is its 16 bytes.
\<close>

subsection \<open>The readers\<close>

definition INADDR_NONE :: u32 where [ngx_eval]: "INADDR_NONE = 0xffffffff"

definition htonl :: "u32 \<Rightarrow> u32" where
  "htonl a =
     push_bit 24 (take_bit 8 a) OR push_bit 16 (take_bit 8 (drop_bit 8 a)) OR
     push_bit 8 (take_bit 8 (drop_bit 16 a)) OR take_bit 8 (drop_bit 24 a)"

abbreviation ntohl :: "u32 \<Rightarrow> u32" where "ntohl \<equiv> htonl"

text \<open>\<open>octet\<close> stays below 2560 and \<open>n\<close> counts the dots.\<close>

fun inet_addr_loop :: "u32 \<Rightarrow> nat \<Rightarrow> nat \<Rightarrow> bytes \<Rightarrow> (u32 \<times> nat \<times> nat) option" where
  "inet_addr_loop addr octet n [] = Some (addr, octet, n)"
| "inet_addr_loop addr octet n (c # cs) =
     (if c \<ge> c_0 \<and> c \<le> c_9 then
        (let octet = octet * 10 + (unat c - 48) in
         if octet > 255 then None else inet_addr_loop addr octet n cs)
      else if c = c_dot then inet_addr_loop (push_bit 8 addr + of_nat octet) 0 (n + 1) cs
      else None)"

definition ngx_inet_addr :: "bytes \<Rightarrow> u32" where
  "ngx_inet_addr cs =
     (case inet_addr_loop 0 0 0 cs of
        Some (addr, octet, n) \<Rightarrow> if n = 3 then htonl (push_bit 8 addr + of_nat octet) else INADDR_NONE
      | None \<Rightarrow> INADDR_NONE)"

text \<open>
  What \<open>ngx_inet6_addr\<close> keeps: the bytes written to \<open>addr\<close>, the place of the \<open>::\<close>, the text behind the last colon
  (\<open>digit\<close> and \<open>len4\<close>), the digits and the value of the word it reads (below \<open>2 ^ 32\<close>), and the words still to come.
\<close>

record inet6_state =
  v6_addr :: bytes
  v6_zero :: "nat option"
  v6_digit :: "bytes option"
  v6_nibbles :: nat
  v6_word :: nat
  v6_n :: nat

definition put_word :: "nat \<Rightarrow> inet6_state \<Rightarrow> inet6_state" where
  "put_word w s = s\<lparr>v6_addr := v6_addr s @ [of_nat (w div 256), of_nat (w mod 256)], v6_n := v6_n s - 1\<rparr>"

fun inet6_loop :: "inet6_state \<Rightarrow> bytes \<Rightarrow> inet6_state option" where
  "inet6_loop s [] = Some s"
| "inet6_loop s (c # cs) =
     (if c = c_colon then
        (if v6_nibbles s \<noteq> 0 then
           (let s = put_word (v6_word s) (s\<lparr>v6_digit := Some cs\<rparr>) in
            if v6_n s \<noteq> 0 then inet6_loop (s\<lparr>v6_nibbles := 0, v6_word := 0\<rparr>) cs else None)
         else
           (if v6_zero s = None then
              inet6_loop (s\<lparr>v6_digit := Some cs, v6_zero := Some (length (v6_addr s))\<rparr>) cs
            else None))
      else if c = c_dot \<and> v6_nibbles s \<noteq> 0 then
        (case v6_digit s of
           None \<Rightarrow> None
         | Some digit \<Rightarrow>
             if v6_n s < 2 then None
             else if ngx_inet_addr digit = INADDR_NONE then None
             else (let word = unat (ntohl (ngx_inet_addr digit)) in
                   Some ((put_word (word div 65536) s)\<lparr>v6_word := word\<rparr>)))
      else if v6_nibbles s + 1 > 4 then None
      else
        (let s = s\<lparr>v6_nibbles := v6_nibbles s + 1\<rparr> in
         if c \<ge> c_0 \<and> c \<le> c_9 then inet6_loop (s\<lparr>v6_word := v6_word s * 16 + (unat c - 48)\<rparr>) cs
         else (let c = c OR 0x20 in
               if c \<ge> 0x61 \<and> c \<le> 0x66 then inet6_loop (s\<lparr>v6_word := v6_word s * 16 + (unat c - 97) + 10\<rparr>) cs
               else None)))"

text \<open>\<open>while (s >= zero) *d-- = *s--\<close> over the \<open>k\<close> bytes from \<open>zero\<close> on, and \<open>ngx_memzero(zero, n)\<close>.\<close>

fun move_back :: "bytes \<Rightarrow> nat \<Rightarrow> nat \<Rightarrow> nat \<Rightarrow> bytes" where
  "move_back buf zero n 0 = buf"
| "move_back buf zero n (Suc k) = move_back (buf[zero + k + n := buf ! (zero + k)]) zero n k"

definition memzero :: "nat \<Rightarrow> nat \<Rightarrow> bytes \<Rightarrow> bytes" where
  "memzero start n buf = take start buf @ replicate n 0 @ drop (start + n) buf"

text \<open>
  After the loop: \<open>NGX_OK\<close> with the address, or \<open>NGX_ERROR\<close>; the bytes of \<open>addr\<close> not written before are those of
  \<open>memory\<close>.
\<close>

definition inet6_finish :: "bytes \<Rightarrow> inet6_state \<Rightarrow> bytes option" where
  "inet6_finish memory s =
     (if v6_nibbles s = 0 \<and> v6_zero s = None then None
      else
        (let s = put_word (v6_word s) s; n = v6_n s in
         case v6_zero s of
           Some zero \<Rightarrow>
             if n \<noteq> 0 then
               (let buf = v6_addr s @ drop (length (v6_addr s)) memory in
                Some (memzero zero (2 * n) (move_back buf zero (2 * n) (length (v6_addr s) - zero))))
             else None
         | None \<Rightarrow> if n \<noteq> 0 then None else Some (v6_addr s)))"

definition inet6_start :: inet6_state where
  "inet6_start = \<lparr>v6_addr = [], v6_zero = None, v6_digit = None, v6_nibbles = 0, v6_word = 0, v6_n = 8\<rparr>"

definition ngx_inet6_addr :: "bytes \<Rightarrow> bytes \<Rightarrow> bytes option" where
  "ngx_inet6_addr memory text =
     (if text = [] then None
      else Option.bind (inet6_loop inet6_start (if hd text = c_colon then tl text else text)) (inet6_finish memory))"

subsection \<open>The printers\<close>

definition NGX_INET6_ADDRSTRLEN :: nat where
  "NGX_INET6_ADDRSTRLEN = length (asc ''ffff:ffff:ffff:ffff:ffff:ffff:255.255.255.255'')"

definition dotted_args :: "bytes \<Rightarrow> va list" where
  "dotted_args p = [VA_uint (unat (p ! 0)), VA_uint (unat (p ! 1)), VA_uint (unat (p ! 2)), VA_uint (unat (p ! 3))]"

text \<open>The search for the longest run of zero words: \<open>zero\<close>, \<open>last\<close> (\<open>recent\<close>), \<open>max\<close> (\<open>longest\<close>) and \<open>n\<close>.\<close>

fun zero_scan :: "nat \<Rightarrow> bytes \<Rightarrow> nat option \<Rightarrow> nat option \<Rightarrow> nat \<Rightarrow> nat \<Rightarrow> nat option \<times> nat" where
  "zero_scan i (a # b # p) zero recent longest n =
     (if a \<noteq> 0 \<or> b \<noteq> 0 then
        (if longest < n then zero_scan (i + 2) p recent recent n 0 else zero_scan (i + 2) p zero recent longest 0)
      else zero_scan (i + 2) p zero (if n = 0 then Some i else recent) longest (n + 1))"
| "zero_scan i p zero recent longest n = (if longest < n then (recent, n) else (zero, longest))"

text \<open>The words up to the byte \<open>n\<close>.\<close>

function ntop_words :: "bytes \<Rightarrow> nat option \<Rightarrow> nat \<Rightarrow> nat \<Rightarrow> nat \<Rightarrow> bytes \<Rightarrow> fault + bytes" where
  "ntop_words p zero longest n i dst =
     (if i < n then
        (if zero = Some i then ntop_words p zero longest n (i + (longest - 1) * 2 + 2) (dst @ [c_colon])
         else
           sbind (ngx_sprintf ADDRESS_ROOM (asc ''%xd'') [VA_uint (unat (p ! i) * 256 + unat (p ! (i + 1)))]) (\<lambda>s.
           ntop_words p zero longest n (i + 2) (dst @ s @ (if i < 14 then [c_colon] else []))))
      else Inr dst)"
  by pat_completeness auto
termination by (relation "measure (\<lambda>(p, zero, longest, n, i, dst). n - i)") auto

declare ntop_words.simps [simp del]

definition ngx_inet6_ntop :: "bytes \<Rightarrow> nat \<Rightarrow> fault + bytes" where
  "ngx_inet6_ntop p len =
     (if len < NGX_INET6_ADDRSTRLEN then Inr []
      else
        (let (zero, longest) = zero_scan 0 p None None 1 0;
             n = (if zero = Some 0 \<and>
                     (longest = 5 \<and> p ! 10 = 0xff \<and> p ! 11 = 0xff \<or> longest = 6 \<or> longest = 7 \<and> p ! 14 \<noteq> 0 \<and> p ! 15 \<noteq> 1)
                  then 12 else 16)
         in sbind (ntop_words p zero longest n 0 (if zero = Some 0 then [c_colon] else [])) (\<lambda>dst.
            sbind (if n = 12 then ngx_sprintf ADDRESS_ROOM (asc ''%ud.%ud.%ud.%ud'') (dotted_args (drop 12 p)) else Inr []) (\<lambda>s.
            if length (dst @ s) \<le> len then Inr (dst @ s) else Inl Overflow))))"

datatype socket_addr = Sock_inet bytes nat | Sock_inet6 bytes nat | Sock_unix "bytes option" | Sock_other

text \<open>\<open>ngx_inet_ntop\<close> of an address, and \<open>ngx_sock_ntop\<close> of an address and its port (in host order).\<close>

fun ngx_inet_ntop :: "socket_addr \<Rightarrow> nat \<Rightarrow> fault + bytes" where
  "ngx_inet_ntop (Sock_inet p port) len = ngx_snprintf len (asc ''%ud.%ud.%ud.%ud'') (dotted_args p)"
| "ngx_inet_ntop (Sock_inet6 p port) len = ngx_inet6_ntop p len"
| "ngx_inet_ntop _ len = Inr []"

text \<open>The paths of the family \<open>AF_UNIX\<close> end with a NUL that does not count; \<open>None\<close> is a \<open>sockaddr\<close> without a path.\<close>

fun ngx_sock_ntop :: "socket_addr \<Rightarrow> nat \<Rightarrow> bool \<Rightarrow> fault + bytes" where
  "ngx_sock_ntop (Sock_inet p port) len with_port =
     (if with_port then ngx_snprintf len (asc ''%ud.%ud.%ud.%ud:%d'') (dotted_args p @ [VA_int (int port)])
      else ngx_snprintf len (asc ''%ud.%ud.%ud.%ud'') (dotted_args p))"
| "ngx_sock_ntop (Sock_inet6 p port) len with_port =
     (if with_port then
        sbind (ngx_inet6_ntop p len) (\<lambda>s.
        sbind (ngx_sprintf ADDRESS_ROOM (asc '']:%d'') [VA_int (int port)]) (\<lambda>t.
        if 1 + length (s @ t) \<le> len then Inr (asc ''['' @ s @ t) else Inl Overflow))
      else ngx_inet6_ntop p len)"
| "ngx_sock_ntop (Sock_unix path) len with_port =
     (case path of
        None \<Rightarrow> sbind (ngx_snprintf len (asc ''unix:%Z'') []) (\<lambda>s. Inr (butlast s))
      | Some path \<Rightarrow> sbind (ngx_snprintf len (asc ''unix:%s%Z'') [VA_ptr path]) (\<lambda>s. Inr (butlast s)))"
| "ngx_sock_ntop Sock_other len with_port = Inr []"

subsection \<open>Reading IPv4 addresses\<close>

lemma bit_htonl:
  assumes "k < 8"
  shows "bit (htonl a) k = bit a (k + 24)" "bit (htonl a) (k + 8) = bit a (k + 16)"
    "bit (htonl a) (k + 16) = bit a (k + 8)" "bit (htonl a) (k + 24) = bit a k"
  using assms by (simp_all add: htonl_def bit_simps add.commute)

lemma byte_index32:
  fixes n :: nat
  assumes "n < 32"
  obtains k where "k < 8" "n = k \<or> n = k + 8 \<or> n = k + 16 \<or> n = k + 24"
proof -
  consider "n < 8" | "8 \<le> n" "n < 16" | "16 \<le> n" "n < 24" | "24 \<le> n" using assms by linarith
  then show thesis by cases (use assms that [of n] that [of "n - 8"] that [of "n - 16"] that [of "n - 24"] in simp_all)
qed

lemma htonl_htonl [simp]: "htonl (htonl a) = a"
proof (rule bit_word_eqI)
  fix n assume "n < LENGTH(32)"
  then obtain k where "k < 8" "n = k \<or> n = k + 8 \<or> n = k + 16 \<or> n = k + 24" using byte_index32 [of n] by auto
  then show "bit (htonl (htonl a)) n = bit a n" by (auto simp only: bit_htonl)
qed

lemma htonl_none [simp]: "htonl a = INADDR_NONE \<longleftrightarrow> a = 0xffffffff"
proof -
  have "htonl INADDR_NONE = 0xffffffff" by (simp add: htonl_def INADDR_NONE_def)
  then show ?thesis by (metis htonl_htonl)
qed

lemma addr_digits:
  "list_all is_digit ds \<Longrightarrow> radix_val 10 digit_val octet ds \<le> 255 \<Longrightarrow>
     inet_addr_loop addr octet n (ds @ cs) = inet_addr_loop addr (radix_val 10 digit_val octet ds) n cs"
proof (induction ds arbitrary: octet)
  case (Cons c ds)
  have "octet * 10 + digit_val c \<le> 255"
    using radix_val_ge [of 10 "octet * 10 + digit_val c" digit_val ds] Cons.prems(2) by simp
  then show ?case using Cons by (simp add: is_digit_def digit_val_def)
qed simp

abbreviation dec_byte :: "u8 \<Rightarrow> bytes" where
  "dec_byte c \<equiv> num_dec (unat c) []"

lemma addr_dot: "inet_addr_loop addr octet n (c_dot # cs) = inet_addr_loop (push_bit 8 addr + of_nat octet) 0 (n + 1) cs"
  by simp

lemma addr_byte: "inet_addr_loop addr 0 n (dec_byte c @ cs) = inet_addr_loop addr (unat c) n cs"
  using addr_digits [of "dec_byte c" 0 addr n cs] num_dec_digits [of "unat c"] u8_less [of c] by simp

definition dotted :: "bytes \<Rightarrow> bytes" where
  "dotted p = dec_byte (p ! 0) @ [c_dot] @ dec_byte (p ! 1) @ [c_dot] @ dec_byte (p ! 2) @ [c_dot] @ dec_byte (p ! 3)"

definition be32 :: "bytes \<Rightarrow> u32" where
  "be32 p = of_nat (((unat (p ! 0) * 256 + unat (p ! 1)) * 256 + unat (p ! 2)) * 256 + unat (p ! 3))"

lemma inet_addr_dotted: "ngx_inet_addr (dotted p) = htonl (be32 p)"
proof -
  have push: "push_bit 8 (a :: u32) = a * 256" for a by (simp add: push_bit_eq_mult)
  have "inet_addr_loop a (unat c) n [] = Some (a, unat c, n)" for a n and c :: u8 by simp
  then have last: "inet_addr_loop a 0 n (dec_byte c) = Some (a, unat c, n)" for a n c using addr_byte [of a n c "[]"] by simp
  have "inet_addr_loop 0 0 0 (dotted p) =
      Some (push_bit 8 (push_bit 8 (push_bit 8 0 + of_nat (unat (p ! 0))) + of_nat (unat (p ! 1))) + of_nat (unat (p ! 2)), unat (p ! 3), 3)"
    unfolding dotted_def append.simps addr_byte addr_dot last by (simp add: eval_nat_numeral)
  then show ?thesis by (simp add: ngx_inet_addr_def push be32_def)
qed

lemma len32: "LENGTH(32) = 32"
  by simp

lemma unat_be32: "unat (be32 p) = ((unat (p ! 0) * 256 + unat (p ! 1)) * 256 + unat (p ! 2)) * 256 + unat (p ! 3)"
proof -
  have "((unat (p ! 0) * 256 + unat (p ! 1)) * 256 + unat (p ! 2)) * 256 + unat (p ! 3) < 2 ^ 32"
    using u8_less [of "p ! 0"] u8_less [of "p ! 1"] u8_less [of "p ! 2"] u8_less [of "p ! 3"] by simp
  then show ?thesis unfolding be32_def by (subst unat_of_nat) (simp only: mod_less len32)
qed

lemma four_bytes: "length p = 4 \<Longrightarrow> \<exists>a b c d. p = [a, b, c, d]"
  by (auto simp: numeral_eq_Suc length_Suc_conv)

lemma four_digits:
  assumes "a < 256" "b < 256" "c < 256" "d < 256"
  shows "((a * 256 + b) * 256 + c) * 256 + d = (4294967295 :: nat) \<longleftrightarrow> a = 255 \<and> b = 255 \<and> c = 255 \<and> d = 255"
proof
  assume "((a * 256 + b) * 256 + c) * 256 + d = 4294967295"
  then have h: "16777216 * a + 65536 * b + 256 * c + d = 4294967295" by simp
  have "255 \<le> a" using assms h by linarith
  then have a: "a = 255" using assms(1) by linarith
  have "255 \<le> b" using assms h a by linarith
  then have b: "b = 255" using assms(2) by linarith
  have "255 \<le> c" using assms h a b by linarith
  then have c: "c = 255" using assms(3) by linarith
  show "a = 255 \<and> b = 255 \<and> c = 255 \<and> d = 255" using h a b c by simp
qed simp

lemma be32_none: "length p = 4 \<Longrightarrow> be32 p = 0xffffffff \<longleftrightarrow> p = [255, 255, 255, 255]"
proof -
  assume "length p = 4"
  then obtain a b c d where p: "p = [a, b, c, d]" using four_bytes by blast
  have m: "unat x = 255 \<longleftrightarrow> x = 255" for x :: u8
    using word_unat_eq_iff [of x 255] by simp
  have "be32 p = 0xffffffff \<longleftrightarrow> unat (be32 p) = unat (0xffffffff :: u32)" by (simp add: word_unat_eq_iff)
  also have "\<dots> \<longleftrightarrow> unat a = 255 \<and> unat b = 255 \<and> unat c = 255 \<and> unat d = 255"
  proof -
    have "unat (be32 p) = ((unat a * 256 + unat b) * 256 + unat c) * 256 + unat d" by (simp add: unat_be32 p)
    moreover have "unat (0xffffffff :: u32) = 4294967295" by simp
    ultimately show ?thesis using four_digits [OF u8_less [of a] u8_less [of b] u8_less [of c] u8_less [of d]] by metis
  qed
  finally show ?thesis by (simp add: p m)
qed

subsection \<open>Reading IPv6 addresses\<close>

fun words :: "bytes \<Rightarrow> nat list" where
  "words (a # b # p) = (unat a * 256 + unat b) # words p"
| "words p = []"

definition word_bytes :: "nat list \<Rightarrow> bytes" where
  "word_bytes ws = concat (map (\<lambda>w. [of_nat (w div 256), of_nat (w mod 256)]) ws)"

lemma word_bytes_simps [simp]:
  "word_bytes [] = []" "word_bytes (w # ws) = of_nat (w div 256) # of_nat (w mod 256) # word_bytes ws"
  "word_bytes (ws @ vs) = word_bytes ws @ word_bytes vs" "length (word_bytes ws) = 2 * length ws"
  by (simp_all add: word_bytes_def) (induction ws; simp)

lemma words_bytes: "even (length p) \<Longrightarrow> word_bytes (words p) = p"
  by (induction p rule: words.induct) (auto simp: u8_less)

lemma words_small: "w \<in> set (words p) \<Longrightarrow> w < 65536"
proof (induction p rule: words.induct)
  case (1 a b p)
  then show ?case using u8_less [of a] u8_less [of b] by auto
qed simp_all

lemma length_words: "length (words p) = length p div 2"
  by (induction p rule: words.induct) auto

lemma hex_letter_word: "is_hex_letter c \<longleftrightarrow> (c OR 0x20) \<ge> 0x61 \<and> (c OR 0x20) \<le> 0x66"
  by (simp add: is_hex_letter_def)

lemma hex_step:
  assumes "hex_digit c" "v6_nibbles s + 1 \<le> 4"
  shows "inet6_loop s (c # cs) =
    inet6_loop (s\<lparr>v6_nibbles := v6_nibbles s + 1, v6_word := v6_word s * 16 + hex_digit_val c\<rparr>) cs"
proof -
  have "c \<noteq> c_colon \<and> c \<noteq> c_dot" using assms(1) by (auto simp: hex_digit_def is_digit_def is_hex_letter_def)
  then show ?thesis
    using assms by (cases "is_digit c") (auto simp: is_digit_def hex_digit_def hex_digit_val_def is_hex_letter_def Let_def add.assoc)
qed

lemma hex_digits:
  "list_all hex_digit ds \<Longrightarrow> v6_nibbles s + length ds \<le> 4 \<Longrightarrow>
     inet6_loop s (ds @ cs) =
     inet6_loop (s\<lparr>v6_nibbles := v6_nibbles s + length ds, v6_word := radix_val 16 hex_digit_val (v6_word s) ds\<rparr>) cs"
proof (induction ds arbitrary: s)
  case (Cons c ds)
  then show ?case using hex_step [of c s "ds @ cs"] by simp
qed simp

lemma hex_word:
  assumes "w < 65536" "v6_nibbles s = 0" "v6_word s = 0"
  shows "inet6_loop s (hex_text w @ cs) = inet6_loop (s\<lparr>v6_nibbles := length (hex_text w), v6_word := w\<rparr>) cs"
  using hex_digits [of "hex_text w" s cs] hex_text_digits [of w] hex_text_length [of w 3] assms by simp

definition colon_text :: "nat list \<Rightarrow> bytes" where
  "colon_text ws = concat (map (\<lambda>w. hex_text w @ [c_colon]) ws)"

lemma colon_text_simps [simp]:
  "colon_text [] = []" "colon_text (w # ws) = hex_text w @ c_colon # colon_text ws"
  "colon_text (ws @ vs) = colon_text ws @ colon_text vs"
  by (simp_all add: colon_text_def)

lemma colon_words:
  assumes "\<forall>w\<in>set ws. w < 65536" "v6_nibbles s = 0" "v6_word s = 0" "length ws < v6_n s"
  shows "inet6_loop s (colon_text ws @ cs) =
    inet6_loop (s\<lparr>v6_addr := v6_addr s @ word_bytes ws, v6_n := v6_n s - length ws,
      v6_digit := (if ws = [] then v6_digit s else Some cs)\<rparr>) cs"
  using assms
proof (induction ws arbitrary: s)
  case (Cons w ws)
  let ?s = "s\<lparr>v6_addr := v6_addr s @ word_bytes [w], v6_n := v6_n s - 1, v6_digit := Some (colon_text ws @ cs)\<rparr>"
  have "inet6_loop s (colon_text (w # ws) @ cs) =
      inet6_loop (s\<lparr>v6_nibbles := length (hex_text w), v6_word := w\<rparr>) (c_colon # colon_text ws @ cs)"
    using hex_word [of w s "c_colon # colon_text ws @ cs"] Cons.prems by simp
  also have "\<dots> = inet6_loop ?s (colon_text ws @ cs)"
    using Cons.prems by (cases s) (simp add: put_word_def Let_def)
  also have "\<dots> = inet6_loop (?s\<lparr>v6_addr := v6_addr ?s @ word_bytes ws, v6_n := v6_n ?s - length ws,
      v6_digit := (if ws = [] then v6_digit ?s else Some cs)\<rparr>) cs"
    by (rule Cons.IH) (use Cons.prems in auto)
  finally show ?case by (auto simp: add.commute)
qed simp

lemma double_colon:
  "v6_nibbles s = 0 \<Longrightarrow> v6_zero s = None \<Longrightarrow>
     inet6_loop s (c_colon # cs) = inet6_loop (s\<lparr>v6_digit := Some cs, v6_zero := Some (length (v6_addr s))\<rparr>) cs"
  by simp

lemma dotted_tail:
  assumes "v6_nibbles s = 0" "v6_word s = 0" "2 \<le> v6_n s" "v6_digit s = Some (dotted p)" "length p = 4" "p \<noteq> [255, 255, 255, 255]"
  shows "\<exists>k w. inet6_loop s (dotted p) = Some ((put_word (unat (be32 p) div 65536) (s\<lparr>v6_nibbles := Suc k, v6_word := w\<rparr>))
    \<lparr>v6_word := unat (be32 p)\<rparr>)"
proof -
  let ?d = "dec_byte (p ! 0)"
  let ?s = "s\<lparr>v6_nibbles := v6_nibbles s + length ?d, v6_word := radix_val 16 hex_digit_val (v6_word s) ?d\<rparr>"
  obtain rest where rest: "dotted p = ?d @ c_dot # rest" by (simp add: dotted_def)
  have "list_all hex_digit ?d"
    using num_dec_digits [of "unat (p ! 0)"] by (auto simp: list_all_iff hex_digit_def)
  moreover have "length ?d \<le> 4" using num_dec_length [of "unat (p ! 0)" 3] u8_less [of "p ! 0"] by simp
  ultimately have "inet6_loop s (dotted p) = inet6_loop ?s (c_dot # rest)" using hex_digits [of ?d s "c_dot # rest"] assms(1) rest by simp
  moreover have "ngx_inet_addr (dotted p) = htonl (be32 p)" "ngx_inet_addr (dotted p) \<noteq> INADDR_NONE"
    using inet_addr_dotted [of p] be32_none [OF assms(5)] assms(6) by auto
  moreover have "0 < v6_nibbles ?s" by simp
  ultimately have "inet6_loop s (dotted p) = Some ((put_word (unat (be32 p) div 65536) ?s)\<lparr>v6_word := unat (be32 p)\<rparr>)"
    using assms(3,4) by (simp add: Let_def)
  moreover obtain k where "v6_nibbles s + length ?d = Suc k" by (cases "length ?d") auto
  ultimately show ?thesis by (metis (no_types))
qed

text \<open>The end: without a \<open>::\<close> all eight words were read; with one the words behind it move to the end.\<close>

lemma length_move_back [simp]: "length (move_back buf zero n k) = length buf"
  by (induction buf zero n k rule: move_back.induct) simp_all

lemma nth_move_back:
  "zero + k + n \<le> length buf \<Longrightarrow> 0 < n \<Longrightarrow> j < length buf \<Longrightarrow>
     move_back buf zero n k ! j = (if zero + n \<le> j \<and> j < zero + n + k then buf ! (j - n) else buf ! j)"
proof (induction buf zero n k arbitrary: j rule: move_back.induct)
  case (2 buf zero n k)
  let ?buf = "buf[zero + k + n := buf ! (zero + k)]"
  have ih: "move_back ?buf zero n k ! j = (if zero + n \<le> j \<and> j < zero + n + k then ?buf ! (j - n) else ?buf ! j)"
    using 2 by simp
  show ?case
  proof (cases "j = zero + n + k")
    case True
    then show ?thesis using ih 2(2,4) by (simp add: add.commute add.left_commute)
  next
    case False
    then have "?buf ! j = buf ! j" by simp
    moreover have "?buf ! (j - n) = buf ! (j - n)" if "j < zero + n + k" using that 2(3) by simp
    ultimately show ?thesis using ih False by auto
  qed
qed auto

lemma moved_apart:
  assumes "zero + k + n \<le> length buf" "0 < n"
  shows "memzero zero n (move_back buf zero n k) = take zero buf @ replicate n 0 @ take k (drop zero buf) @ drop (zero + n + k) buf"
proof -
  let ?m = "move_back buf zero n k"
  have "drop (zero + n) ?m = take k (drop zero buf) @ drop (zero + n + k) buf"
    by (rule nth_equalityI) (use assms nth_move_back [OF assms] in \<open>auto simp: nth_append min_def add.assoc\<close>)
  moreover have "take zero ?m = take zero buf"
    by (rule nth_equalityI) (use assms nth_move_back [OF assms] in \<open>auto simp: min_def\<close>)
  ultimately show ?thesis by (simp add: memzero_def)
qed

lemma finish_all:
  assumes "v6_nibbles s \<noteq> 0" "v6_zero s = None" "v6_n s = 1"
  shows "inet6_finish memory s = Some (v6_addr s @ word_bytes [v6_word s])"
  using assms by (simp add: inet6_finish_def put_word_def Let_def)

lemma finish_zero:
  assumes "v6_zero s = Some z" "z \<le> length (v6_addr s)" "2 \<le> v6_n s" "length (v6_addr s) + 2 * v6_n s = 16" "length memory = 16"
  shows "inet6_finish memory s =
    Some (take z (v6_addr s) @ replicate (2 * (v6_n s - 1)) 0 @ drop z (v6_addr s) @ word_bytes [v6_word s])"
proof -
  let ?a = "v6_addr s @ word_bytes [v6_word s]"
  let ?n = "2 * (v6_n s - 1)"
  let ?buf = "?a @ drop (length ?a) memory"
  have len: "length ?a + ?n = 16" using assms by simp
  have "memzero z ?n (move_back ?buf z ?n (length ?a - z)) =
      take z ?buf @ replicate ?n 0 @ take (length ?a - z) (drop z ?buf) @ drop (z + ?n + (length ?a - z)) ?buf"
    by (rule moved_apart) (use assms len in auto)
  also have "\<dots> = take z (v6_addr s) @ replicate ?n 0 @ drop z ?a"
    using assms(2,5) len by simp
  finally show ?thesis using assms(1,2,3) by (simp add: inet6_finish_def put_word_def Let_def)
qed

subsection \<open>What the printer writes\<close>

lemma words_append: "even (length p) \<Longrightarrow> words (p @ q) = words p @ words q"
  by (induction p rule: words.induct) auto

lemma words_nth: "2 * k + 1 < length p \<Longrightarrow> words p ! k = unat (p ! (2 * k)) * 256 + unat (p ! (2 * k + 1))"
proof (induction p arbitrary: k rule: words.induct)
  case (1 a b p)
  then show ?case by (cases k) auto
qed auto

lemma sprintf_hex: "w < 65536 \<Longrightarrow> ngx_sprintf ADDRESS_ROOM (asc ''%xd'') [VA_uint w] = Inr (hex_text w)"
  using hex_text_length [of w 3] by (simp add: ngx_sprintf_def ADDRESS_ROOM_def fmt_xd fmt_end)

lemma dec_byte_length: "length (dec_byte c) \<le> 3"
  using num_dec_length [of "unat c" 2] u8_less [of c] by simp

lemma sprintf_dotted: "ngx_sprintf ADDRESS_ROOM (asc ''%ud.%ud.%ud.%ud'') (dotted_args p) = Inr (dotted p)"
  using dec_byte_length [of "p ! 0"] dec_byte_length [of "p ! 1"] dec_byte_length [of "p ! 2"] dec_byte_length [of "p ! 3"]
  by (simp add: ngx_sprintf_def ADDRESS_ROOM_def dotted_args_def dotted_def fmt_ud fmt_char fmt_end)

text \<open>A run of zero words that the search may answer.\<close>

definition good_run :: "nat list \<Rightarrow> nat option \<times> nat \<Rightarrow> bool" where
  "good_run ws r \<longleftrightarrow>
     (case r of
        (None, l) \<Rightarrow> l = 1
      | (Some z, l) \<Rightarrow> \<exists>k. z = 2 * k \<and> 2 \<le> l \<and> k + l \<le> length ws \<and> (\<forall>j. k \<le> j \<and> j < k + l \<longrightarrow> ws ! j = 0))"

lemma good_run_pos: "good_run ws (zero, l) \<Longrightarrow> 1 \<le> l"
  by (auto simp: good_run_def split: option.splits)

lemma good_run_new:
  "2 * n \<le> i \<Longrightarrow> even i \<Longrightarrow> i div 2 \<le> length ws \<Longrightarrow> 2 \<le> n \<Longrightarrow> \<forall>j. i div 2 - n \<le> j \<and> j < i div 2 \<longrightarrow> ws ! j = 0 \<Longrightarrow>
    good_run ws (Some (i - 2 * n), n)"
  by (auto simp: good_run_def intro!: exI [of _ "i div 2 - n"])

lemma zero_scan_run:
  assumes "ws = words (p @ q)" "even (length p)" "i = length p" "even (length q)" "good_run ws (zero, l)"
    and "n \<noteq> 0 \<Longrightarrow> 2 * n \<le> i \<and> recent = Some (i - 2 * n) \<and> (\<forall>j. i div 2 - n \<le> j \<and> j < i div 2 \<longrightarrow> ws ! j = 0)"
  shows "good_run ws (zero_scan i q zero recent l n)"
  using assms
proof (induction i q zero recent l n arbitrary: p rule: zero_scan.induct)
  case (1 i a b q zero recent l n)
  have l1: "1 \<le> l" using "1.prems"(5) by (rule good_run_pos)
  have ws: "ws = words ((p @ [a, b]) @ q)" "even (length (p @ [a, b]))" "i + 2 = length (p @ [a, b])" "even (length q)"
    using "1.prems" by simp_all
  have len: "length ws = i div 2 + 1 + length q div 2" using "1.prems"(1-4) by (simp add: length_words)
  have here: "ws ! (i div 2) = unat a * 256 + unat b"
    using "1.prems"(1-3) by (simp add: words_append nth_append length_words)
  show ?case
  proof (cases "a \<noteq> 0 \<or> b \<noteq> 0")
    case True
    show ?thesis
    proof (cases "l < n")
      case less: True
      have "good_run ws (recent, n)" using "1.prems"(3,6) less l1 len ws(2,3) by (auto intro!: good_run_new)
      then show ?thesis using "1.IH"(1) [OF True less ws(1-4)] True less by simp
    next
      case False
      then show ?thesis using "1.IH"(2) [OF True False ws(1-4) "1.prems"(5)] True by simp
    qed
  next
    case False
    have "2 * (n + 1) \<le> i + 2 \<and> (if n = 0 then Some i else recent) = Some (i + 2 - 2 * (n + 1)) \<and>
        (\<forall>j. (i + 2) div 2 - (n + 1) \<le> j \<and> j < (i + 2) div 2 \<longrightarrow> ws ! j = 0)"
      using "1.prems"(6) here False by (auto simp: less_Suc_eq)
    then show ?thesis using "1.IH"(3) [OF False ws(1-4) "1.prems"(5)] False by simp
  qed
next
  case "2_1"
  then show ?case by (auto simp: length_words dest: good_run_pos intro!: good_run_new)
qed auto

lemma zero_scan_good: "length p = 16 \<Longrightarrow> good_run (words p) (zero_scan 0 p None None 1 0)"
  using zero_scan_run [of "words p" "[]" p 0 None 1 0 None] by (simp add: good_run_def)

text \<open>The words between two places where the run does not begin.\<close>

lemma words_run:
  assumes "length p = 16" "k \<le> m" "m \<le> 7" "2 * m \<le> n" "\<forall>j. k \<le> j \<and> j < m \<longrightarrow> zero \<noteq> Some (2 * j)"
  shows "ntop_words p zero l n (2 * k) dst = ntop_words p zero l n (2 * m) (dst @ colon_text (take (m - k) (drop k (words p))))"
  using assms(2,5)
proof (induction "m - k" arbitrary: k dst)
  case 0
  then show ?case by simp
next
  case (Suc x)
  then have km: "k < m" by simp
  have w: "words p ! k < 65536" using km assms(1,3) words_small [of "words p ! k" p] by (simp add: length_words)
  have "ntop_words p zero l n (2 * k) dst = ntop_words p zero l n (2 * Suc k) (dst @ hex_text (words p ! k) @ [c_colon])"
    using km assms(1,3,4) Suc.prems(2) sprintf_hex [OF w] words_nth [of k p]
    by (subst ntop_words.simps) auto
  also have "\<dots> = ntop_words p zero l n (2 * m) ((dst @ hex_text (words p ! k) @ [c_colon]) @ colon_text (take (m - Suc k) (drop (Suc k) (words p))))"
    by (rule Suc.hyps(1)) (use Suc.hyps(2) Suc.prems km in auto)
  also have "(dst @ hex_text (words p ! k) @ [c_colon]) @ colon_text (take (m - Suc k) (drop (Suc k) (words p))) =
      dst @ colon_text (take (m - k) (drop k (words p)))"
    using km assms(1,3) Cons_nth_drop_Suc [of k "words p"] by (simp add: length_words take_Cons' flip: Cons_nth_drop_Suc)
  finally show ?case .
qed

lemma words_last:
  assumes "length p = 16" "zero \<noteq> Some 14"
  shows "ntop_words p zero l 16 14 dst = Inr (dst @ hex_text (words p ! 7))"
proof -
  have w: "words p ! 7 < 65536" using assms(1) words_small [of "words p ! 7" p] by (simp add: length_words)
  show ?thesis using sprintf_hex [OF w] words_nth [of 7 p] assms
    by (subst ntop_words.simps) (simp add: ntop_words.simps)
qed

lemma words_zero:
  "2 * k < n \<Longrightarrow> 1 \<le> l \<Longrightarrow> ntop_words p (Some (2 * k)) l n (2 * k) dst = ntop_words p (Some (2 * k)) l n (2 * (k + l)) (dst @ [c_colon])"
proof -
  assume "2 * k < n" "1 \<le> l"
  moreover from this have "2 * k + (l - 1) * 2 + 2 = 2 * (k + l)" by simp
  ultimately show ?thesis by (subst ntop_words.simps) (simp only: if_True simp_thms)
qed

lemma words_end: "n \<le> i \<Longrightarrow> ntop_words p zero l n i dst = Inr dst"
  by (subst ntop_words.simps) simp

subsection \<open>The round trip\<close>

lemma hd_hex: "hd (hex_text w @ cs) \<noteq> c_colon" "hex_text w @ cs \<noteq> []"
proof -
  have "hex_digit (hd (hex_text w))" using hex_text_digits [of w] by (cases "hex_text w") auto
  then show "hd (hex_text w @ cs) \<noteq> c_colon" by (auto simp: hex_digit_def is_digit_def is_hex_letter_def)
qed simp

lemma hd_colon_text: "ws \<noteq> [] \<Longrightarrow> hd (colon_text ws @ cs) \<noteq> c_colon \<and> colon_text ws @ cs \<noteq> []"
  using hd_hex [of "hd ws"] by (cases ws) auto

text \<open>The text of eight words, and of words with a \<open>::\<close> in place of \<open>l\<close> zero words.\<close>

lemma read_all:
  assumes "length ws = 8" "\<forall>w\<in>set ws. w < 65536"
  shows "ngx_inet6_addr memory (colon_text (take 7 ws) @ hex_text (ws ! 7)) = Some (word_bytes ws)"
proof -
  let ?t = "colon_text (take 7 ws) @ hex_text (ws ! 7)"
  have ne: "hd ?t \<noteq> c_colon \<and> ?t \<noteq> []" by (rule hd_colon_text) (use assms(1) in auto)
  have small: "\<forall>w\<in>set (take 7 ws). w < 65536" "ws ! 7 < 65536" using assms by (auto dest: in_set_takeD)
  have "inet6_loop inet6_start ?t = inet6_loop
      (inet6_start\<lparr>v6_addr := word_bytes (take 7 ws), v6_n := 1, v6_digit := Some (hex_text (ws ! 7))\<rparr>) (hex_text (ws ! 7))"
    using colon_words [OF small(1), of inet6_start "hex_text (ws ! 7)"] assms(1) by (auto simp: inet6_start_def)
  also have "\<dots> = Some (inet6_start\<lparr>v6_addr := word_bytes (take 7 ws), v6_n := 1, v6_digit := Some (hex_text (ws ! 7)),
      v6_nibbles := length (hex_text (ws ! 7)), v6_word := ws ! 7\<rparr>)"
    using hex_word [OF small(2), of _ "[]"] by (simp add: inet6_start_def)
  finally have "ngx_inet6_addr memory ?t = Some (word_bytes (take 7 ws) @ word_bytes [ws ! 7])"
    using ne by (simp add: ngx_inet6_addr_def finish_all inet6_start_def)
  moreover have "take 7 ws @ [ws ! 7] = ws" using assms(1) by (simp add: take_Suc_conv_app_nth [symmetric])
  ultimately show ?thesis by (metis word_bytes_simps(3))
qed

definition gap_state :: "nat list \<Rightarrow> bytes \<Rightarrow> inet6_state" where
  "gap_state us cs = inet6_start\<lparr>v6_addr := word_bytes us, v6_n := 8 - length us, v6_digit := Some cs, v6_zero := Some (2 * length us)\<rparr>"

lemma read_gap:
  assumes "\<forall>w\<in>set us. w < 65536" "length us < 8"
  shows "ngx_inet6_addr memory ((if us = [] then [c_colon] else []) @ colon_text us @ c_colon # cs) =
    Option.bind (inet6_loop (gap_state us cs) cs) (inet6_finish memory)"
proof -
  have "inet6_loop inet6_start (colon_text us @ c_colon # cs) = inet6_loop (gap_state us cs) cs"
    using colon_words [OF assms(1), of inet6_start "c_colon # cs"] assms(2)
    by (simp add: double_colon inet6_start_def gap_state_def)
  then show ?thesis using hd_colon_text [of us "c_colon # cs"] by (cases "us = []") (simp_all add: ngx_inet6_addr_def del: inet6_loop.simps)
qed

lemma read_behind:
  assumes "length us + l + length vs = 8" "2 \<le> l" "\<forall>w\<in>set vs. w < 65536" "length memory = 16"
    and "cs = (if vs = [] then [] else colon_text (butlast vs) @ hex_text (last vs))"
  shows "Option.bind (inet6_loop (gap_state us cs) cs) (inet6_finish memory) = Some (word_bytes (us @ replicate l 0 @ vs))"
proof -
  have zeros: "word_bytes (replicate m 0) = replicate (2 * m) 0" for m by (induction m) (simp_all add: word_bytes_def)
  have two_more: "replicate m 0 @ [0, 0] = replicate (m + 2) (0 :: u8)" for m by (induction m) simp_all
  show ?thesis
  proof (cases "vs = []")
    case True
    have l: "2 * (7 - length us) + 2 = 2 * l" using assms(1,2) True by simp
    have "inet6_finish memory (gap_state us []) =
        Some (take (2 * length us) (word_bytes us) @ replicate (2 * (8 - length us - 1)) 0 @ drop (2 * length us) (word_bytes us) @ word_bytes [0])"
      using finish_zero [of "gap_state us []" "2 * length us" memory] assms(1,2,4) True by (simp add: gap_state_def inet6_start_def)
    also have "\<dots> = Some (word_bytes us @ replicate (2 * (7 - length us) + 2) 0)"
      using two_more [of "2 * (7 - length us)"] by simp
    finally show ?thesis using True assms(5) zeros by (simp flip: l)
  next
    case False
    then obtain xs x where vs: "vs = xs @ [x]" by (cases vs rule: rev_cases) auto
    let ?s = "(gap_state us cs)\<lparr>v6_addr := word_bytes us @ word_bytes xs, v6_n := 8 - length us - length xs,
      v6_digit := (if xs = [] then Some cs else Some (hex_text x))\<rparr>"
    have "inet6_loop (gap_state us cs) cs = inet6_loop ?s (hex_text x)"
      using colon_words [of xs "gap_state us cs" "hex_text x"] assms(1,3,5) vs by (simp add: gap_state_def inet6_start_def)
    also have "\<dots> = Some (?s\<lparr>v6_nibbles := length (hex_text x), v6_word := x\<rparr>)"
      using hex_word [of x ?s "[]"] assms(3) vs by (simp add: gap_state_def inet6_start_def)
    finally show ?thesis
      using finish_zero [of "?s\<lparr>v6_nibbles := length (hex_text x), v6_word := x\<rparr>" "2 * length us" memory] assms(1,2,4) vs zeros [of l]
      by (simp add: gap_state_def inet6_start_def)
  qed
qed

lemma word_bytes_be32:
  assumes "length p = 4"
  shows "word_bytes [unat (be32 p) div 65536] @ word_bytes [unat (be32 p)] = p"
proof -
  obtain a b c d where p: "p = [a, b, c, d]" using four_bytes assms by blast
  let ?x = "unat a * 256 + unat b" and ?d = "unat d"
  let ?y = "?x * 256 + unat c"
  have u: "unat (be32 p) = ?y * 256 + ?d" by (simp add: unat_be32 p)
  have base: "(m * 256 + k) div 256 = m \<and> (m * 256 + k) mod 256 = k" if "k < 256" for m k :: nat using that by simp
  have "(?y * 256 + ?d) div 65536 = (?y * 256 + ?d) div 256 div 256" by (simp add: div_mult2_eq [symmetric])
  then have "unat (be32 p) div 65536 = ?x" "unat (be32 p) div 256 = ?y" "unat (be32 p) mod 256 = ?d"
    using base [of ?d ?y] base [of "unat c" ?x] u8_less [of c] u8_less [of d] unfolding u by simp_all
  moreover have "?x div 256 = unat a" "?x mod 256 = unat b" using base [of "unat b" "unat a"] u8_less [of b] by simp_all
  moreover have "(256 :: u8) = 0" by simp
  then have "(of_nat ?y :: u8) = c" by (simp only: of_nat_add of_nat_mult of_nat_numeral mult_zero_right add_0) simp
  ultimately show ?thesis by (simp only: word_bytes_simps p append.simps) simp
qed

lemma read_dotted:
  assumes "length vs < 3" "\<forall>w\<in>set vs. w < 65536" "length q = 4" "q \<noteq> [255, 255, 255, 255]" "length memory = 16"
  shows "ngx_inet6_addr memory ([c_colon, c_colon] @ colon_text vs @ dotted q) =
    Some (word_bytes (replicate (6 - length vs) 0 @ vs) @ q)"
proof -
  let ?s = "(gap_state [] (colon_text vs @ dotted q))\<lparr>v6_addr := word_bytes vs, v6_n := 8 - length vs, v6_digit := Some (dotted q)\<rparr>"
  let ?w = "unat (be32 q)"
  have zeros: "word_bytes (replicate m 0) = replicate (2 * m) 0" for m by (induction m) (simp_all add: word_bytes_def)
  have "inet6_loop (gap_state [] (colon_text vs @ dotted q)) (colon_text vs @ dotted q) = inet6_loop ?s (dotted q)"
    using colon_words [of vs "gap_state [] (colon_text vs @ dotted q)" "dotted q"] assms(1,2)
    by (auto simp: gap_state_def inet6_start_def)
  moreover have "2 \<le> 8 - length vs" using assms(1) by simp
  then have "\<exists>k w. inet6_loop ?s (dotted q) =
      Some ((put_word (?w div 65536) (?s\<lparr>v6_nibbles := Suc k, v6_word := w\<rparr>))\<lparr>v6_word := ?w\<rparr>)"
    using dotted_tail [of ?s q] assms(3,4) by (simp add: gap_state_def inet6_start_def)
  then obtain k w where "inet6_loop ?s (dotted q) =
      Some ((put_word (?w div 65536) (?s\<lparr>v6_nibbles := Suc k, v6_word := w\<rparr>))\<lparr>v6_word := ?w\<rparr>)" by blast
  moreover have "inet6_finish memory ((put_word (?w div 65536) (?s\<lparr>v6_nibbles := Suc k, v6_word := w\<rparr>))\<lparr>v6_word := ?w\<rparr>) =
      Some (replicate (2 * (6 - length vs)) 0 @ word_bytes vs @ word_bytes [?w div 65536] @ word_bytes [?w])"
    using finish_zero [of "(put_word (?w div 65536) (?s\<lparr>v6_nibbles := Suc k, v6_word := w\<rparr>))\<lparr>v6_word := ?w\<rparr>" 0 memory] assms(1,5)
    by (simp add: put_word_def gap_state_def inet6_start_def)
  ultimately show ?thesis using read_gap [of "[]" memory "colon_text vs @ dotted q"] word_bytes_be32 [OF assms(3)] zeros by simp
qed

text \<open>The addresses whose text ends with \<open>255.255.255.255\<close>, which \<open>ngx_inet_addr\<close> cannot tell from an error.\<close>

definition all_ones_tail :: "bytes \<Rightarrow> bool" where
  "all_ones_tail p \<longleftrightarrow>
     p = replicate 12 0 @ [255, 255, 255, 255] \<or> p = replicate 10 0 @ [255, 255, 255, 255, 255, 255]"

lemma ntop_text:
  assumes "length p = 16" "zero_scan 0 p None None 1 0 = (zero, l)"
  defines "n \<equiv> (if zero = Some 0 \<and> (l = 5 \<and> p ! 10 = 0xff \<and> p ! 11 = 0xff \<or> l = 6 \<or> l = 7 \<and> p ! 14 \<noteq> 0 \<and> p ! 15 \<noteq> 1) then 12 else 16)"
  shows "ntop_words p zero l n 0 dst = Inr (dst @
    (case zero of
       None \<Rightarrow> colon_text (take 7 (words p)) @ hex_text (words p ! 7)
     | Some z \<Rightarrow> colon_text (take (z div 2) (words p)) @ [c_colon] @
         (let vs = drop (z div 2 + l) (words p) in
          if n = 12 then colon_text (take (length vs - 2) vs) else if vs = [] then [] else colon_text (butlast vs) @ hex_text (last vs))))"
proof -
  have len: "length (words p) = 8" using assms(1) by (simp add: length_words)
  have good: "good_run (words p) (zero, l)" using zero_scan_good [OF assms(1)] assms(2) by simp
  show ?thesis
  proof (cases zero)
    case None
    then have "n = 16" by (simp add: n_def)
    then show ?thesis using None words_run [OF assms(1), of 0 7 16 None l dst] words_last [OF assms(1), of None l] by simp
  next
    case (Some z)
    then obtain k where k: "z = 2 * k" "2 \<le> l" "k + l \<le> 8" using good len by (auto simp: good_run_def)
    have n: "n = 12 \<or> n = 16" "n = 12 \<Longrightarrow> k = 0 \<and> 5 \<le> l \<and> l \<le> 7" using Some k(1) by (auto simp: n_def split: if_splits)
    let ?vs = "drop (k + l) (words p)"
    let ?dst = "dst @ colon_text (take k (words p)) @ [c_colon]"
    have "ntop_words p zero l n 0 dst = ntop_words p zero l n (2 * k) (dst @ colon_text (take k (words p)))"
      using words_run [OF assms(1), of 0 k n zero l dst] Some k n by auto
    also have "\<dots> = ntop_words p zero l n (2 * (k + l)) ?dst"
      using words_zero [of k n l p "dst @ colon_text (take k (words p))"] Some k n by auto
    also have "\<dots> = Inr (?dst @ (if n = 12 then colon_text (take (length ?vs - 2) ?vs)
        else if ?vs = [] then [] else colon_text (butlast ?vs) @ hex_text (last ?vs)))"
    proof (cases "n = 12")
      case True
      show ?thesis
      proof (cases "l = 5")
        case l: True
        then show ?thesis using True n(2) words_run [OF assms(1), of 5 6 12 zero l ?dst] Some k len
          by (simp add: words_end)
      next
        case False
        then have "k = 0" "l = 6 \<or> l = 7" using True n(2) by auto
        then show ?thesis using True len by (auto simp: words_end)
      qed
    next
      case False
      then have n16: "n = 16" using n(1) by simp
      show ?thesis
      proof (cases "k + l = 8")
        case True
        then show ?thesis using n16 len by (simp add: words_end)
      next
        case False
        have b: "butlast ?vs = take (7 - (k + l)) ?vs" "last ?vs = words p ! 7" "?vs \<noteq> []"
          using False k(3) len by (auto simp: butlast_conv_take last_conv_nth)
        have "ntop_words p zero l 16 (2 * (k + l)) ?dst = ntop_words p zero l 16 14 (?dst @ colon_text (butlast ?vs))"
          using words_run [OF assms(1), of "k + l" 7 16 zero l ?dst] Some k False b(1) by simp
        then show ?thesis using words_last [OF assms(1), of zero l] Some k False n16 b(2,3) by simp
      qed
    qed
    finally show ?thesis using Some k(1) by (simp add: Let_def)
  qed
qed

lemma one_element: "length xs = 1 \<Longrightarrow> \<exists>x. xs = [x]"
  by (cases xs) auto

lemma words_with_gap:
  assumes "length p = 16" "k + l \<le> 8" "\<forall>j. k \<le> j \<and> j < k + l \<longrightarrow> words p ! j = 0"
  shows "words p = take k (words p) @ replicate l 0 @ drop (k + l) (words p)"
proof (rule nth_equalityI)
  have len: "length (words p) = 8" using assms(1) by (simp add: length_words)
  then show "length (words p) = length (take k (words p) @ replicate l 0 @ drop (k + l) (words p))" using assms(2) by simp
  show "words p ! j = (take k (words p) @ replicate l 0 @ drop (k + l) (words p)) ! j" if "j < length (words p)" for j
    using that assms(2,3) len by (auto simp: nth_append min_def)
qed

lemma drop_words: "even j \<Longrightarrow> word_bytes (drop (j div 2) (words p)) = word_bytes (words (drop j p))"
proof (induction p arbitrary: j rule: words.induct)
  case (1 a b p)
  show ?case
  proof (cases j)
    case (Suc i)
    then obtain m where "j = Suc (Suc m)" "even m" using "1.prems" by (cases i) auto
    then show ?thesis using "1.IH" [of m] by simp
  qed simp
qed (auto simp: word_bytes_def drop_Cons')

lemma zero_words: "word_bytes (replicate m 0) = replicate (2 * m) 0"
  by (induction m) (simp_all add: word_bytes_def)

lemma colon_text_length: "\<forall>w\<in>set ws. w < 65536 \<Longrightarrow> length (colon_text ws) \<le> 5 * length ws"
  by (induction ws) (use hex_text_length [of _ 3] in fastforce)+

lemma dotted_length: "length (dotted q) \<le> 15"
  using dec_byte_length [of "q ! 0"] dec_byte_length [of "q ! 1"] dec_byte_length [of "q ! 2"] dec_byte_length [of "q ! 3"]
  unfolding dotted_def by simp

text \<open>An address that starts with \<open>l\<close> zero words, of which the text shows those after the sixth by the dotted end.\<close>

lemma dotted_front:
  assumes "length p = 16" "5 \<le> l" "l \<le> 7" "words p = replicate l 0 @ vs"
  defines "xs \<equiv> take (length vs - 2) vs"
  shows "word_bytes (replicate (6 - length xs) 0 @ xs) @ drop 12 p = p"
proof -
  have len: "length (words p) = 8" using assms(1) by (simp add: length_words)
  have six: "take 6 (words p) = replicate (6 - length xs) 0 @ xs"
  proof -
    have "l = 5 \<and> length vs = 3 \<or> l = 6 \<and> length vs = 2 \<or> l = 7 \<and> length vs = 1" using assms(2-4) len by auto
    then show ?thesis using assms(4) by (elim disjE) (simp_all add: xs_def)
  qed
  have p: "word_bytes (words p) = p" using words_bytes assms(1) by simp
  have "word_bytes (take 6 (words p)) @ word_bytes (drop 6 (words p)) = p"
    using p word_bytes_simps(3) [of "take 6 (words p)" "drop 6 (words p)"] by simp
  moreover have "word_bytes (drop 6 (words p)) = drop 12 p"
    using drop_words [of 12 p] words_bytes [of "drop 12 p"] assms(1) by simp
  ultimately show ?thesis unfolding six by simp
qed

lemma dotted_not_all_ones:
  assumes "word_bytes (replicate (6 - length xs) 0 @ xs) @ drop 12 p = p" "length xs = 6 - min l 6" "5 \<le> l"
    "l = 5 \<longrightarrow> p ! 10 = 0xff \<and> p ! 11 = 0xff" "\<not> all_ones_tail p"
  shows "drop 12 p \<noteq> [255, 255, 255, 255]"
proof
  assume q: "drop 12 p = [255, 255, 255, 255]"
  show False
  proof (cases "l = 5")
    case l: True
    then have one: "length xs = 1" using assms(2) by simp
    then obtain w where w: "xs = [w]" using one_element [OF one] by blast
    then have eq: "p = replicate 10 0 @ word_bytes [w] @ drop 12 p" using assms(1) zero_words [of 5] by simp
    have "p ! 10 = of_nat (w div 256)" "p ! 11 = of_nat (w mod 256)" by (subst eq, simp add: nth_append)+
    then have "word_bytes [w] = [255, 255]" using assms(4) l by simp
    then show False using eq q assms(5) by (simp add: all_ones_tail_def)
  next
    case False
    then have "xs = []" using assms(2,3) by simp
    then have "p = replicate 12 0 @ drop 12 p" using assms(1) zero_words [of 6] by simp
    then show False using q assms(5) by (simp add: all_ones_tail_def)
  qed
qed

definition dotted_form :: "bytes \<Rightarrow> nat option \<Rightarrow> nat \<Rightarrow> bool" where
  "dotted_form p zero l \<longleftrightarrow>
     zero = Some 0 \<and> (l = 5 \<and> p ! 10 = 0xff \<and> p ! 11 = 0xff \<or> l = 6 \<or> l = 7 \<and> p ! 14 \<noteq> 0 \<and> p ! 15 \<noteq> 1)"

lemma ntop_plain:
  assumes "NGX_INET6_ADDRSTRLEN \<le> len" "zero_scan 0 p None None 1 0 = (zero, l)" "\<not> dotted_form p zero l"
    "ntop_words p zero l 16 0 (if zero = Some 0 then [c_colon] else []) = Inr t" "length t \<le> len"
  shows "ngx_inet6_ntop p len = Inr t"
proof -
  have "(if zero = Some 0 \<and> (l = 5 \<and> p ! 10 = 0xff \<and> p ! 11 = 0xff \<or> l = 6 \<or> l = 7 \<and> p ! 14 \<noteq> 0 \<and> p ! 15 \<noteq> 1)
      then 12 else 16) = (16 :: nat)" using assms(3) unfolding dotted_form_def by (rule if_not_P)
  then show ?thesis using assms(1,2,4,5) unfolding ngx_inet6_ntop_def by (simp only: Let_def split_conv not_le [symmetric]) simp
qed

lemma plain_text:
  assumes "length p = 16" "zero_scan 0 p None None 1 0 = (Some z, l)" "\<not> dotted_form p (Some z) l"
  shows "ntop_words p (Some z) l 16 0 dst = Inr (dst @ colon_text (take (z div 2) (words p)) @ [c_colon] @
    (let vs = drop (z div 2 + l) (words p) in if vs = [] then [] else colon_text (butlast vs) @ hex_text (last vs)))"
proof -
  have n: "(if Some z = Some 0 \<and> (l = 5 \<and> p ! 10 = 0xff \<and> p ! 11 = 0xff \<or> l = 6 \<or> l = 7 \<and> p ! 14 \<noteq> 0 \<and> p ! 15 \<noteq> 1)
      then 12 else 16) = (16 :: nat)" using assms(3) unfolding dotted_form_def by (rule if_not_P)
  show ?thesis using ntop_text [OF assms(1,2), of dst] unfolding n by (simp only: option.case if_False num.simps) simp
qed

lemma roundtrip_full:
  assumes "length p = 16" "NGX_INET6_ADDRSTRLEN \<le> len" "length memory = 16" "zero_scan 0 p None None 1 0 = (None, l)"
  shows "\<exists>t. ngx_inet6_ntop p len = Inr t \<and> length t \<le> NGX_INET6_ADDRSTRLEN \<and> ngx_inet6_addr memory t = Some p"
proof -
  let ?ws = "words p"
  let ?t = "colon_text (take 7 ?ws) @ hex_text (?ws ! 7)"
  have len: "length ?ws = 8" using assms(1) by (simp add: length_words)
  have small: "\<forall>w\<in>set ?ws. w < 65536" using words_small by blast
  have p: "word_bytes ?ws = p" using words_bytes assms(1) by simp
  have "\<forall>w\<in>set (take 7 ?ws). w < 65536" using small by (meson in_set_takeD)
  then have "length ?t \<le> 39" using colon_text_length [of "take 7 ?ws"] hex_text_length [of "?ws ! 7" 3] small len by simp
  moreover have "ngx_inet6_ntop p len = Inr ?t"
    using ntop_text [OF assms(1,4), of "[]"] assms(2,4) calculation by (simp add: ngx_inet6_ntop_def NGX_INET6_ADDRSTRLEN_def)
  ultimately show ?thesis using read_all [OF len small, of memory] p by (simp add: NGX_INET6_ADDRSTRLEN_def)
qed

lemma run_words:
  assumes "length p = 16" "zero_scan 0 p None None 1 0 = (Some z, l)"
  obtains k where "z = 2 * k" "2 \<le> l" "k + l \<le> 8" "words p = take k (words p) @ replicate l 0 @ drop (k + l) (words p)"
proof -
  have "good_run (words p) (Some z, l)" using zero_scan_good [OF assms(1)] assms(2) by simp
  then obtain k where k: "z = 2 * k" "2 \<le> l" "k + l \<le> 8" "\<forall>j. k \<le> j \<and> j < k + l \<longrightarrow> words p ! j = 0"
    using assms(1) by (auto simp: good_run_def length_words)
  show thesis by (rule that [OF k(1-3) words_with_gap [OF assms(1) k(3,4)]])
qed

lemma roundtrip_dotted:
  assumes "length p = 16" "NGX_INET6_ADDRSTRLEN \<le> len" "length memory = 16" "zero_scan 0 p None None 1 0 = (zero, l)"
    "dotted_form p zero l" "\<not> all_ones_tail p"
  shows "\<exists>t. ngx_inet6_ntop p len = Inr t \<and> length t \<le> NGX_INET6_ADDRSTRLEN \<and> ngx_inet6_addr memory t = Some p"
proof -
  have scan: "zero_scan 0 p None None 1 0 = (Some 0, l)" using assms(4,5) by (simp add: dotted_form_def)
  then have gap: "words p = replicate l 0 @ drop l (words p)" using run_words [OF assms(1) scan] by auto
  have l: "5 \<le> l" "l \<le> 7" "l = 5 \<longrightarrow> p ! 10 = 0xff \<and> p ! 11 = 0xff" using assms(5) by (auto simp: dotted_form_def)
  let ?vs = "drop l (words p)" and ?q = "drop 12 p"
  let ?xs = "take (length ?vs - 2) ?vs"
  let ?t = "[c_colon, c_colon] @ colon_text ?xs @ dotted ?q"
  have xs: "length ?xs = 6 - min l 6" "\<forall>w\<in>set ?xs. w < 65536"
    using words_small [of _ p] assms(1) by (auto simp: length_words dest: in_set_takeD in_set_dropD)
  have tl: "length ?t \<le> 45" using colon_text_length [OF xs(2)] xs(1) l(1) dotted_length [of ?q] by simp
  have front: "word_bytes (replicate (6 - length ?xs) 0 @ ?xs) @ ?q = p" by (rule dotted_front [OF assms(1) l(1,2) gap])
  have "?q \<noteq> [255, 255, 255, 255]" by (rule dotted_not_all_ones [OF front xs(1) l(1,3) assms(6)])
  moreover have "length ?xs < 3" using xs(1) l(1) by simp
  ultimately have "ngx_inet6_addr memory ?t = Some p" using read_dotted [of ?xs ?q memory] xs(2) front assms(1,3) by simp
  moreover have "ngx_inet6_ntop p len = Inr ?t"
    using ntop_text [OF assms(1) scan, of "[c_colon]"] assms(2,5) tl scan assms(4) sprintf_dotted [of ?q]
    by (simp add: ngx_inet6_ntop_def NGX_INET6_ADDRSTRLEN_def dotted_form_def Let_def)
  ultimately show ?thesis using tl by (simp add: NGX_INET6_ADDRSTRLEN_def)
qed

lemma roundtrip_gap:
  assumes "length p = 16" "NGX_INET6_ADDRSTRLEN \<le> len" "length memory = 16" "zero_scan 0 p None None 1 0 = (Some z, l)"
    "\<not> dotted_form p (Some z) l"
  shows "\<exists>t. ngx_inet6_ntop p len = Inr t \<and> length t \<le> NGX_INET6_ADDRSTRLEN \<and> ngx_inet6_addr memory t = Some p"
proof -
  obtain k where k: "z = 2 * k" "2 \<le> l" "k + l \<le> 8" "words p = take k (words p) @ replicate l 0 @ drop (k + l) (words p)"
    by (rule run_words [OF assms(1,4)])
  let ?us = "take k (words p)" and ?vs = "drop (k + l) (words p)"
  let ?post = "if ?vs = [] then [] else colon_text (butlast ?vs) @ hex_text (last ?vs)"
  let ?t = "(if ?us = [] then [c_colon] else []) @ colon_text ?us @ c_colon # ?post"
  have len: "length (words p) = 8" using assms(1) by (simp add: length_words)
  have us: "\<forall>w\<in>set ?us. w < 65536" "length ?us = k" "?us = [] \<longleftrightarrow> k = 0"
    using words_small [of _ p] len k(2,3) by (auto dest: in_set_takeD)
  have vs: "\<forall>w\<in>set ?vs. w < 65536" "length ?vs = 8 - k - l"
    using words_small [of _ p] len by (auto dest: in_set_dropD)
  have "length ?post \<le> 5 * length ?vs"
  proof (cases "?vs = []")
    case False
    moreover have "\<forall>w\<in>set (butlast ?vs). w < 65536" using vs(1) by (auto dest: in_set_butlastD)
    moreover have "last ?vs < 65536" using False vs(1) last_in_set by blast
    ultimately show ?thesis
      using colon_text_length [of "butlast ?vs"] hex_text_length [of "last ?vs" 3] by (cases ?vs rule: rev_cases) auto
  qed simp
  moreover have "length (if ?us = [] then [c_colon] else []) \<le> 1" by simp
  moreover have "length ?t = length (if ?us = [] then [c_colon] else []) + (length (colon_text ?us) + Suc (length ?post))"
    unfolding length_append list.size by simp
  ultimately have tl: "length ?t \<le> 45" using colon_text_length [OF us(1)] us(2) vs(2) k(2,3) by linarith
  have "ngx_inet6_ntop p len = Inr ?t"
  proof (rule ntop_plain [OF assms(2,4,5)])
    have "(if k = 0 then [c_colon] else []) = (if ?us = [] then [c_colon] else [])" using us(3) by simp
    then show "ntop_words p (Some z) l 16 0 (if Some z = Some 0 then [c_colon] else []) = Inr ?t"
      using plain_text [OF assms(1,4,5), of "if ?us = [] then [c_colon] else []"] k(1) by (simp add: Let_def)
    show "length ?t \<le> len" using tl assms(2) by (simp add: NGX_INET6_ADDRSTRLEN_def)
  qed
  moreover have "ngx_inet6_addr memory ?t = Some p"
  proof -
    have "ngx_inet6_addr memory ?t = Option.bind (inet6_loop (gap_state ?us ?post) ?post) (inet6_finish memory)"
      using read_gap [OF us(1), of memory ?post] us(2) k(2,3) by simp
    also have "\<dots> = Some (word_bytes (?us @ replicate l 0 @ ?vs))"
      by (rule read_behind [OF _ k(2) vs(1) assms(3) refl]) (use us(2) vs(2) k(3) in simp)
    finally show ?thesis using k(4) words_bytes assms(1) by simp
  qed
  ultimately show ?thesis using tl by (simp add: NGX_INET6_ADDRSTRLEN_def)
qed

lemma inet6_read_back:
  assumes "length p = 16" "NGX_INET6_ADDRSTRLEN \<le> len" "\<not> all_ones_tail p" "length memory = 16"
  shows "\<exists>t. ngx_inet6_ntop p len = Inr t \<and> length t \<le> NGX_INET6_ADDRSTRLEN \<and> ngx_inet6_addr memory t = Some p"
proof (cases "zero_scan 0 p None None 1 0")
  case (Pair zero l)
  then show ?thesis
    using roundtrip_full [OF assms(1,2,4)] roundtrip_dotted [OF assms(1,2,4)] roundtrip_gap [OF assms(1,2,4)] assms(3)
    by (cases zero) blast+
qed

text \<open>
  C13: What \<open>ngx_inet6_ntop\<close> writes for an address fits into \<open>NGX_INET6_ADDRSTRLEN\<close> bytes, and \<open>ngx_inet6_addr\<close>
  reads the address back from it, wherever the longest run of zero words lies and whether the end is written as an
  IPv4 address; except for the two addresses that end with \<open>255.255.255.255\<close>.
\<close>

theorem inet6_roundtrip:
  assumes "length p = 16" "NGX_INET6_ADDRSTRLEN \<le> len" "\<not> all_ones_tail p" "length memory = 16"
  shows "\<exists>t. ngx_inet6_ntop p len = Inr t \<and> length t \<le> NGX_INET6_ADDRSTRLEN \<and> ngx_inet6_addr memory t = Some p"
  by (rule inet6_read_back [OF assms])

theorem inet6_roundtrip_witness:
  "\<exists>t. ngx_inet6_ntop [0xfe, 0x80, 0, 0, 0, 0, 0, 0, 0, 0, 0xff, 0xff, 127, 0, 0, 1] 80 = Inr t \<and> length t \<le> NGX_INET6_ADDRSTRLEN \<and>
     ngx_inet6_addr (replicate 16 7) t = Some [0xfe, 0x80, 0, 0, 0, 0, 0, 0, 0, 0, 0xff, 0xff, 127, 0, 0, 1]"
  by (rule inet6_roundtrip) (simp_all add: NGX_INET6_ADDRSTRLEN_def all_ones_tail_def)

subsection \<open>Every accepted address is complete\<close>

definition v6_fits :: "inet6_state \<Rightarrow> bool" where
  "v6_fits s \<longleftrightarrow> length (v6_addr s) + 2 * v6_n s = 16 \<and> 0 < v6_n s \<and>
     (case v6_zero s of None \<Rightarrow> True | Some z \<Rightarrow> z \<le> length (v6_addr s))"

lemma fits_put_word: "v6_fits s \<Longrightarrow> 1 < v6_n s \<Longrightarrow> v6_fits (put_word w s)"
  by (auto simp: v6_fits_def put_word_def split: option.splits)

lemma fits_update [simp]:
  "v6_fits (s\<lparr>v6_digit := d\<rparr>) = v6_fits s" "v6_fits (s\<lparr>v6_nibbles := k\<rparr>) = v6_fits s" "v6_fits (s\<lparr>v6_word := w\<rparr>) = v6_fits s"
  by (simp_all add: v6_fits_def split: option.split)

lemma loop_fits: "inet6_loop s cs = Some t \<Longrightarrow> v6_fits s \<Longrightarrow> v6_fits t"
proof (induction s cs rule: inet6_loop.induct)
  case (2 s c cs)
  consider "c = c_colon" | "c = c_dot" "v6_nibbles s \<noteq> 0" | "c \<noteq> c_colon" "\<not> (c = c_dot \<and> v6_nibbles s \<noteq> 0)" by blast
  then show ?case
  proof cases
    case 1
    have put: "v6_fits (put_word (v6_word s) (s\<lparr>v6_digit := Some cs\<rparr>))" if "v6_n (put_word (v6_word s) (s\<lparr>v6_digit := Some cs\<rparr>)) \<noteq> 0"
      using fits_put_word [of "s\<lparr>v6_digit := Some cs\<rparr>" "v6_word s"] that "2.prems"(2) by (simp add: put_word_def)
    have zero: "v6_fits (s\<lparr>v6_digit := Some cs, v6_zero := Some (length (v6_addr s))\<rparr>)"
      using "2.prems"(2) by (simp add: v6_fits_def)
    show ?thesis
      using 1 "2.prems"(1) "2.IH"(1) [OF 1 _ refl] "2.IH"(2) [OF 1] put zero by (auto simp: Let_def split: if_splits)
  next
    case 2
    then show ?thesis using "2.prems" fits_put_word [of s] by (auto simp: Let_def split: option.splits if_splits)
  next
    case 3
    then show ?thesis using "2.prems" "2.IH"(3-4) by (simp add: Let_def split: if_splits)
  qed
qed simp

lemma finish_complete:
  assumes "inet6_finish memory s = Some p" "v6_fits s" "length memory = 16" "length memory' = 16"
  shows "length p = 16 \<and> inet6_finish memory' s = Some p"
proof (cases "v6_zero s")
  case None
  then show ?thesis using assms(1,2) by (auto simp: inet6_finish_def put_word_def v6_fits_def Let_def split: if_splits)
next
  case (Some z)
  then have "2 \<le> v6_n s" using assms(1) by (auto simp: inet6_finish_def put_word_def Let_def split: if_splits)
  moreover have "z \<le> length (v6_addr s)" "length (v6_addr s) + 2 * v6_n s = 16" using assms(2) Some by (simp_all add: v6_fits_def)
  ultimately show ?thesis
    using finish_zero [of s z memory] finish_zero [of s z memory'] Some assms by (auto simp: word_bytes_def)
qed

text \<open>
  C14: Whatever input \<open>ngx_inet6_addr\<close> accepts, it leaves an address of 16 bytes that does not depend on what the
  memory behind \<open>addr\<close> held before: every byte is written, by a word of the text or by \<open>ngx_memzero\<close>.
\<close>

theorem inet6_addr_complete:
  assumes "ngx_inet6_addr memory s = Some p" "length memory = 16" "length memory' = 16"
  shows "length p = 16 \<and> ngx_inet6_addr memory' s = Some p"
proof -
  obtain t where t: "s \<noteq> []" "inet6_loop inet6_start (if hd s = c_colon then tl s else s) = Some t" "inet6_finish memory t = Some p"
    using assms(1) by (auto simp: ngx_inet6_addr_def bind_eq_Some_conv split: if_splits)
  have "v6_fits inet6_start" by (simp add: v6_fits_def inet6_start_def)
  then have "v6_fits t" by (rule loop_fits [OF t(2)])
  then show ?thesis using finish_complete [OF t(3) _ assms(2,3)] t(1,2) by (simp add: ngx_inet6_addr_def)
qed

theorem inet6_addr_complete_witness:
  "length (replicate 15 0 @ [1 :: u8]) = 16 \<and> ngx_inet6_addr (replicate 16 7) (asc ''::1'') = Some (replicate 15 0 @ [1])"
  by (rule inet6_addr_complete [of "replicate 16 0"]) (code_simp, simp, simp)

text \<open>Why the all-ones addresses are left out: what is printed for them is refused, as \<open>ngx_inet_addr\<close> answers
  \<open>INADDR_NONE\<close> for the dotted end, whose value it is.\<close>

lemma all_ones_none: "ngx_inet_addr (asc ''255.255.255.255'') = INADDR_NONE"
proof -
  have "asc ''255.255.255.255'' = dotted [255, 255, 255, 255]" by code_simp
  then show ?thesis using be32_none [of "[255, 255, 255, 255]"] by (simp only: inet_addr_dotted htonl_none) simp
qed

lemma all_ones_refused:
  "ngx_inet6_addr (replicate 16 0) (asc ''::255.255.255.255'') = None"
  "ngx_inet6_addr (replicate 16 0) (asc ''::ffff:255.255.255.255'') = None"
  using all_ones_none by (simp_all add: ngx_inet6_addr_def inet6_start_def put_word_def)

text \<open>The first colon is skipped whatever follows it, so a text with one colon before its eight words is accepted,
  and a colon behind the last word ends an address with a zero word.\<close>

lemma stray_colons_accepted:
  "ngx_inet6_addr (replicate 16 0) (asc '':1:2:3:4:5:6:7:8'') = ngx_inet6_addr (replicate 16 0) (asc ''1:2:3:4:5:6:7:8'')"
  "ngx_inet6_addr (replicate 16 0) (asc ''::1:'') = ngx_inet6_addr (replicate 16 0) (asc ''::1:0'')"
  "ngx_inet6_addr (replicate 16 0) (asc '':1:2:3:4:5:6:7:8'') \<noteq> None"
  "ngx_inet6_addr (replicate 16 0) (asc ''::1:'') \<noteq> None"
  by code_simp+

subsection \<open>IPv4 addresses are read back\<close>

lemma inet4_roundtrip:
  assumes "length p = 4" "15 \<le> len"
  shows "\<exists>t. ngx_inet_ntop (Sock_inet p port) len = Inr t \<and> length t \<le> 15 \<and> ngx_inet_addr t = htonl (be32 p)"
proof -
  have "ngx_snprintf len (asc ''%ud.%ud.%ud.%ud'') (dotted_args p) = Inr (dotted p)"
    using assms(2) dec_byte_length [of "p ! 0"] dec_byte_length [of "p ! 1"] dec_byte_length [of "p ! 2"] dec_byte_length [of "p ! 3"]
    by (simp add: ngx_snprintf_def dotted_args_def dotted_def fmt_ud fmt_char fmt_end)
  then show ?thesis using dotted_length [of p] inet_addr_dotted [of p] by simp
qed

end
