(* ===== verification/Ngx_Cidr.thy ===== *)
theory Ngx_Cidr
  imports Ngx_Inet Ngx_String
begin

text \<open>
  Networks, \<open>ngx_ptocidr\<close> of \<open>src/core/ngx_inet.c\<close>: an address with an optional prefix length becomes the address and
  the mask that the modules compare with.  \<open>None\<close> is an overflow of signed arithmetic inside \<open>ngx_atoi\<close>.
\<close>

datatype ngx_cidr = Cidr_in u32 u32 | Cidr_in6 bytes bytes

text \<open>The loop over the bytes of an IPv6 address: the code, the address without its host bits, and the mask.\<close>

fun cidr6_loop :: "bytes \<Rightarrow> int \<Rightarrow> int \<Rightarrow> int \<times> bytes \<times> bytes" where
  "cidr6_loop [] shift rc = (rc, [], [])"
| "cidr6_loop (a # addr) shift rc =
     (let s = (if shift > 8 then 8 else shift);
          mask = push_bit (nat (8 - s)) 0xff;
          rc = (if a \<noteq> a AND mask then NGX_DONE else rc);
          (rc, as, ms) = cidr6_loop addr (shift - s) rc
      in (rc, (a AND mask) # as, mask # ms))"

text \<open>\<open>memory\<close> is what \<open>cidr->u\<close> held; \<open>INADDR_NONE\<close> is written over its first four bytes before IPv6 is tried.\<close>

definition ngx_ptocidr :: "bytes \<Rightarrow> bytes \<Rightarrow> (int \<times> ngx_cidr option) option" where
  "ngx_ptocidr memory txt =
     (let slash = ngx_strlchr txt c_slash;
          addr = (case slash of None \<Rightarrow> txt | Some k \<Rightarrow> take k txt);
          u_in = ngx_inet_addr addr
      in if u_in \<noteq> INADDR_NONE then
           (case slash of
              None \<Rightarrow> Some (NGX_OK, Some (Cidr_in u_in 0xffffffff))
            | Some k \<Rightarrow> do {
                shift \<leftarrow> ngx_atoi (drop (k + 1) txt);
                if shift = NGX_ERROR \<or> shift > 32 then Some (NGX_ERROR, None)
                else
                  (let mask = (if shift \<noteq> 0 then htonl (push_bit (nat (32 - shift)) 0xffffffff) else 0) in
                   Some (if u_in = u_in AND mask then NGX_OK else NGX_DONE, Some (Cidr_in (u_in AND mask) mask)))
              })
         else
           (case ngx_inet6_addr (replicate 4 0xff @ drop 4 memory) addr of
              None \<Rightarrow> Some (NGX_ERROR, None)
            | Some u_in6 \<Rightarrow>
                (case slash of
                   None \<Rightarrow> Some (NGX_OK, Some (Cidr_in6 u_in6 (replicate 16 0xff)))
                 | Some k \<Rightarrow> do {
                     shift \<leftarrow> ngx_atoi (drop (k + 1) txt);
                     if shift = NGX_ERROR \<or> shift > 128 then Some (NGX_ERROR, None)
                     else (let (rc, a, m) = cidr6_loop u_in6 shift NGX_OK in Some (rc, Some (Cidr_in6 a m)))
                   })))"

subsection \<open>The bits of an address\<close>

text \<open>The bits of an address in the order of the network, and the addresses that agree on the first \<open>n\<close>.\<close>

definition addr_bit :: "bytes \<Rightarrow> nat \<Rightarrow> bool" where
  "addr_bit p i = bit (p ! (i div 8)) (7 - i mod 8)"

definition same_prefix :: "nat \<Rightarrow> bytes \<Rightarrow> bytes \<Rightarrow> bool" where
  "same_prefix n p q \<longleftrightarrow> (\<forall>i<n. addr_bit p i = addr_bit q i)"

lemma addr_bit_Cons: "addr_bit (a # p) i = (if i < 8 then bit a (7 - i) else addr_bit p (i - 8))"
  by (auto simp: addr_bit_def nth_Cons' le_div_geq le_mod_geq)

lemma htonl_and: "htonl a AND htonl b = htonl (a AND b)"
proof (rule bit_word_eqI)
  fix n assume "n < LENGTH(32)"
  then obtain k where "k < 8" "n = k \<or> n = k + 8 \<or> n = k + 16 \<or> n = k + 24" using byte_index32 [of n] by auto
  then show "bit (htonl a AND htonl b) n = bit (htonl (a AND b)) n" by (auto simp: bit_and_iff bit_htonl)
qed

lemma htonl_eq [simp]: "htonl a = htonl b \<longleftrightarrow> a = b"
  by (metis htonl_htonl)

lemma addr_bit_at: "r < 8 \<Longrightarrow> addr_bit p (8 * j + r) = bit (p ! j) (7 - r)"
  by (simp add: addr_bit_def)

lemma bit_digits256:
  assumes "y < 256"
  shows "bit (x * 256 + y :: nat) k \<longleftrightarrow> (if k < 8 then bit y k else bit x (k - 8))"
proof (cases "k < 8")
  case True
  have "(2 :: nat) ^ (8 - k) * 2 ^ k = 2 ^ 8" using True by (simp only: power_add [symmetric]) simp
  then have eq: "(2 :: nat) ^ (8 - k) * 2 ^ k = 256" by simp
  have "x * 256 + y = y + x * 2 ^ (8 - k) * 2 ^ k" by (simp only: mult.assoc eq add.commute)
  then have "(x * 256 + y) div 2 ^ k = x * 2 ^ (8 - k) + y div 2 ^ k" by (simp only: div_mult_self1 power_not_zero) simp
  moreover have "even ((2 :: nat) ^ (8 - k))" using True by simp
  ultimately show ?thesis using True by (simp add: bit_iff_odd)
next
  case False
  have "(2 :: nat) ^ k = 256 * 2 ^ (k - 8)" using False power_add [of "2 :: nat" 8 "k - 8"] by simp
  moreover have "(x * 256 + y) div 256 = x" using assms by simp
  ultimately show ?thesis using False by (simp add: bit_iff_odd div_mult2_eq)
qed

lemma bit_be32: "k < 32 \<Longrightarrow> bit (be32 p) k = addr_bit p (31 - k)"
proof -
  assume k: "k < 32"
  let ?N = "((unat (p ! 0) * 256 + unat (p ! 1)) * 256 + unat (p ! 2)) * 256 + unat (p ! 3)"
  have "bit (be32 p) k \<longleftrightarrow> bit ?N k" by (simp only: unat_be32 [symmetric] bit_unsigned_iff) simp
  also have "\<dots> \<longleftrightarrow> (if k < 8 then bit (p ! 3) k else if k < 16 then bit (p ! 2) (k - 8)
      else if k < 24 then bit (p ! 1) (k - 16) else bit (p ! 0) (k - 24))"
    using u8_less [of "p ! 0"] u8_less [of "p ! 1"] u8_less [of "p ! 2"] u8_less [of "p ! 3"]
    by (simp only: bit_digits256) (simp add: bit_unsigned_iff)
  also have "\<dots> \<longleftrightarrow> addr_bit p (31 - k)"
  proof -
    have at: "addr_bit p (31 - k) = bit (p ! j) (k + 8 * j - 24)" if "8 * j \<le> 31 - k" "31 - k < 8 * Suc j" for j
    proof -
      have eq: "8 * j + (31 - k - 8 * j) = 31 - k" and r: "31 - k - 8 * j < 8" "7 - (31 - k - 8 * j) = k + 8 * j - 24"
        using that k by simp_all
      show ?thesis using addr_bit_at [OF r(1), of p j] unfolding eq r(2) .
    qed
    consider "k < 8" | "8 \<le> k" "k < 16" | "16 \<le> k" "k < 24" | "24 \<le> k" "k < 32" using k by linarith
    then show ?thesis
    proof cases
      case 1
      then show ?thesis using at [of 3] by simp
    next
      case 2
      then show ?thesis using at [of 2] by simp
    next
      case 3
      then show ?thesis using at [of 1] by simp
    next
      case 4
      then show ?thesis using at [of 0] by simp
    qed
  qed
  finally show ?thesis .
qed

text \<open>The masks keep the first \<open>n\<close> bits.\<close>

lemma mask32:
  assumes "n \<le> 32" "n \<noteq> 0"
  shows "htonl (be32 q) AND htonl (push_bit (32 - n) 0xffffffff) = htonl (be32 p) AND htonl (push_bit (32 - n) 0xffffffff) \<longleftrightarrow>
    same_prefix n p q"
proof -
  let ?m = "push_bit (32 - n) 0xffffffff :: u32"
  have ones: "(0xffffffff :: u32) = mask 32" by (simp add: mask_eq_exp_minus_1)
  have m: "bit ?m k \<longleftrightarrow> 32 - n \<le> k" if "k < 32" for k
    unfolding ones using that by (auto simp: bit_push_bit_iff bit_mask_iff)
  have "htonl (be32 q) AND htonl ?m = htonl (be32 p) AND htonl ?m \<longleftrightarrow> be32 q AND ?m = be32 p AND ?m"
    by (simp only: htonl_and htonl_eq)
  also have "\<dots> \<longleftrightarrow> (\<forall>k<32. 32 - n \<le> k \<longrightarrow> addr_bit q (31 - k) = addr_bit p (31 - k))"
    using m by (auto simp: bit_eq_iff bit_and_iff bit_be32 possible_bit_def)
  also have "\<dots> \<longleftrightarrow> same_prefix n p q"
  proof
    assume h: "\<forall>k<32. 32 - n \<le> k \<longrightarrow> addr_bit q (31 - k) = addr_bit p (31 - k)"
    show "same_prefix n p q" unfolding same_prefix_def
    proof (intro allI impI)
      fix i assume "i < n"
      then have "31 - i < 32" "32 - n \<le> 31 - i" "31 - (31 - i) = i" using assms(1) by linarith+
      then show "addr_bit p i = addr_bit q i" using h by metis
    qed
  next
    assume "same_prefix n p q"
    then show "\<forall>k<32. 32 - n \<le> k \<longrightarrow> addr_bit q (31 - k) = addr_bit p (31 - k)"
      by (auto simp: same_prefix_def)
  qed
  finally show ?thesis .
qed

lemma same_prefix_Cons:
  "same_prefix n (a # p) (b # q) \<longleftrightarrow>
     (\<forall>i<min 8 n. bit a (7 - i) = bit b (7 - i)) \<and> same_prefix (n - 8) p q"
proof
  assume h: "same_prefix n (a # p) (b # q)"
  have "addr_bit p i = addr_bit q i" if "i < n - 8" for i
  proof -
    have "8 + i < n" using that by simp
    then have "addr_bit (a # p) (8 + i) = addr_bit (b # q) (8 + i)" using h unfolding same_prefix_def by blast
    then show ?thesis by (simp add: addr_bit_Cons)
  qed
  moreover have "bit a (7 - i) = bit b (7 - i)" if "i < min 8 n" for i
    using h that unfolding same_prefix_def addr_bit_Cons by (metis min_less_iff_conj)
  ultimately show "(\<forall>i<min 8 n. bit a (7 - i) = bit b (7 - i)) \<and> same_prefix (n - 8) p q"
    by (simp add: same_prefix_def)
next
  assume "(\<forall>i<min 8 n. bit a (7 - i) = bit b (7 - i)) \<and> same_prefix (n - 8) p q"
  then show "same_prefix n (a # p) (b # q)" by (auto simp: same_prefix_def addr_bit_Cons)
qed

lemma byte_mask:
  assumes "s \<le> 8"
  shows "k < 8 \<Longrightarrow> bit (push_bit (8 - s) 0xff :: u8) k \<longleftrightarrow> 8 - s \<le> k"
    and "a AND push_bit (8 - s) 0xff = b AND push_bit (8 - s) 0xff \<longleftrightarrow> (\<forall>i < s. bit (a :: u8) (7 - i) = bit b (7 - i))"
    and "a = a AND push_bit (8 - s) 0xff \<longleftrightarrow> (\<forall>i. s \<le> i \<and> i < 8 \<longrightarrow> \<not> bit a (7 - i))"
proof -
  have ones: "(0xff :: u8) = mask 8" by (simp add: mask_eq_exp_minus_1)
  show m: "bit (push_bit (8 - s) 0xff :: u8) k \<longleftrightarrow> 8 - s \<le> k" if "k < 8" for k
    unfolding ones using that by (auto simp: bit_push_bit_iff bit_mask_iff)
  have turn: "(\<forall>k<8. P k) \<longleftrightarrow> (\<forall>i<8. P (7 - i))" for P :: "nat \<Rightarrow> bool"
  proof
    assume h: "\<forall>i<8. P (7 - i)"
    show "\<forall>k<8. P k"
    proof (intro allI impI)
      fix k :: nat assume "k < 8"
      then have "7 - k < 8" "7 - (7 - k) = k" by simp_all
      then show "P k" using h by metis
    qed
  qed simp
  have le: "8 - s \<le> 7 - i \<longleftrightarrow> i < s" if "i < 8" for i using assms that by arith
  have eq: "a = b \<longleftrightarrow> (\<forall>k<8. bit a k = bit b k)" for a b :: u8 by (auto intro: u8_bits_eqI)
  have "a AND push_bit (8 - s) 0xff = b AND push_bit (8 - s) 0xff \<longleftrightarrow> (\<forall>i<8. i < s \<longrightarrow> bit a (7 - i) = bit b (7 - i))"
    using m le by (subst eq, subst turn) (auto simp: bit_and_iff)
  also have "\<dots> \<longleftrightarrow> (\<forall>i < s. bit a (7 - i) = bit b (7 - i))" using assms by (meson less_le_trans)
  finally show "a AND push_bit (8 - s) 0xff = b AND push_bit (8 - s) 0xff \<longleftrightarrow> (\<forall>i < s. bit a (7 - i) = bit b (7 - i))" .
  have "a = a AND push_bit (8 - s) 0xff \<longleftrightarrow> (\<forall>i<8. bit a (7 - i) \<longrightarrow> i < s)"
    using m le by (subst eq, subst turn) (auto simp: bit_and_iff)
  then show "a = a AND push_bit (8 - s) 0xff \<longleftrightarrow> (\<forall>i. s \<le> i \<and> i < 8 \<longrightarrow> \<not> bit a (7 - i))" by (meson not_le)
qed

definition no_host_bits :: "nat \<Rightarrow> bytes \<Rightarrow> bool" where
  "no_host_bits n p \<longleftrightarrow> (\<forall>i<8 * length p. n \<le> i \<longrightarrow> \<not> addr_bit p i)"

lemma no_host_bits_Cons:
  "no_host_bits n (a # p) \<longleftrightarrow> (\<forall>i. min 8 n \<le> i \<and> i < 8 \<longrightarrow> \<not> bit a (7 - i)) \<and> no_host_bits (n - 8) p"
proof
  assume h: "no_host_bits n (a # p)"
  have "\<not> addr_bit p i" if "i < 8 * length p" "n - 8 \<le> i" for i
  proof -
    have "8 + i < 8 * length (a # p)" "n \<le> 8 + i" using that by simp_all
    then have "\<not> addr_bit (a # p) (8 + i)" using h unfolding no_host_bits_def by blast
    then show ?thesis by (simp add: addr_bit_Cons)
  qed
  moreover have "\<not> bit a (7 - i)" if "min 8 n \<le> i" "i < 8" for i
  proof -
    have "i < 8 * length (a # p)" "n \<le> i" using that by auto
    then have "\<not> addr_bit (a # p) i" using h unfolding no_host_bits_def by blast
    then show ?thesis using that(2) by (simp add: addr_bit_Cons)
  qed
  ultimately show "(\<forall>i. min 8 n \<le> i \<and> i < 8 \<longrightarrow> \<not> bit a (7 - i)) \<and> no_host_bits (n - 8) p"
    by (simp add: no_host_bits_def)
next
  assume "(\<forall>i. min 8 n \<le> i \<and> i < 8 \<longrightarrow> \<not> bit a (7 - i)) \<and> no_host_bits (n - 8) p"
  then show "no_host_bits n (a # p)" by (auto simp: no_host_bits_def addr_bit_Cons)
qed

lemma cidr6_loop_net:
  "n \<le> 8 * length p \<Longrightarrow> cidr6_loop p (int n) rc = (rc', as, ms) \<Longrightarrow>
     length as = length p \<and> length ms = length p \<and> rc' = (if no_host_bits n p then rc else NGX_DONE) \<and>
     (\<forall>q. length q = length p \<longrightarrow> (map2 (AND) q ms = as \<longleftrightarrow> same_prefix n p q))"
proof (induction p arbitrary: n rc rc' as ms)
  case Nil
  then show ?case by (simp add: no_host_bits_def same_prefix_def)
next
  case (Cons a p)
  define s where "s = min 8 n"
  have s: "s \<le> 8" "(if int n > 8 then 8 else int n) = int s" "nat (8 - int s) = 8 - s" "int n - int s = int (n - 8)"
    by (auto simp: s_def)
  let ?m = "push_bit (8 - s) 0xff :: u8"
  obtain rc1 as1 ms1 where rec: "cidr6_loop p (int (n - 8)) (if a \<noteq> a AND ?m then NGX_DONE else rc) = (rc1, as1, ms1)"
    by (cases "cidr6_loop p (int (n - 8)) (if a \<noteq> a AND ?m then NGX_DONE else rc)")
  have out: "rc' = rc1" "as = (a AND ?m) # as1" "ms = ?m # ms1"
    using Cons.prems(2) rec unfolding cidr6_loop.simps Let_def s(2,3,4) by simp_all
  have "n - 8 \<le> 8 * length p" using Cons.prems(1) by simp
  then have ih: "length as1 = length p" "length ms1 = length p"
      "rc1 = (if no_host_bits (n - 8) p then (if a \<noteq> a AND ?m then NGX_DONE else rc) else NGX_DONE)"
      "\<And>q. length q = length p \<Longrightarrow> map2 (AND) q ms1 = as1 \<longleftrightarrow> same_prefix (n - 8) p q"
    using Cons.IH [OF _ rec] by blast+
  have "map2 (AND) q ms = as \<longleftrightarrow> same_prefix n (a # p) q" if len: "length q = length (a # p)" for q
  proof -
    obtain b r where q: "q = b # r" "length r = length p" using len by (auto simp: length_Suc_conv)
    have "map2 (AND) q ms = as \<longleftrightarrow> b AND ?m = a AND ?m \<and> map2 (AND) r ms1 = as1" by (simp add: q out)
    also have "b AND ?m = a AND ?m \<longleftrightarrow> (\<forall>i < s. bit a (7 - i) = bit b (7 - i))"
      using byte_mask(2) [OF s(1), of b a] by auto
    also have "(\<forall>i < s. bit a (7 - i) = bit b (7 - i)) \<and> map2 (AND) r ms1 = as1 \<longleftrightarrow> same_prefix n (a # p) q"
      unfolding ih(4) [OF q(2)] q(1) same_prefix_Cons s_def ..
    finally show ?thesis .
  qed
  moreover have "rc' = (if no_host_bits n (a # p) then rc else NGX_DONE)"
    unfolding out ih(3) no_host_bits_Cons using byte_mask(3) [OF s(1), of a] unfolding s_def by simp
  ultimately show ?case using ih(1,2) out by simp
qed

subsection \<open>Texts of addresses\<close>

lemma inet_addr_text: "inet_addr_loop addr octet n cs = Some r \<Longrightarrow> c \<in> set cs \<Longrightarrow> c = c_dot \<or> c_0 \<le> c \<and> c \<le> c_9"
  by (induction addr octet n cs rule: inet_addr_loop.induct) (auto simp: Let_def split: if_splits)

lemma inet_addr_chars: "ngx_inet_addr cs \<noteq> INADDR_NONE \<Longrightarrow> c \<in> set cs \<Longrightarrow> c = c_dot \<or> c_0 \<le> c \<and> c \<le> c_9"
  using inet_addr_text by (fastforce simp: ngx_inet_addr_def split: option.splits)

lemma inet6_step_other:
  assumes "c \<noteq> c_colon" "\<not> (c = c_dot \<and> v6_nibbles s \<noteq> 0)" "inet6_loop s (c # cs) = Some t"
  shows "c \<noteq> c_slash" "\<exists>w. inet6_loop (s\<lparr>v6_nibbles := v6_nibbles s + 1, v6_word := w\<rparr>) cs = Some t"
  using assms by (auto simp: Let_def split: if_splits)

lemma inet6_loop_no_slash:
  "inet6_loop s cs = Some t \<Longrightarrow> (\<And>d. v6_digit s = Some d \<Longrightarrow> set cs \<subseteq> set d) \<Longrightarrow> c_slash \<notin> set cs"
proof (induction s cs rule: inet6_loop.induct)
  case (2 s c cs)
  consider "c = c_colon" | "c = c_dot" "v6_nibbles s \<noteq> 0" | "c \<noteq> c_colon" "\<not> (c = c_dot \<and> v6_nibbles s \<noteq> 0)" by blast
  then show ?case
  proof cases
    case 1
    then have "c_slash \<notin> set cs" using "2.prems"(1) "2.IH"(1) [OF 1 _ refl] "2.IH"(2) [OF 1]
      by (simp add: put_word_def Let_def split: if_splits)
    then show ?thesis using 1 by simp
  next
    case 2
    then obtain d where d: "v6_digit s = Some d" "ngx_inet_addr d \<noteq> INADDR_NONE"
      using "2.prems"(1) by (auto simp: Let_def split: option.splits if_splits)
    have "c_slash \<notin> set d" using inet_addr_chars [OF d(2), of c_slash] by auto
    then show ?thesis using "2.prems"(2) [OF d(1)] by auto
  next
    case 3
    have "c \<noteq> c_slash" by (rule inet6_step_other(1) [OF 3 "2.prems"(1)])
    moreover have "c_slash \<notin> set cs"
      using 3 "2.prems" "2.IH"(3-4) by (simp add: Let_def subset_iff split: if_splits)
    ultimately show ?thesis by auto
  qed
qed simp

lemma inet6_addr_no_slash:
  assumes "ngx_inet6_addr memory t = Some p"
  shows "c_slash \<notin> set t"
proof -
  let ?t = "if hd t = c_colon then tl t else t"
  obtain s where s: "t \<noteq> []" "inet6_loop inet6_start ?t = Some s"
    using assms by (auto simp: ngx_inet6_addr_def bind_eq_Some_conv split: if_splits)
  have "c_slash \<notin> set ?t" by (rule inet6_loop_no_slash [OF s(2)]) (simp add: inet6_start_def)
  moreover have "set t \<subseteq> insert c_colon (set ?t)" using s(1) by (cases t) auto
  ultimately show ?thesis by auto
qed

lemma inet6_loop_colon:
  "inet6_loop s cs = Some t \<Longrightarrow> c_colon \<notin> set cs \<Longrightarrow> v6_digit s = None \<Longrightarrow> v6_zero s = None \<Longrightarrow> v6_n s = 8 \<Longrightarrow>
    v6_zero t = None \<and> v6_n t = 8"
proof (induction cs arbitrary: s)
  case (Cons c cs)
  have colon: "c \<noteq> c_colon" using Cons.prems(2) by auto
  moreover have "\<not> (c = c_dot \<and> v6_nibbles s \<noteq> 0)"
  proof
    assume "c = c_dot \<and> v6_nibbles s \<noteq> 0"
    then show False using Cons.prems(1,3) colon by simp
  qed
  ultimately obtain w where "inet6_loop (s\<lparr>v6_nibbles := v6_nibbles s + 1, v6_word := w\<rparr>) cs = Some t"
    using inet6_step_other [OF _ _ Cons.prems(1)] by blast
  then show ?case using Cons.IH [of "s\<lparr>v6_nibbles := v6_nibbles s + 1, v6_word := w\<rparr>"] Cons.prems(2-5) by simp
qed simp

lemma inet6_addr_colon:
  assumes "ngx_inet6_addr memory t = Some p"
  shows "c_colon \<in> set t"
proof (rule ccontr)
  assume no: "c_colon \<notin> set t"
  then have "hd t \<noteq> c_colon" using assms by (cases t) (auto simp: ngx_inet6_addr_def)
  then obtain s where s: "inet6_loop inet6_start t = Some s" "inet6_finish memory s = Some p"
    using assms by (auto simp: ngx_inet6_addr_def bind_eq_Some_conv split: if_splits)
  then have "v6_zero s = None" "v6_n s = 8" using inet6_loop_colon [OF s(1) no] by (simp_all add: inet6_start_def)
  then show False using s(2) by (auto simp: inet6_finish_def put_word_def Let_def split: if_splits)
qed

lemma inet6_not_inet: "ngx_inet6_addr memory t = Some p \<Longrightarrow> ngx_inet_addr t = INADDR_NONE"
  using inet6_addr_colon inet_addr_chars [of t c_colon] by fastforce

lemma strlchr_split: "c \<notin> set t \<Longrightarrow> ngx_strlchr (t @ c # s) c = Some (length t)"
  by (induction t) auto

lemma atoi_dec: "n \<le> 128 \<Longrightarrow> ngx_atoi (num_dec n []) = Some (int n)"
  using num_dec_digits [of n] by (simp add: atoi.rd_spec read_spec_def NGX_MAX_INT_T_VALUE_def)

subsection \<open>What a network matches\<close>

text \<open>A network as it is written, the addresses in it, and those the modules match with an address and a mask.\<close>

datatype network = Net4 bytes nat | Net6 bytes nat

fun net_text :: "network \<Rightarrow> bytes" where
  "net_text (Net4 p n) = dotted p @ c_slash # num_dec n []"
| "net_text (Net6 p n) =
     (case ngx_inet6_ntop p NGX_INET6_ADDRSTRLEN of Inr t \<Rightarrow> t | Inl e \<Rightarrow> []) @ c_slash # num_dec n []"

fun net_ok :: "network \<Rightarrow> bool" where
  "net_ok (Net4 p n) \<longleftrightarrow> length p = 4 \<and> n \<le> 32 \<and> p \<noteq> [255, 255, 255, 255]"
| "net_ok (Net6 p n) \<longleftrightarrow> length p = 16 \<and> n \<le> 128 \<and> \<not> all_ones_tail p"

fun in_net :: "network \<Rightarrow> bytes \<Rightarrow> bool" where
  "in_net (Net4 p n) q \<longleftrightarrow> length q = 4 \<and> same_prefix n p q"
| "in_net (Net6 p n) q \<longleftrightarrow> length q = 16 \<and> same_prefix n p q"

fun net_exact :: "network \<Rightarrow> bool" where
  "net_exact (Net4 p n) \<longleftrightarrow> no_host_bits n p"
| "net_exact (Net6 p n) \<longleftrightarrow> no_host_bits n p"

fun cidr_matches :: "ngx_cidr \<Rightarrow> bytes \<Rightarrow> bool" where
  "cidr_matches (Cidr_in a m) q \<longleftrightarrow> length q = 4 \<and> htonl (be32 q) AND m = a"
| "cidr_matches (Cidr_in6 a m) q \<longleftrightarrow> length q = 16 \<and> map2 (AND) q m = a"

lemma dotted_no_slash: "c_slash \<notin> set (dotted p)"
proof -
  have "c_slash \<notin> set (num_dec n [])" for n using num_dec_digits [of n] by (auto simp: list_all_iff is_digit_def)
  then show ?thesis by (simp add: dotted_def)
qed

lemma mask32_exact:
  assumes "n \<le> 32" "n \<noteq> 0" "length p = 4"
  shows "htonl (be32 p) = htonl (be32 p) AND htonl (push_bit (32 - n) 0xffffffff) \<longleftrightarrow> no_host_bits n p"
proof -
  let ?m = "push_bit (32 - n) 0xffffffff :: u32"
  have ones: "(0xffffffff :: u32) = mask 32" by (simp add: mask_eq_exp_minus_1)
  have m: "bit ?m k \<longleftrightarrow> 32 - n \<le> k" if "k < 32" for k
    unfolding ones using that by (auto simp: bit_push_bit_iff bit_mask_iff)
  have "htonl (be32 p) = htonl (be32 p) AND htonl ?m \<longleftrightarrow> be32 p = be32 p AND ?m" by (simp only: htonl_and htonl_eq)
  also have "\<dots> \<longleftrightarrow> (\<forall>k<32. addr_bit p (31 - k) \<longrightarrow> 32 - n \<le> k)"
    using m by (auto simp: bit_eq_iff bit_and_iff bit_be32 possible_bit_def)
  also have "\<dots> \<longleftrightarrow> no_host_bits n p"
  proof
    assume h: "\<forall>k<32. addr_bit p (31 - k) \<longrightarrow> 32 - n \<le> k"
    show "no_host_bits n p" unfolding no_host_bits_def
    proof (intro allI impI)
      fix i assume "i < 8 * length p" "n \<le> i"
      then have "31 - i < 32" "\<not> 32 - n \<le> 31 - i" "31 - (31 - i) = i" using assms by linarith+
      then show "\<not> addr_bit p i" using h by metis
    qed
  next
    assume h: "no_host_bits n p"
    show "\<forall>k<32. addr_bit p (31 - k) \<longrightarrow> 32 - n \<le> k"
    proof (intro allI impI)
      fix k :: nat assume k: "k < 32" "addr_bit p (31 - k)"
      then have "31 - k < 8 * length p" using assms(3) by simp
      then have "\<not> n \<le> 31 - k" using h k(2) unfolding no_host_bits_def by blast
      then show "32 - n \<le> k" using k(1) by linarith
    qed
  qed
  finally show ?thesis .
qed

lemma ptocidr_text4:
  assumes "length p = 4" "n \<le> 32" "p \<noteq> [255, 255, 255, 255]"
  defines "m \<equiv> if n = 0 then 0 else htonl (push_bit (32 - n) 0xffffffff)"
  shows "ngx_ptocidr memory (dotted p @ c_slash # num_dec n []) =
    Some (if htonl (be32 p) = htonl (be32 p) AND m then NGX_OK else NGX_DONE, Some (Cidr_in (htonl (be32 p) AND m) m))"
proof -
  have slash: "ngx_strlchr (dotted p @ c_slash # num_dec n []) c_slash = Some (length (dotted p))"
    by (rule strlchr_split [OF dotted_no_slash])
  have b: "be32 p \<noteq> 0xffffffff" using be32_none [OF assms(1)] assms(3) by simp
  have shift: "int n \<noteq> NGX_ERROR" "nat (32 - int n) = 32 - n" using assms(2) by (auto simp: NGX_ERROR_def)
  show ?thesis
    using assms(2) unfolding ngx_ptocidr_def slash m_def by (simp add: inet_addr_dotted b shift atoi_dec Let_def)
qed

lemma ptocidr_text6:
  assumes "n \<le> 128" "ngx_inet6_addr (replicate 4 0xff @ drop 4 memory) t = Some p"
  shows "ngx_ptocidr memory (t @ c_slash # num_dec n []) =
    (let (rc, a, m) = cidr6_loop p (int n) NGX_OK in Some (rc, Some (Cidr_in6 a m)))"
proof -
  have slash: "ngx_strlchr (t @ c_slash # num_dec n []) c_slash = Some (length t)"
    by (rule strlchr_split [OF inet6_addr_no_slash [OF assms(2)]])
  have shift: "int n \<noteq> NGX_ERROR" by (simp add: NGX_ERROR_def)
  show ?thesis
    using assms(1) shift unfolding ngx_ptocidr_def slash
    by (simp add: inet6_not_inet [OF assms(2)] assms(2) atoi_dec Let_def)
qed

lemma matches_net4:
  assumes "length p = 4" "n \<le> 32"
  defines "m \<equiv> if n = 0 then 0 else htonl (push_bit (32 - n) 0xffffffff)"
  shows "cidr_matches (Cidr_in (htonl (be32 p) AND m) m) q \<longleftrightarrow> in_net (Net4 p n) q"
    and "htonl (be32 p) = htonl (be32 p) AND m \<longleftrightarrow> no_host_bits n p"
proof -
  show "cidr_matches (Cidr_in (htonl (be32 p) AND m) m) q \<longleftrightarrow> in_net (Net4 p n) q"
    using mask32 [OF assms(2), of q p] unfolding m_def by (cases "n = 0") (simp_all add: same_prefix_def)
  show "htonl (be32 p) = htonl (be32 p) AND m \<longleftrightarrow> no_host_bits n p"
  proof (cases "n = 0")
    case True
    have "htonl (be32 p) = 0 \<longleftrightarrow> be32 p = 0" using htonl_eq [of "be32 p" 0] by (simp add: htonl_def)
    also have "\<dots> \<longleftrightarrow> (\<forall>k<32. \<not> addr_bit p (31 - k))" by (auto simp: bit_eq_iff bit_be32 possible_bit_def)
    also have "\<dots> \<longleftrightarrow> (\<forall>i<32. \<not> addr_bit p i)"
    proof
      assume h: "\<forall>k<32. \<not> addr_bit p (31 - k)"
      have "\<not> addr_bit p i" if "i < 32" for i
      proof -
        have "31 - i < 32" "31 - (31 - i) = i" using that by simp_all
        then show ?thesis using h by metis
      qed
      then show "\<forall>i<32. \<not> addr_bit p i" by blast
    qed simp
    finally show ?thesis using True assms(1) by (simp add: m_def no_host_bits_def)
  next
    case False
    then show ?thesis using mask32_exact [OF assms(2) _ assms(1)] by (simp add: m_def)
  qed
qed

lemma ptocidr_net:
  assumes "net_ok w" "length memory = 16"
  shows "\<exists>c. ngx_ptocidr memory (net_text w) = Some (if net_exact w then NGX_OK else NGX_DONE, Some c) \<and>
    (case w of Net4 _ _ \<Rightarrow> (\<exists>a m. c = Cidr_in a m) | Net6 _ _ \<Rightarrow> (\<exists>a m. c = Cidr_in6 a m \<and> length a = 16 \<and> length m = 16)) \<and>
    (\<forall>q. cidr_matches c q = in_net w q)"
proof (cases w)
  case (Net4 p n)
  then have ok: "length p = 4" "n \<le> 32" "p \<noteq> [255, 255, 255, 255]" using assms(1) by simp_all
  show ?thesis using Net4 ptocidr_text4 [OF ok, of memory] matches_net4 [OF ok(1,2)] by simp
next
  case (Net6 p n)
  then have ok: "length p = 16" "n \<le> 128" "\<not> all_ones_tail p" using assms(1) by simp_all
  obtain t where t: "ngx_inet6_ntop p NGX_INET6_ADDRSTRLEN = Inr t"
      "ngx_inet6_addr (replicate 4 0xff @ drop 4 memory) t = Some p"
    using inet6_read_back [OF ok(1) order_refl ok(3), of "replicate 4 0xff @ drop 4 memory"] assms(2) by auto
  obtain rc a m where loop: "cidr6_loop p (int n) NGX_OK = (rc, a, m)" by (cases "cidr6_loop p (int n) NGX_OK")
  have "n \<le> 8 * length p" using ok(1,2) by simp
  from cidr6_loop_net [OF this loop]
  have "length a = 16" "length m = 16" "rc = (if no_host_bits n p then NGX_OK else NGX_DONE)" "\<And>q. cidr_matches (Cidr_in6 a m) q = in_net w q"
    using Net6 ok(1) by auto
  then show ?thesis using Net6 t(1) ptocidr_text6 [OF ok(2) t(2)] loop by simp
qed

text \<open>
  C12: For every network, written as an address (as the server itself prints it) and a prefix length, \<open>ngx_ptocidr\<close>
  answers \<open>NGX_OK\<close>, or \<open>NGX_DONE\<close> when the address has bits behind the prefix, with an address and a mask that match
  exactly the addresses whose leading bits are those of the network.
\<close>

theorem ptocidr_network:
  assumes "net_ok w" "length memory = 16"
  shows "\<exists>c. ngx_ptocidr memory (net_text w) = Some (if net_exact w then NGX_OK else NGX_DONE, Some c) \<and>
    (\<forall>q. cidr_matches c q = in_net w q)"
  using ptocidr_net [OF assms] by blast

theorem ptocidr_network_witness:
  "\<exists>c. ngx_ptocidr (replicate 16 0) (net_text (Net4 [10, 1, 0, 7] 8)) =
       Some (if net_exact (Net4 [10, 1, 0, 7] 8) then NGX_OK else NGX_DONE, Some c) \<and>
    (\<forall>q. cidr_matches c q = in_net (Net4 [10, 1, 0, 7] 8) q)"
  by (rule ptocidr_network) simp_all

text \<open>The one IPv4 address that is no network: its value is \<open>INADDR_NONE\<close>, and it is no IPv6 address either.\<close>

lemma all_ones_no_network: "ngx_ptocidr (replicate 16 0) (asc ''255.255.255.255/32'') = Some (NGX_ERROR, None)"
  using all_ones_none by (simp add: ngx_ptocidr_def ngx_inet6_addr_def inet6_start_def Let_def)

end
