(* ===== verification/Ngx_Access.thy ===== *)
theory Ngx_Access
  imports Ngx_Cidr
begin

text \<open>
  The access module, \<open>src/http/modules/ngx_http_access_module.c\<close>: the directives \<open>allow\<close> and \<open>deny\<close> with \<open>all\<close>,
  \<open>unix:\<close> or a network build a list of rules for each address family, and the handler looks the client up in them.
  The lists are \<open>None\<close> where the code has \<open>NULL\<close>.
\<close>

record access_rule =
  ac_mask :: u32
  ac_addr :: u32
  ac_deny :: bool

record access_rule6 =
  ac6_addr :: bytes
  ac6_mask :: bytes
  ac6_deny :: bool

record access_conf =
  ac_rules :: "access_rule list option"
  ac_rules6 :: "access_rule6 list option"
  ac_rules_un :: "bool list option"

datatype conf_error = NGX_CONF_ERROR

definition ngx_http_access_create_loc_conf :: access_conf where
  "ngx_http_access_create_loc_conf = \<lparr>ac_rules = None, ac_rules6 = None, ac_rules_un = None\<rparr>"

definition ngx_http_access_merge_loc_conf :: "access_conf \<Rightarrow> access_conf \<Rightarrow> access_conf" where
  "ngx_http_access_merge_loc_conf prev conf =
     (if ac_rules conf = None \<and> ac_rules6 conf = None \<and> ac_rules_un conf = None
      then conf\<lparr>ac_rules := ac_rules prev, ac_rules6 := ac_rules6 prev, ac_rules_un := ac_rules_un prev\<rparr>
      else conf)"

subsection \<open>The directives\<close>

text \<open>\<open>ngx_array_push\<close>, after \<open>ngx_array_create\<close> where there is no array yet.\<close>

definition array_push :: "'a \<Rightarrow> 'a list option \<Rightarrow> 'a list option" where
  "array_push x a = Some (case a of None \<Rightarrow> [x] | Some xs \<Rightarrow> xs @ [x])"

definition push_rule :: "ngx_cidr \<Rightarrow> bool \<Rightarrow> access_conf \<Rightarrow> access_conf" where
  "push_rule cidr deny conf =
     (case cidr of
        Cidr_in a m \<Rightarrow> conf\<lparr>ac_rules := array_push \<lparr>ac_mask = m, ac_addr = a, ac_deny = deny\<rparr> (ac_rules conf)\<rparr>
      | Cidr_in6 a m \<Rightarrow> conf\<lparr>ac_rules6 := array_push \<lparr>ac6_addr = a, ac6_mask = m, ac6_deny = deny\<rparr> (ac_rules6 conf)\<rparr>)"

text \<open>
  The words of the directive are its name and its argument; \<open>cidr\<close> is zeroed, so that the rules of \<open>all\<close> have empty
  masks.
\<close>

definition ngx_http_access_rule :: "bytes \<Rightarrow> bytes \<Rightarrow> access_conf \<Rightarrow> (conf_error + access_conf) option" where
  "ngx_http_access_rule name arg conf =
     (let deny = (name ! 0 = 0x64);
          push_un = (\<lambda>conf. conf\<lparr>ac_rules_un := array_push deny (ac_rules_un conf)\<rparr>)
      in if arg = asc ''all'' then
           Some (Inr (push_un (push_rule (Cidr_in6 (replicate 16 0) (replicate 16 0)) deny (push_rule (Cidr_in 0 0) deny conf))))
         else if arg = asc ''unix:'' then Some (Inr (push_un conf))
         else do {
           (rc, cidr) \<leftarrow> ngx_ptocidr (replicate 16 0) arg;
           Some (case cidr of
                   None \<Rightarrow> Inl NGX_CONF_ERROR
                 | Some cidr \<Rightarrow> if rc = NGX_ERROR then Inl NGX_CONF_ERROR else Inr (push_rule cidr deny conf))
         })"

subsection \<open>The handler\<close>

definition NGX_HTTP_FORBIDDEN :: int where "NGX_HTTP_FORBIDDEN = 403"

definition ngx_http_access_found :: "bool \<Rightarrow> int" where
  "ngx_http_access_found deny = (if deny then NGX_HTTP_FORBIDDEN else NGX_OK)"

fun ngx_http_access_inet :: "access_rule list \<Rightarrow> u32 \<Rightarrow> int" where
  "ngx_http_access_inet [] addr = NGX_DECLINED"
| "ngx_http_access_inet (r # rules) addr =
     (if addr AND ac_mask r = ac_addr r then ngx_http_access_found (ac_deny r) else ngx_http_access_inet rules addr)"

fun ngx_http_access_inet6 :: "access_rule6 list \<Rightarrow> bytes \<Rightarrow> int" where
  "ngx_http_access_inet6 [] p = NGX_DECLINED"
| "ngx_http_access_inet6 (r # rules) p =
     (if list_all (\<lambda>n. p ! n AND ac6_mask r ! n = ac6_addr r ! n) [0..<16] then ngx_http_access_found (ac6_deny r)
      else ngx_http_access_inet6 rules p)"

fun ngx_http_access_unix :: "bool list \<Rightarrow> int" where
  "ngx_http_access_unix [] = NGX_DECLINED"
| "ngx_http_access_unix (deny # rules) = ngx_http_access_found deny"

definition IN6_IS_ADDR_V4MAPPED :: "bytes \<Rightarrow> bool" where
  "IN6_IS_ADDR_V4MAPPED p \<longleftrightarrow> take 12 p = replicate 10 0 @ [0xff, 0xff]"

fun ngx_http_access_handler :: "access_conf \<Rightarrow> socket_addr \<Rightarrow> int" where
  "ngx_http_access_handler conf (Sock_inet p port) =
     (case ac_rules conf of None \<Rightarrow> NGX_DECLINED | Some rules \<Rightarrow> ngx_http_access_inet rules (htonl (be32 p)))"
| "ngx_http_access_handler conf (Sock_inet6 p port) =
     (if ac_rules conf \<noteq> None \<and> IN6_IS_ADDR_V4MAPPED p then
        (let addr = push_bit 24 (ucast (p ! 12)) + push_bit 16 (ucast (p ! 13)) + push_bit 8 (ucast (p ! 14)) + ucast (p ! 15)
         in ngx_http_access_inet (the (ac_rules conf)) (htonl addr))
      else (case ac_rules6 conf of None \<Rightarrow> NGX_DECLINED | Some rules \<Rightarrow> ngx_http_access_inet6 rules p))"
| "ngx_http_access_handler conf (Sock_unix path) =
     (case ac_rules_un conf of None \<Rightarrow> NGX_DECLINED | Some rules \<Rightarrow> ngx_http_access_unix rules)"
| "ngx_http_access_handler conf Sock_other = NGX_DECLINED"

subsection \<open>The documented behaviour: the first directive that covers the client\<close>

datatype access_target = All_clients | Unix_clients | Clients_in network

type_synonym access_directive = "bool \<times> access_target"

fun target_text :: "access_target \<Rightarrow> bytes" where
  "target_text All_clients = asc ''all''"
| "target_text Unix_clients = asc ''unix:''"
| "target_text (Clients_in w) = net_text w"

fun target_ok :: "access_target \<Rightarrow> bool" where
  "target_ok (Clients_in w) = net_ok w"
| "target_ok _ = True"

fun covers :: "access_target \<Rightarrow> socket_addr \<Rightarrow> bool" where
  "covers All_clients c \<longleftrightarrow> c \<noteq> Sock_other"
| "covers Unix_clients c \<longleftrightarrow> (case c of Sock_unix path \<Rightarrow> True | _ \<Rightarrow> False)"
| "covers (Clients_in w) c \<longleftrightarrow>
     (case c of Sock_inet p port \<Rightarrow> in_net w p | Sock_inet6 p port \<Rightarrow> in_net w p | _ \<Rightarrow> False)"

fun decide :: "access_directive list \<Rightarrow> socket_addr \<Rightarrow> int" where
  "decide [] c = NGX_DECLINED"
| "decide ((deny, t) # ds) c = (if covers t c then (if deny then NGX_HTTP_FORBIDDEN else NGX_OK) else decide ds c)"

text \<open>A client behind an IPv4-mapped address is judged by its IPv4 address as soon as a directive names IPv4 clients.\<close>

definition names_ipv4 :: "access_directive list \<Rightarrow> bool" where
  "names_ipv4 ds \<longleftrightarrow> list_ex (\<lambda>(deny, t). t = All_clients \<or> (case t of Clients_in (Net4 p n) \<Rightarrow> True | _ \<Rightarrow> False)) ds"

definition client_view :: "access_directive list \<Rightarrow> socket_addr \<Rightarrow> socket_addr" where
  "client_view ds c =
     (case c of
        Sock_inet6 p port \<Rightarrow> if names_ipv4 ds \<and> IN6_IS_ADDR_V4MAPPED p then Sock_inet (drop 12 p) port else c
      | _ \<Rightarrow> c)"

fun client_ok :: "socket_addr \<Rightarrow> bool" where
  "client_ok (Sock_inet p port) \<longleftrightarrow> length p = 4"
| "client_ok (Sock_inet6 p port) \<longleftrightarrow> length p = 16"
| "client_ok _ \<longleftrightarrow> True"

text \<open>The directives of a block, in order, from the configuration the block starts with.\<close>

fun access_directives :: "access_directive list \<Rightarrow> access_conf \<Rightarrow> (conf_error + access_conf) option" where
  "access_directives [] conf = Some (Inr conf)"
| "access_directives ((deny, t) # ds) conf =
     (case ngx_http_access_rule (if deny then asc ''deny'' else asc ''allow'') (target_text t) conf of
        Some (Inr conf) \<Rightarrow> access_directives ds conf
      | r \<Rightarrow> r)"

subsection \<open>The rules answer as the directives\<close>

lemma found_not_declined [simp]: "ngx_http_access_found deny \<noteq> NGX_DECLINED"
  by (simp add: ngx_http_access_found_def NGX_HTTP_FORBIDDEN_def ngx_codes)

lemma found_simps [simp]: "ngx_http_access_found True = NGX_HTTP_FORBIDDEN" "ngx_http_access_found False = NGX_OK"
  by (simp_all add: ngx_http_access_found_def)

lemma array_push_not_empty [simp]: "array_push x a \<noteq> Some []" "array_push x a \<noteq> None"
  by (simp_all add: array_push_def split: option.splits)

lemma access_append:
  "ngx_http_access_inet (rs @ [r]) a =
     (if ngx_http_access_inet rs a = NGX_DECLINED then ngx_http_access_inet [r] a else ngx_http_access_inet rs a)"
  "ngx_http_access_inet6 (rs6 @ [r6]) p =
     (if ngx_http_access_inet6 rs6 p = NGX_DECLINED then ngx_http_access_inet6 [r6] p else ngx_http_access_inet6 rs6 p)"
  "ngx_http_access_unix (us @ [u]) = (if us = [] then ngx_http_access_found u else ngx_http_access_unix us)"
  by (induction rs) (simp_all, induction rs6, simp_all, cases us, simp_all)

lemma decide_append: "decide (ds @ [d]) c = (if decide ds c = NGX_DECLINED then decide [d] c else decide ds c)"
  by (induction ds) (auto simp: NGX_HTTP_FORBIDDEN_def ngx_codes)

text \<open>The answers of the three lists, and that they are those of the directives.\<close>

definition answer4 :: "access_conf \<Rightarrow> bytes \<Rightarrow> int" where
  "answer4 conf p = (case ac_rules conf of None \<Rightarrow> NGX_DECLINED | Some rs \<Rightarrow> ngx_http_access_inet rs (htonl (be32 p)))"

definition answer6 :: "access_conf \<Rightarrow> bytes \<Rightarrow> int" where
  "answer6 conf p = (case ac_rules6 conf of None \<Rightarrow> NGX_DECLINED | Some rs \<Rightarrow> ngx_http_access_inet6 rs p)"

definition answer_un :: "access_conf \<Rightarrow> int" where
  "answer_un conf = (case ac_rules_un conf of None \<Rightarrow> NGX_DECLINED | Some rs \<Rightarrow> ngx_http_access_unix rs)"

definition answers :: "access_conf \<Rightarrow> access_directive list \<Rightarrow> bool" where
  "answers conf ds \<longleftrightarrow>
     (ac_rules conf \<noteq> None \<longleftrightarrow> names_ipv4 ds) \<and> ac_rules_un conf \<noteq> Some [] \<and>
     (ac_rules conf = None \<and> ac_rules6 conf = None \<and> ac_rules_un conf = None \<longleftrightarrow> ds = []) \<and>
     (\<forall>p port. length p = 4 \<longrightarrow> answer4 conf p = decide ds (Sock_inet p port)) \<and>
     (\<forall>p port. length p = 16 \<longrightarrow> answer6 conf p = decide ds (Sock_inet6 p port)) \<and>
     (\<forall>path. answer_un conf = decide ds (Sock_unix path))"

lemma match6:
  assumes "length a = 16" "length m = 16" "length p = 16"
  shows "list_all (\<lambda>n. p ! n AND m ! n = a ! n) [0..<16] \<longleftrightarrow> map2 (AND) p m = a"
  using assms by (auto simp: list_all_iff list_eq_iff_nth_eq)

lemma push4:
  "answer4 (push_rule (Cidr_in a m) deny conf) p =
     (if answer4 conf p = NGX_DECLINED then if htonl (be32 p) AND m = a then ngx_http_access_found deny else NGX_DECLINED
      else answer4 conf p)"
  "answer6 (push_rule (Cidr_in a m) deny conf) p = answer6 conf p"
  "answer_un (push_rule c deny conf) = answer_un conf"
  "ac_rules_un (push_rule c deny conf) = ac_rules_un conf"
  "ac_rules (push_rule (Cidr_in a m) deny conf) \<noteq> None"
  by (cases c; simp add: answer4_def answer6_def answer_un_def push_rule_def array_push_def access_append split: option.splits)+

lemma push6:
  "answer4 (push_rule (Cidr_in6 a m) deny conf) p = answer4 conf p"
  "length a = 16 \<Longrightarrow> length m = 16 \<Longrightarrow> length p = 16 \<Longrightarrow> answer6 (push_rule (Cidr_in6 a m) deny conf) p =
     (if answer6 conf p = NGX_DECLINED then if map2 (AND) p m = a then ngx_http_access_found deny else NGX_DECLINED
      else answer6 conf p)"
  "ac_rules (push_rule (Cidr_in6 a m) deny conf) = ac_rules conf"
  "ac_rules6 (push_rule (Cidr_in6 a m) deny conf) \<noteq> None"
  by (simp_all add: answer4_def answer6_def push_rule_def array_push_def access_append match6 split: option.splits)

abbreviation push_un :: "bool \<Rightarrow> access_conf \<Rightarrow> access_conf" where
  "push_un deny conf \<equiv> conf\<lparr>ac_rules_un := array_push deny (ac_rules_un conf)\<rparr>"

lemma push_un:
  "answer4 (conf\<lparr>ac_rules_un := u\<rparr>) p = answer4 conf p" "answer6 (conf\<lparr>ac_rules_un := u\<rparr>) p = answer6 conf p"
  "ac_rules_un conf \<noteq> Some [] \<Longrightarrow>
     answer_un (push_un deny conf) = (if ac_rules_un conf = None then ngx_http_access_found deny else answer_un conf)"
  "ac_rules_un (push_un deny conf) \<noteq> Some []" "ac_rules_un (push_un deny conf) \<noteq> None"
  by (auto simp: answer4_def answer6_def answer_un_def array_push_def access_append split: option.splits)

lemma answer_un_declined: "ac_rules_un conf \<noteq> Some [] \<Longrightarrow> answer_un conf = NGX_DECLINED \<longleftrightarrow> ac_rules_un conf = None"
  by (auto simp: answer_un_def neq_Nil_conv split: option.splits)

lemma decide_one: "decide [(deny, t)] c = (if covers t c then ngx_http_access_found deny else NGX_DECLINED)"
  by (simp add: ngx_http_access_found_def)

lemma names_ipv4_append: "names_ipv4 (ds @ [(deny, t)]) \<longleftrightarrow>
    names_ipv4 ds \<or> t = All_clients \<or> (case t of Clients_in (Net4 p n) \<Rightarrow> True | _ \<Rightarrow> False)"
  by (auto simp: names_ipv4_def)

lemma net_text_slash: "c_slash \<in> set (net_text w)"
  by (cases w) simp_all

lemma target_not_word: "net_text w \<noteq> asc ''all''" "net_text w \<noteq> asc ''unix:''"
proof -
  have "c_slash \<notin> set (asc ''all'')" "c_slash \<notin> set (asc ''unix:'')" by code_simp+
  then show "net_text w \<noteq> asc ''all''" "net_text w \<noteq> asc ''unix:''" using net_text_slash by metis+
qed

lemma deny_word: "((if deny then asc ''deny'' else asc ''allow'') ! 0 = (0x64 :: u8)) = deny"
proof -
  have "asc ''deny'' ! 0 = 0x64" "asc ''allow'' ! 0 \<noteq> 0x64" by code_simp+
  then show ?thesis by simp
qed

lemma zero_masks: "length p = 16 \<Longrightarrow> map2 (AND) p (replicate 16 (0 :: u8)) = replicate 16 0"
  by (rule nth_equalityI) simp_all

lemma directive_all:
  assumes "answers conf ds" "ngx_http_access_rule (if deny then asc ''deny'' else asc ''allow'') (asc ''all'') conf = Some r"
  shows "\<exists>conf'. r = Inr conf' \<and> answers conf' (ds @ [(deny, All_clients)])"
proof -
  let ?four = "push_rule (Cidr_in 0 0) deny conf"
  let ?six = "push_rule (Cidr_in6 (replicate 16 0) (replicate 16 0)) deny ?four"
  have r: "r = Inr (push_un deny ?six)" using assms(2) by (simp add: ngx_http_access_rule_def deny_word Let_def)
  have un: "ac_rules_un ?six \<noteq> Some []" using assms(1) by (simp add: answers_def push4)
  have "answers (push_un deny ?six) (ds @ [(deny, All_clients)])" unfolding answers_def
  proof (intro conjI allI impI)
    show "ac_rules (push_un deny ?six) \<noteq> None \<longleftrightarrow> names_ipv4 (ds @ [(deny, All_clients)])"
      by (simp add: push4 push6 names_ipv4_append)
    show "ac_rules_un (push_un deny ?six) \<noteq> Some []" by (rule push_un)
    show "ac_rules (push_un deny ?six) = None \<and> ac_rules6 (push_un deny ?six) = None \<and> ac_rules_un (push_un deny ?six) = None
        \<longleftrightarrow> ds @ [(deny, All_clients)] = []" by simp
    show "answer4 (push_un deny ?six) p = decide (ds @ [(deny, All_clients)]) (Sock_inet p port)" if "length p = 4" for p port
      using assms(1) that by (simp add: push_un push6 push4 decide_append [of ds] decide_one answers_def)
    show "answer6 (push_un deny ?six) p = decide (ds @ [(deny, All_clients)]) (Sock_inet6 p port)" if "length p = 16" for p port
      using assms(1) that zero_masks [OF that]
      by (simp add: push_un push6 push4 decide_append [of ds] decide_one answers_def)
    show "answer_un (push_un deny ?six) = decide (ds @ [(deny, All_clients)]) (Sock_unix path)" for path
      using assms(1) push_un(3) [OF un] answer_un_declined [OF un]
      by (simp add: push4 decide_append [of ds] decide_one answers_def)
  qed
  then show ?thesis using r by blast
qed

lemma directive_unix:
  assumes "answers conf ds" "ngx_http_access_rule (if deny then asc ''deny'' else asc ''allow'') (asc ''unix:'') conf = Some r"
  shows "\<exists>conf'. r = Inr conf' \<and> answers conf' (ds @ [(deny, Unix_clients)])"
proof -
  have "asc ''unix:'' \<noteq> asc ''all''" by code_simp
  then have r: "r = Inr (push_un deny conf)" using assms(2) by (simp only: ngx_http_access_rule_def deny_word Let_def) simp
  have un: "ac_rules_un conf \<noteq> Some []" using assms(1) by (simp add: answers_def)
  have "answers (push_un deny conf) (ds @ [(deny, Unix_clients)])"
    using assms(1) push_un(3) [OF un] answer_un_declined [OF un]
    by (auto simp: push_un(1,2) answers_def decide_append [of ds] decide_one names_ipv4_append)
  then show ?thesis using r by blast
qed

lemma directive_net:
  assumes "answers conf ds" "net_ok w"
    "ngx_http_access_rule (if deny then asc ''deny'' else asc ''allow'') (net_text w) conf = r"
  shows "\<exists>conf'. r = Some (Inr conf') \<and> answers conf' (ds @ [(deny, Clients_in w)])"
proof -
  obtain c where c: "ngx_ptocidr (replicate 16 0) (net_text w) = Some (if net_exact w then NGX_OK else NGX_DONE, Some c)"
      "case w of Net4 _ _ \<Rightarrow> (\<exists>a m. c = Cidr_in a m) | Net6 _ _ \<Rightarrow> (\<exists>a m. c = Cidr_in6 a m \<and> length a = 16 \<and> length m = 16)"
      "\<And>q. cidr_matches c q = in_net w q"
    using ptocidr_net [OF assms(2), of "replicate 16 0"] by auto
  have "NGX_OK \<noteq> NGX_ERROR" "NGX_DONE \<noteq> NGX_ERROR" by (simp_all add: ngx_codes)
  then have r: "r = Some (Inr (push_rule c deny conf))"
    using assms(3) c(1) target_not_word [of w] by (simp only: ngx_http_access_rule_def deny_word Let_def) auto
  have "answers (push_rule c deny conf) (ds @ [(deny, Clients_in w)])"
  proof (cases w)
    case (Net4 p n)
    then obtain a m where am: "c = Cidr_in a m" using c(2) by auto
    have "\<not> in_net w q" if "length q = 16" for q using Net4 that by simp
    moreover have "in_net w q \<longleftrightarrow> htonl (be32 q) AND m = a" if "length q = 4" for q using c(3) [of q] am that by simp
    ultimately show ?thesis
      using assms(1) Net4 unfolding am
      by (simp add: answers_def push4 decide_append [of ds] decide_one names_ipv4_append del: in_net.simps)
  next
    case (Net6 p n)
    then obtain a m where am: "c = Cidr_in6 a m" "length a = 16" "length m = 16" using c(2) by auto
    have "\<not> in_net w q" if "length q = 4" for q using Net6 that by simp
    moreover have "in_net w q \<longleftrightarrow> map2 (AND) q m = a" if "length q = 16" for q using c(3) [of q] am that by simp
    ultimately show ?thesis
      using assms(1) Net6 am(2,3) unfolding am(1)
      by (simp add: answers_def push4 push6 decide_append [of ds] decide_one names_ipv4_append del: in_net.simps)
  qed
  then show ?thesis using r by blast
qed

lemma directives_answer:
  "answers conf ds0 \<Longrightarrow> list_all (\<lambda>(deny, t). target_ok t) ds \<Longrightarrow>
     \<exists>conf'. access_directives ds conf = Some (Inr conf') \<and> answers conf' (ds0 @ ds)"
proof (induction ds arbitrary: conf ds0)
  case (Cons d ds)
  obtain deny t where d: "d = (deny, t)" by (cases d)
  obtain conf1 where step: "ngx_http_access_rule (if deny then asc ''deny'' else asc ''allow'') (target_text t) conf = Some (Inr conf1)"
      "answers conf1 (ds0 @ [d])"
  proof (cases t)
    case All_clients
    then show ?thesis using that directive_all [OF Cons.prems(1), of deny] d by (simp add: ngx_http_access_rule_def Let_def)
  next
    case Unix_clients
    have "asc ''unix:'' \<noteq> asc ''all''" by code_simp
    then show ?thesis using that directive_unix [OF Cons.prems(1), of deny] d Unix_clients
      by (simp add: ngx_http_access_rule_def Let_def)
  next
    case (Clients_in w)
    then show ?thesis using that directive_net [OF Cons.prems(1) _ refl, of w deny] d Cons.prems(2) by auto
  qed
  then show ?case using Cons.IH [OF step(2)] Cons.prems(2) d by simp
qed simp

lemma v4mapped:
  assumes "length p = 16"
  shows "push_bit 24 (ucast (p ! 12)) + push_bit 16 (ucast (p ! 13)) + push_bit 8 (ucast (p ! 14)) + ucast (p ! 15) =
    be32 (drop 12 p)"
  using assms by (simp add: be32_def push_bit_eq_mult algebra_simps)

lemma handler_answers:
  assumes "answers conf ds" "client_ok c"
  shows "ngx_http_access_handler conf c = decide ds (client_view ds c)"
proof (cases c)
  case (Sock_inet p port)
  then show ?thesis using assms by (simp add: answers_def answer4_def client_view_def split: option.splits)
next
  case (Sock_inet6 p port)
  then have len: "length p = 16" "length (drop 12 p) = 4" using assms(2) by simp_all
  show ?thesis
  proof (cases "names_ipv4 ds \<and> IN6_IS_ADDR_V4MAPPED p")
    case True
    then have "ac_rules conf \<noteq> None" using assms(1) by (simp add: answers_def)
    moreover have "answer4 conf (drop 12 p) = decide ds (Sock_inet (drop 12 p) port)"
      using assms(1) len(2) unfolding answers_def by blast
    ultimately show ?thesis using True Sock_inet6 v4mapped [OF len(1)] by (auto simp: answer4_def client_view_def)
  next
    case False
    moreover have "answer6 conf p = decide ds (Sock_inet6 p port)" using assms(1) len(1) unfolding answers_def by blast
    ultimately show ?thesis using assms(1) Sock_inet6 by (auto simp: answer6_def client_view_def answers_def)
  qed
next
  case (Sock_unix path)
  then show ?thesis using assms(1) by (auto simp: answers_def answer_un_def client_view_def)
next
  case Sock_other
  have "\<not> covers t Sock_other" for t by (cases t) simp_all
  then have "decide ds Sock_other = NGX_DECLINED" by (induction ds) auto
  then show ?thesis using Sock_other by (simp add: client_view_def)
qed

text \<open>
  C11: Every list of \<open>allow\<close> and \<open>deny\<close> directives with \<open>all\<close>, \<open>unix:\<close> and networks, written as text, is accepted, and
  the handler answers each client of a location as the first directive that covers it says: \<open>NGX_HTTP_FORBIDDEN\<close>,
  \<open>NGX_OK\<close>, or \<open>NGX_DECLINED\<close> when none does.  The directives are those of the location or, when it has none, those of
  the enclosing level; an IPv4-mapped client counts as its IPv4 address as soon as one of them names IPv4 clients.
\<close>

theorem access_first_match:
  assumes "list_all (\<lambda>(deny, t). target_ok t) outer" "list_all (\<lambda>(deny, t). target_ok t) inner" "client_ok c"
  defines "ds \<equiv> if inner = [] then outer else inner"
  shows "\<exists>prev conf.
    access_directives outer ngx_http_access_create_loc_conf = Some (Inr prev) \<and>
    access_directives inner ngx_http_access_create_loc_conf = Some (Inr conf) \<and>
    ngx_http_access_handler (ngx_http_access_merge_loc_conf prev conf) c = decide ds (client_view ds c)"
proof -
  have start: "answers ngx_http_access_create_loc_conf []"
    by (simp add: answers_def ngx_http_access_create_loc_conf_def names_ipv4_def answer4_def answer6_def answer_un_def)
  obtain prev conf where confs:
      "access_directives outer ngx_http_access_create_loc_conf = Some (Inr prev)" "answers prev outer"
      "access_directives inner ngx_http_access_create_loc_conf = Some (Inr conf)" "answers conf inner"
    using directives_answer [OF start assms(1)] directives_answer [OF start assms(2)] by auto
  have "answers (ngx_http_access_merge_loc_conf prev conf) ds"
    using confs(2,4) by (auto simp: ngx_http_access_merge_loc_conf_def ds_def answers_def answer4_def answer6_def answer_un_def)
  then show ?thesis using confs handler_answers [OF _ assms(3)] by blast
qed

definition office :: "access_directive list" where
  "office = [(True, Clients_in (Net4 [192, 168, 1, 1] 32)), (False, Clients_in (Net4 [192, 168, 1, 0] 24)), (True, All_clients)]"

theorem access_first_match_witness:
  "\<exists>prev conf.
    access_directives office ngx_http_access_create_loc_conf = Some (Inr prev) \<and>
    access_directives [] ngx_http_access_create_loc_conf = Some (Inr conf) \<and>
    ngx_http_access_handler (ngx_http_access_merge_loc_conf prev conf) (Sock_inet [192, 168, 1, 7] 4711) =
      decide (if [] = ([] :: access_directive list) then office else [])
        (client_view (if [] = ([] :: access_directive list) then office else []) (Sock_inet [192, 168, 1, 7] 4711))"
  by (rule access_first_match) (simp_all add: office_def)

end
