(* ===== verification/Spec2Isabelle.thy ===== *)
theory Spec2Isabelle
  imports Ngx_Number Ngx_Printf Ngx_Base64 Ngx_Escape Ngx_Utf8 Ngx_Parse Ngx_Time Ngx_String Ngx_Sort Ngx_Queue Ngx_Route
    Ngx_Request_Line Ngx_Uri Ngx_Header_Line Ngx_Chunked Ngx_Range_Filter Ngx_Upstream Ngx_Rwlock Ngx_Access
begin

text \<open>
  This library verifies parts of nginx 1.11.2 (\<open>src/bundle/nginx-1.11.2\<close>), the server that the bundle wraps:
  what a request goes through from its bytes to the choice of the server that answers it.  All paths below are
  relative to that directory.

  \<^bold>\<open>The parts and the theories.\<close>  A request arrives in pieces.  The parsers of \<open>src/http/ngx_http_parse.c\<close> read its
  first line, its header lines and its chunked body; the path is normalised; the location tree says which
  configuration serves it; a range filter or a chunked filter shapes the answer, or a balancer picks an upstream
  server.  Underneath are the routines of \<open>src/core\<close>.

  \<^item> \<open>Ngx_Prelude\<close>: bytes, machine integers, return codes, the facts about all 256 bytes, counting.  \<open>Ngx_Http\<close>: the
    constants of the HTTP layer.  \<open>Ngx_Loop\<close>: the loop over a buffer that all parsers share, with the locales
    \<open>byte_parser\<close> (an invariant of the step) and \<open>resumable\<close> (a parser may be stopped and resumed anywhere).
  \<^item> \<open>Ngx_Request_Line\<close>, \<open>Ngx_Header_Line\<close>, \<open>Ngx_Uri\<close>: \<open>ngx_http_parse_request_line\<close>, \<open>..._header_line\<close>, \<open>..._uri\<close>,
    \<open>..._complex_uri\<close> and \<open>ngx_http_process_request_uri\<close>.  One function per \<open>case\<close> of the switch; a state is the
    enumeration of the code and a record of the fields of the request that it sets.
  \<^item> \<open>Ngx_Chunked\<close>: \<open>ngx_http_parse_chunked\<close>, the request body filter that calls it (\<open>ngx_http_request_body.c\<close>) and the
    output filter (\<open>modules/ngx_http_chunked_filter_module.c\<close>).
  \<^item> \<open>Ngx_Location\<close>, \<open>Ngx_Routing\<close>, \<open>Ngx_Route\<close>: the locations of a server from the directives
    (\<open>ngx_http_add_location\<close>, \<open>ngx_http_init_locations\<close>) over the search tree to
    \<open>ngx_http_core_find_static_location\<close>.
  \<^item> \<open>Ngx_Range\<close>, \<open>Ngx_Range_Filter\<close>: \<open>modules/ngx_http_range_filter_module.c\<close>, header and body filters.  \<open>Ngx_Buf\<close>:
    the buffers and chains of \<open>core/ngx_buf.h\<close> that the filters pass on, and the bytes they hold.
  \<^item> \<open>Ngx_Round_Robin\<close>, \<open>Ngx_Least_Conn\<close>, \<open>Ngx_Ip_Hash\<close>: the three balancers (\<open>ngx_http_upstream_round_robin.c\<close> and two
    modules).  \<open>Ngx_Balancer\<close> holds their contract as the locales \<open>peer_choice\<close> and \<open>peer_balancer\<close> and the step
    relation of the requests of an upstream; \<open>Ngx_Upstream\<close> the theorems about any run of it.
  \<^item> \<open>Ngx_Interleaving\<close>, \<open>Ngx_Rwlock\<close>: the lock of \<open>core/ngx_rwlock.c\<close> as an interleaving of atomic accesses, with the
    locale \<open>interleaving\<close> for invariants and the lemmas on fair runs.
  \<^item> \<open>Ngx_Number\<close>, \<open>Ngx_Printf\<close>, \<open>Ngx_Base64\<close>, \<open>Ngx_Escape\<close>, \<open>Ngx_Utf8\<close>, \<open>Ngx_String\<close>, \<open>Ngx_Sort\<close>: \<open>core/ngx_string.c\<close>;
    \<open>Ngx_Parse\<close>: \<open>core/ngx_parse.c\<close>; \<open>Ngx_Time\<close>: \<open>core/ngx_parse_time.c\<close> and \<open>core/ngx_times.c\<close>; \<open>Ngx_Queue\<close>:
    \<open>core/ngx_queue.h\<close> and \<open>core/ngx_queue.c\<close> on an explicit store of links.
  \<^item> \<open>Ngx_Sprintf\<close>, \<open>Ngx_Inet\<close>, \<open>Ngx_Cidr\<close>: \<open>ngx_sprintf\<close> and \<open>ngx_snprintf\<close> with one rule per conversion; the readers and
    printers of internet addresses and networks in \<open>core/ngx_inet.c\<close>.  \<open>Ngx_Access\<close>: the directives \<open>allow\<close> and
    \<open>deny\<close> and their handler, \<open>modules/ngx_http_access_module.c\<close>.

  \<^bold>\<open>How the model corresponds to the code.\<close>  The build is the 64-bit one.  An unsigned C type is a word of its width and
  wraps; a signed one is an \<open>int\<close>, and where the code could overflow, the operation goes through \<open>s64\<close>, whose
  \<open>None\<close> is the undefined behaviour of C; so is a read beyond a buffer.  A buffer is the list of its bytes and a pointer
  into it an index; a \<open>return\<close> of an error is a branch of the result type.  Only the doubly linked queue keeps
  pointers, since its theorem is about sharing.

  \<^bold>\<open>What the lemmas show.\<close>  For each parser: an invariant of the step, what an accepted input looks like, that a printed
  input is read back, that no read leaves the buffer, and that pieces do not matter.  For the routing and the path: that
  the optimised code computes the documented rule (a reference definition).  For filters: that the bytes sent are the
  ones announced.  For the balancers: the shares of successive requests, and accounting and stickiness in every interleaving
  of requests.  For the lock: mutual exclusion and that nobody spins for ever in a fair run.  For addresses: that the printed text is read back,
  that a network matches its prefix, and that the access rules decide as the first directive that covers the client.

  \<^bold>\<open>Fuel and bounds.\<close>  The loops are structural over the bytes or have a measure; the chunked body filter counts its
  rounds with fuel, and theorem \<open>chunked_filter_answers\<close> shows that one more than the length of the buffer is enough.
  Sums of configured weights are taken to be below \<open>2 ^ 63\<close> (for the shares of the round robin, the number of peers times
  that sum at most \<open>2 ^ 62\<close>), the number of processes below \<open>2 ^ 64 - 1\<close>.

  \<^bold>\<open>Not modelled.\<close>  Everything that is mostly calls into the kernel or into other libraries: the event loop, connections,
  files and caches, TLS (\<open>src/openssl-fips\<close> and its kin), the proxying protocols (\<open>ngx_http_upstream.c\<close>, FastCGI, uwsgi
  and the rest), the resolver's sockets, regular expressions (PCRE), the reading of the configuration file, mail and
  stream, the Lua modules and LuaJIT, and the Lua libraries.  Failed allocations and the pools are left out everywhere.
  Inside the modelled parts: the arithmetic of floating point in the formatter (its results are arguments of the model),
  regular expression locations beyond their order, the resolved-name variant of the round robin, the pools that the
  filters take buffers from, the header filter of the chunked coding, and the cached strings of the current time.  A
  call of \<open>peer.get\<close> that goes on to the backup servers is one step of the model, although the code gives the lock of
  the first group back in between: with a shared \<open>zone\<close>, another process may work there.
\<close>

end
